(* ===== verification/Prelude.thy ===== *)
theory Prelude
  imports
    Main
    "HOL-Library.Word"
    "HOL-Library.Char_ord"
    "HOL-Library.List_Lexorder"
    "HOL-Library.Option_ord"
    "HOL-Library.Product_Lexorder"
begin

text \<open>
  Shared vocabulary of the development.
  \<^item> Machine integers at their width; bytes and UTF-8 strings as \<^typ>\<open>char list\<close> (an Isabelle
    \<^typ>\<open>char\<close> is one byte), so a Rust \<open>&[u8]\<close> and a Rust \<open>&str\<close> are both a \<^typ>\<open>string\<close>
    and \<open>from_utf8\<close> is the identity on valid input.
  \<^item> The outcome of code that may panic.
  \<^item> The few routines of the Rust standard library that the sources call: \<open>str::split\<close>,
    \<open>str::rsplit_once\<close>, \<open>str::from_utf8\<close>, \<open>str::trim\<close>, \<open>u8::from_str\<close>,
    \<open>usize::to_le_bytes\<close>, the iteration order of a hash container.
  \<^item> Two locales for state machines: invariants and simulations, proved once and interpreted
    by every component that is a step relation.
\<close>

named_theorems result_simps \<open>when fallible code returns which result\<close>

named_theorems rust_std \<open>characterisations of the standard library routines\<close>

section \<open>Types\<close>

type_synonym bytes = string
type_synonym u8 = "8 word"
type_synonym u16 = "16 word"
type_synonym u32 = "32 word"
type_synonym u64 = "64 word"
type_synonym usize = "64 word"
type_synonym i32 = "32 word" \<comment> \<open>read with \<open>sint\<close>\<close>

text \<open>Code that returns normally or panics. An \<open>Err\<close> value is not a panic: fallible code
  returns \<open>'e + 'a\<close>, with \<open>Inl\<close> for \<open>Err\<close>.\<close>

datatype 'a outcome = Panic | Returns 'a

fun bind_outcome :: "'a outcome \<Rightarrow> ('a \<Rightarrow> 'b outcome) \<Rightarrow> 'b outcome" where
  "bind_outcome Panic f = Panic"
| "bind_outcome (Returns a) f = f a"

fun unwrap :: "'a option \<Rightarrow> 'a outcome" where
  "unwrap None = Panic"
| "unwrap (Some a) = Returns a"

fun unwrap_result :: "'e + 'a \<Rightarrow> 'a outcome" where
  "unwrap_result (Inl e) = Panic"
| "unwrap_result (Inr a) = Returns a"

lemma bind_outcome_Returns [simp]:
  "bind_outcome m f = Returns b \<longleftrightarrow> (\<exists>a. m = Returns a \<and> f a = Returns b)"
  by (cases m) auto

lemma bind_outcome_Panic [simp]:
  "bind_outcome m f = Panic \<longleftrightarrow> m = Panic \<or> (\<exists>a. m = Returns a \<and> f a = Panic)"
  by (cases m) auto

lemma unwrap_Panic [simp]: "unwrap m = Panic \<longleftrightarrow> m = None"
  by (cases m) auto

lemma unwrap_result_Panic [simp]: "unwrap_result m = Panic \<longleftrightarrow> (\<exists>e. m = Inl e)"
  by (cases m) auto

text \<open>The \<open>?\<close> operator is a case distinction on a sum.\<close>

lemma try_Inr [result_simps]:
  "(case r of Inl e \<Rightarrow> Inl (f e) | Inr a \<Rightarrow> g a) = Inr b \<longleftrightarrow> (\<exists>a. r = Inr a \<and> g a = Inr b)"
  by (cases r) auto

lemma try_Inl [result_simps]:
  "(case r of Inl e \<Rightarrow> Inl (f e) | Inr a \<Rightarrow> g a) = Inl x \<longleftrightarrow>
     (\<exists>e. r = Inl e \<and> x = f e) \<or> (\<exists>a. r = Inr a \<and> g a = Inl x)"
  by (cases r) auto

lemma if_Inr [result_simps]: "(if b then Inl e else Inr a) = Inr c \<longleftrightarrow> \<not> b \<and> a = c"
  by simp

lemma if_Inl [result_simps]: "(if b then Inl e else Inr a) = Inl x \<longleftrightarrow> b \<and> e = x"
  by simp

text \<open>Running a handler over a list of inputs, stopping at the first panic.\<close>

fun fold_outcome :: "('a \<Rightarrow> 's \<Rightarrow> 's outcome) \<Rightarrow> 'a list \<Rightarrow> 's \<Rightarrow> 's outcome" where
  "fold_outcome f [] s = Returns s"
| "fold_outcome f (x # xs) s = bind_outcome (f x s) (fold_outcome f xs)"

lemma fold_outcome_append:
  "fold_outcome f (xs @ ys) s = bind_outcome (fold_outcome f xs s) (fold_outcome f ys)"
proof (induction xs arbitrary: s)
  case (Cons x xs)
  then show ?case by (cases "f x s") auto
qed simp

lemma unwrap_Returns [simp]: "unwrap m = Returns a \<longleftrightarrow> m = Some a"
  by (cases m) auto

lemma unwrap_result_Returns [simp]: "unwrap_result m = Returns a \<longleftrightarrow> m = Inr a"
  by (cases m) auto

section \<open>Strings\<close>

subsection \<open>Splitting at a separator character\<close>

fun split_on :: "'a \<Rightarrow> 'a list \<Rightarrow> 'a list list" where
  "split_on d [] = [[]]"
| "split_on d (x # xs) =
     (if x = d then [] # split_on d xs
      else (case split_on d xs of [] \<Rightarrow> [[x]] | y # ys \<Rightarrow> (x # y) # ys))"

fun join_with :: "'a list \<Rightarrow> 'a list list \<Rightarrow> 'a list" where
  "join_with d [] = []"
| "join_with d [x] = x"
| "join_with d (x # y # xs) = x @ d @ join_with d (y # xs)"

lemma split_on_not_Nil [simp]: "split_on d xs \<noteq> []"
  by (cases xs) (auto split: list.splits)

lemma join_with_Cons: "xs \<noteq> [] \<Longrightarrow> join_with d (x # xs) = x @ d @ join_with d xs"
  by (cases xs) auto

lemma join_split_on [rust_std]: "join_with [d] (split_on d xs) = xs"
proof (induction xs)
  case (Cons x xs)
  obtain y ys where s: "split_on d xs = y # ys"
    by (cases "split_on d xs") auto
  with Cons.IH show ?case by (cases ys) auto
qed simp

lemma split_on_pieces: "p \<in> set (split_on d xs) \<Longrightarrow> d \<notin> set p"
  by (induction xs arbitrary: p) (auto split: list.splits if_splits)

lemma split_on_no_sep: "d \<notin> set xs \<Longrightarrow> split_on d xs = [xs]"
  by (induction xs) auto

lemma split_on_append_sep [rust_std]:
  "d \<notin> set xs \<Longrightarrow> split_on d (xs @ d # ys) = xs # split_on d ys"
  by (induction xs) auto

lemma split_join [rust_std]:
  "ps \<noteq> [] \<Longrightarrow> \<forall>p \<in> set ps. d \<notin> set p \<Longrightarrow> split_on d (join_with [d] ps) = ps"
proof (induction "[d]" ps rule: join_with.induct)
  case (2 x)
  then show ?case by (simp add: split_on_no_sep)
next
  case (3 x y xs)
  then show ?case by (simp add: split_on_append_sep)
qed simp

lemma length_split_on [rust_std]: "length (split_on d xs) = Suc (count_list xs d)"
  by (induction xs) (auto split: list.splits)

lemma split_on_Nil_hd:
  "split_on d xs = [] # ps \<longleftrightarrow> (xs = [] \<and> ps = []) \<or> (\<exists>ys. xs = d # ys \<and> split_on d ys = ps)"
  by (cases xs) (auto split: list.splits)

lemma split_on_Cons_hd: "x \<noteq> d \<Longrightarrow> \<exists>p ps. split_on d (x # xs) = (x # p) # ps"
  by (auto split: list.splits)

text \<open>\<open>str::rsplit_once\<close> with a one-character pattern: split at its last occurrence.\<close>

fun rsplit_once :: "'a \<Rightarrow> 'a list \<Rightarrow> ('a list \<times> 'a list) option" where
  "rsplit_once d [] = None"
| "rsplit_once d (x # xs) =
     (case rsplit_once d xs of
        Some (a, b) \<Rightarrow> Some (x # a, b)
      | None \<Rightarrow> if x = d then Some ([], xs) else None)"

lemma rsplit_once_None [rust_std]: "rsplit_once d xs = None \<longleftrightarrow> d \<notin> set xs"
  by (induction xs) (auto split: option.splits)

lemma last_sep_unique:
  "a @ d # b = a' @ d # b' \<Longrightarrow> d \<notin> set b \<Longrightarrow> d \<notin> set b' \<Longrightarrow> a = a' \<and> b = b'"
  by (auto simp: append_eq_append_conv2 append_eq_Cons_conv Cons_eq_append_conv)

lemma rsplit_once_split: "rsplit_once d xs = Some (a, b) \<Longrightarrow> xs = a @ d # b \<and> d \<notin> set b"
  by (induction xs arbitrary: a) (auto simp: rsplit_once_None split: option.splits if_splits)

lemma rsplit_once_Some [rust_std]:
  "rsplit_once d xs = Some (a, b) \<longleftrightarrow> xs = a @ d # b \<and> d \<notin> set b"
proof
  assume r: "xs = a @ d # b \<and> d \<notin> set b"
  then have "rsplit_once d xs \<noteq> None" by (simp add: rsplit_once_None)
  then obtain a' b' where s: "rsplit_once d xs = Some (a', b')" by auto
  have "a @ d # b = a' @ d # b'" using r rsplit_once_split [OF s] by simp
  then have "a = a' \<and> b = b'"
    by (rule last_sep_unique) (use r rsplit_once_split [OF s] in auto)
  with s show "rsplit_once d xs = Some (a, b)" by simp
qed (rule rsplit_once_split)

subsection \<open>UTF-8 validity, as \<open>str::from_utf8\<close> checks it\<close>

abbreviation byte_val :: "char \<Rightarrow> nat" where
  "byte_val c \<equiv> of_char c"

definition utf8_cont :: "char \<Rightarrow> bool" where
  "utf8_cont c \<longleftrightarrow> 128 \<le> byte_val c \<and> byte_val c \<le> 191"

definition utf8_second3 :: "nat \<Rightarrow> char \<Rightarrow> bool" where
  "utf8_second3 x c \<longleftrightarrow>
     (let y = byte_val c in
      (if x = 224 then 160 else 128) \<le> y \<and> y \<le> (if x = 237 then 159 else 191))"

definition utf8_second4 :: "nat \<Rightarrow> char \<Rightarrow> bool" where
  "utf8_second4 x c \<longleftrightarrow>
     (let y = byte_val c in
      (if x = 240 then 144 else 128) \<le> y \<and> y \<le> (if x = 244 then 143 else 191))"

fun is_utf8 :: "bytes \<Rightarrow> bool" where
  "is_utf8 [] = True"
| "is_utf8 (a # bs) =
     (let x = byte_val a in
      if x < 128 then is_utf8 bs
      else if 194 \<le> x \<and> x \<le> 223 then
        (case bs of b # cs \<Rightarrow> utf8_cont b \<and> is_utf8 cs | _ \<Rightarrow> False)
      else if 224 \<le> x \<and> x \<le> 239 then
        (case bs of b # c # ds \<Rightarrow> utf8_second3 x b \<and> utf8_cont c \<and> is_utf8 ds | _ \<Rightarrow> False)
      else if 240 \<le> x \<and> x \<le> 244 then
        (case bs of b # c # d # es \<Rightarrow>
           utf8_second4 x b \<and> utf8_cont c \<and> utf8_cont d \<and> is_utf8 es | _ \<Rightarrow> False)
      else False)"

declare is_utf8.simps(2) [simp del]

definition from_utf8 :: "bytes \<Rightarrow> string option" where
  "from_utf8 bs = (if is_utf8 bs then Some bs else None)"

lemma ascii_is_utf8 [rust_std]: "\<forall>c \<in> set bs. byte_val c < 128 \<Longrightarrow> is_utf8 bs"
  by (induction bs) (auto simp: is_utf8.simps)

lemma from_utf8_Some [simp]: "from_utf8 bs = Some s \<longleftrightarrow> s = bs \<and> is_utf8 bs"
  by (auto simp: from_utf8_def)

lemma from_utf8_None [simp]: "from_utf8 bs = None \<longleftrightarrow> \<not> is_utf8 bs"
  by (auto simp: from_utf8_def)

section \<open>Lists\<close>

lemma length_filter_update:
  "i < length xs \<Longrightarrow>
     length (filter P (xs[i := y])) + (if P (xs ! i) then 1 else 0)
       = length (filter P xs) + (if P y then 1 else 0)"
proof (induction xs arbitrary: i)
  case (Cons a xs)
  show ?case
  proof (cases i)
    case (Suc n)
    with Cons.IH [of n] Cons.prems show ?thesis by auto
  qed simp
qed simp

section \<open>Words\<close>

lemma unat_of_nat_u64: "n < 2 ^ 64 \<Longrightarrow> unat (of_nat n :: u64) = n"
  by (simp add: unat_of_nat take_bit_nat_eq_self)

lemma unat_of_nat_u8: "n < 2 ^ 8 \<Longrightarrow> unat (of_nat n :: u8) = n"
  by (simp add: unat_of_nat take_bit_nat_eq_self)

lemma sint_unat_u64:
  fixes w :: u64
  assumes "unat w < 2 ^ 63"
  shows "sint w = int (unat w)"
proof -
  have "uint w < 2 ^ 63" using assms by (metis of_nat_less_iff of_nat_numeral of_nat_power uint_nat)
  moreover have "- (2 ^ 63) \<le> uint w" by (rule order.trans [OF _ uint_ge_0]) simp
  ultimately have "signed_take_bit 63 (uint w) = uint w" by (intro signed_take_bit_int_eq_self)
  moreover have "sint w = signed_take_bit 63 (uint w)" by (simp add: sint_uint)
  ultimately have "sint w = uint w" by simp
  then show ?thesis by (simp only: uint_nat)
qed

lemma sint_scast_i32: "sint (scast w :: u64) = sint w" for w :: i32
  by (simp add: sint_up_scast is_up)

section \<open>State machines\<close>

text \<open>A step relation with an inductive invariant. The lemmas lift one-step preservation to runs.\<close>

locale invariant_system =
  fixes init :: "'s \<Rightarrow> bool"
    and step :: "'s \<Rightarrow> 's \<Rightarrow> bool"
    and invar :: "'s \<Rightarrow> bool"
  assumes invar_init: "init s \<Longrightarrow> invar s"
    and invar_step: "invar s \<Longrightarrow> step s t \<Longrightarrow> invar t"
begin

lemma invar_run: "step\<^sup>*\<^sup>* s t \<Longrightarrow> invar s \<Longrightarrow> invar t"
  by (induction rule: rtranclp_induct) (auto intro: invar_step)

lemma invar_reachable: "init s \<Longrightarrow> step\<^sup>*\<^sup>* s t \<Longrightarrow> invar t"
  by (auto intro: invar_run invar_init)

text \<open>A property that a step keeps only while a condition \<open>C\<close> holds, where \<open>C\<close> cannot come back
  once lost, holds along a run whose last state still satisfies \<open>C\<close>.\<close>

lemma run_while:
  assumes "step\<^sup>*\<^sup>* s t" and "invar s" and "P s" and "C t"
    and lost: "\<And>u v. invar u \<Longrightarrow> step u v \<Longrightarrow> C v \<Longrightarrow> C u"
    and keep: "\<And>u v. invar u \<Longrightarrow> P u \<Longrightarrow> step u v \<Longrightarrow> C u \<Longrightarrow> C v \<Longrightarrow> P v"
  shows "P t"
proof -
  have "invar t \<and> (C t \<longrightarrow> P t)"
    using assms(1)
  proof (induction rule: rtranclp_induct)
    case base
    then show ?case using assms(2,3) by simp
  next
    case (step u v)
    then show ?case using invar_step lost keep by blast
  qed
  with \<open>C t\<close> show ?thesis by simp
qed

end

text \<open>A run of three steps.\<close>

lemma three_steps: "r a b \<Longrightarrow> r b c \<Longrightarrow> r c d \<Longrightarrow> r\<^sup>*\<^sup>* a d"
  by (meson converse_rtranclp_into_rtranclp r_into_rtranclp)

text \<open>A simulation: under the invariant, every concrete step is matched by the abstract machine,
  possibly by standing still.\<close>

locale simulation = invariant_system init step invar
  for init :: "'s \<Rightarrow> bool" and step :: "'s \<Rightarrow> 's \<Rightarrow> bool" and invar :: "'s \<Rightarrow> bool" +
  fixes astep :: "'a \<Rightarrow> 'a \<Rightarrow> bool"
    and abs :: "'s \<Rightarrow> 'a"
  assumes sim_step: "invar s \<Longrightarrow> step s t \<Longrightarrow> abs t = abs s \<or> astep (abs s) (abs t)"
begin

lemma sim_run: "step\<^sup>*\<^sup>* s t \<Longrightarrow> invar s \<Longrightarrow> astep\<^sup>*\<^sup>* (abs s) (abs t)"
proof (induction rule: rtranclp_induct)
  case (step u v)
  then have "invar u" by (auto intro: invar_run)
  with sim_step [OF this step.hyps(2)] step show ?case
    by (auto intro: rtranclp.rtrancl_into_rtrancl)
qed simp

end

text \<open>The order in which a hash container yields its keys is not specified: code that iterates over
  one is modelled with an explicit enumeration of its keys, and theorems hold for every one.\<close>

definition enumerates :: "'k list \<Rightarrow> 'k set \<Rightarrow> bool" where
  "enumerates ks S \<longleftrightarrow> distinct ks \<and> set ks = S"

end
