(* ===== verification/Names.thy ===== *)
theory Names
  imports Prelude
begin

text \<open>
  The three small parsers of the sources, each a split at a separator: field references
  (\<open>field_ref.rs\<close>), qualified gRPC service names (\<open>service/qualified_service.rs\<close>) and the
  HTTP path of a gRPC call (\<open>parse_grpc_path\<close> of \<open>proxy/mod.rs\<close>). The lemmas characterise each
  parser on every input and give its round trip.
\<close>

section \<open>Field references\<close>

datatype PathComponent = Field string

record FieldRef =
  components :: "PathComponent list"

text \<open>\<open>field_ref::ParseError\<close> is an enum without variants, so \<open>parse\<close> cannot fail; the model's
  error type has the value \<open>()\<close> only because HOL types are inhabited, and it is never built.\<close>

definition FieldRef_parse :: "string \<Rightarrow> unit + FieldRef" where
  "FieldRef_parse s = Inr \<lparr>components = map Field (split_on CHR ''.'' s)\<rparr>"

text \<open>\<open>FieldRef::validate\<close> is a stub: it accepts every descriptor.\<close>

definition FieldRef_validate :: "FieldRef \<Rightarrow> 'descriptor \<Rightarrow> unit" where
  "FieldRef_validate r d = ()"

fun PathComponent_text :: "PathComponent \<Rightarrow> string" where
  "PathComponent_text (Field s) = s"

section \<open>Qualified service names\<close>

record QualifiedService =
  package :: string
  name :: string

datatype qualified_error = FailedParseQualifiedService string

definition QualifiedService_display :: "QualifiedService \<Rightarrow> string" where
  "QualifiedService_display q = package q @ ''.'' @ name q"

definition QualifiedService_parse :: "string \<Rightarrow> qualified_error + QualifiedService" where
  "QualifiedService_parse s =
     (case rsplit_once CHR ''.'' s of
        Some (p, n) \<Rightarrow> Inr \<lparr>package = p, name = n\<rparr>
      | None \<Rightarrow> Inl (FailedParseQualifiedService s))"

lemma QualifiedService_parse_Inr:
  "QualifiedService_parse s = Inr q \<longleftrightarrow>
     s = QualifiedService_display q \<and> CHR ''.'' \<notin> set (name q)"
proof (cases "rsplit_once CHR ''.'' s")
  case None
  then have "CHR ''.'' \<notin> set s" by (simp add: rsplit_once_None)
  with None show ?thesis
    by (auto simp: QualifiedService_parse_def QualifiedService_display_def)
next
  case (Some ab)
  then obtain a b where s: "rsplit_once CHR ''.'' s = Some (a, b)" by (cases ab) auto
  have "QualifiedService_parse s = Inr q \<longleftrightarrow> rsplit_once CHR ''.'' s = Some (package q, name q)"
    using s by (cases q) (auto simp: QualifiedService_parse_def)
  then show ?thesis by (simp add: rsplit_once_Some QualifiedService_display_def)
qed

lemma QualifiedService_parse_Inl:
  "QualifiedService_parse s = Inl e \<longleftrightarrow>
     e = FailedParseQualifiedService s \<and> CHR ''.'' \<notin> set s"
  by (auto simp: QualifiedService_parse_def rust_std split: option.splits)

section \<open>The path of a gRPC call\<close>

datatype path_error =
    PathNotUtf8
  | PathMustLeadWithSlash
  | PathMustHaveTwoElements

text \<open>The iterator \<open>path.split("/")\<close> is the list of pieces; \<open>next\<close> takes its head.\<close>

fun iter_next :: "'a list \<Rightarrow> 'a option \<times> 'a list" where
  "iter_next [] = (None, [])"
| "iter_next (x # xs) = (Some x, xs)"

definition parse_grpc_path :: "bytes \<Rightarrow> path_error + (string \<times> string)" where
  "parse_grpc_path path =
     (case from_utf8 path of
        None \<Rightarrow> Inl PathNotUtf8
      | Some p \<Rightarrow>
          (let parts = split_on CHR ''/'' p;
               (lead, parts) = iter_next parts
           in if lead \<noteq> Some [] then Inl PathMustLeadWithSlash
              else
                (let (service, parts) = iter_next parts;
                     (method, parts) = iter_next parts;
                     (extra, parts) = iter_next parts
                 in case (service, method, extra) of
                      (Some s, Some m, None) \<Rightarrow> Inr (s, m)
                    | _ \<Rightarrow> Inl PathMustHaveTwoElements)))"

lemma iter_next_simps:
  "iter_next xs = (None, ys) \<longleftrightarrow> xs = [] \<and> ys = []"
  "iter_next xs = (Some x, ys) \<longleftrightarrow> xs = x # ys"
  by (cases xs; auto)+

lemma parse_grpc_path_pieces:
  "parse_grpc_path path = Inr (s, m) \<longleftrightarrow>
     is_utf8 path \<and> split_on CHR ''/'' path = [[], s, m]"
  by (cases "split_on CHR ''/'' path" rule: iter_next.cases)
    (auto simp: parse_grpc_path_def from_utf8_def Let_def iter_next_simps
      split: prod.splits option.splits)

lemma split_two_pieces:
  "split_on d p = [s, m] \<longleftrightarrow> p = s @ d # m \<and> d \<notin> set s \<and> d \<notin> set m"
proof
  assume sp: "split_on d p = [s, m]"
  then have "p = join_with [d] [s, m]" by (metis join_split_on)
  with sp show "p = s @ d # m \<and> d \<notin> set s \<and> d \<notin> set m"
    using split_on_pieces [of _ d p] by auto
qed (auto simp: split_on_append_sep split_on_no_sep)

lemma parse_grpc_path_Inr:
  "parse_grpc_path path = Inr (s, m) \<longleftrightarrow>
     is_utf8 path \<and> path = ''/'' @ s @ ''/'' @ m \<and> CHR ''/'' \<notin> set s \<and> CHR ''/'' \<notin> set m"
  unfolding parse_grpc_path_pieces split_on_Nil_hd by (auto simp: split_two_pieces)

lemma parse_dotted: "CHR ''.'' \<in> set n \<Longrightarrow> \<exists>q. QualifiedService_parse n = Inr q"
  using rsplit_once_None [of "CHR ''.''" n] by (auto simp: QualifiedService_parse_def split: option.splits)

text \<open>C39. A request path parses to the service and method \<open>(s, m)\<close> exactly when it is valid UTF-8
  and reads \<open>/s/m\<close> with no further slash: nothing else is accepted, and every call path built
  from a service and a method name is read back as that pair.\<close>

theorem parse_grpc_path_iff:
  "parse_grpc_path path = Inr (s, m) \<longleftrightarrow>
     is_utf8 path \<and> path = ''/'' @ s @ ''/'' @ m \<and> CHR ''/'' \<notin> set s \<and> CHR ''/'' \<notin> set m"
  by (rule parse_grpc_path_Inr)

text \<open>Each rejected path gets the error of the first check it fails: invalid UTF-8, then a
  first byte other than a slash, then a number of slashes other than two (which covers the empty
  path).\<close>

theorem parse_grpc_path_errors:
  "parse_grpc_path path = Inl e \<longleftrightarrow>
     (if \<not> is_utf8 path then e = PathNotUtf8
      else if path \<noteq> [] \<and> hd path \<noteq> CHR ''/'' then e = PathMustLeadWithSlash
      else count_list path CHR ''/'' \<noteq> 2 \<and> e = PathMustHaveTwoElements)"
proof (cases path)
  case Nil
  then show ?thesis by (auto simp: parse_grpc_path_def from_utf8_def Let_def)
next
  case (Cons c rest)
  show ?thesis
  proof (cases "c = CHR ''/''")
    case True
    then have "length (split_on CHR ''/'' rest) = Suc (count_list rest CHR ''/'')"
      by (simp add: length_split_on)
    with Cons True show ?thesis
      by (cases "split_on CHR ''/'' rest")
        (auto simp: parse_grpc_path_def from_utf8_def Let_def iter_next_simps length_Suc_conv
          split: prod.splits option.splits)
  next
    case False
    then obtain p ps where "split_on CHR ''/'' path = (c # p) # ps"
      using Cons split_on_Cons_hd by metis
    with False Cons show ?thesis
      by (auto simp: parse_grpc_path_def from_utf8_def Let_def)
  qed
qed

text \<open>C40. Parsing a qualified service name inverts printing it: a name parses to the pair of package
  and service exactly when it prints as that name and the service part holds no dot, and parsing
  fails, with the name in the error, exactly on a name without a dot.\<close>

theorem QualifiedService_round_trip:
  "(QualifiedService_parse s = Inr q \<longleftrightarrow>
      s = QualifiedService_display q \<and> CHR ''.'' \<notin> set (name q)) \<and>
   (QualifiedService_parse s = Inl e \<longleftrightarrow>
      e = FailedParseQualifiedService s \<and> CHR ''.'' \<notin> set s)"
  by (simp add: QualifiedService_parse_Inr QualifiedService_parse_Inl)

text \<open>Parsing a field reference never fails; its components, joined by dots, give back the text,
  hold no dot themselves, and there is one more of them than dots.\<close>

theorem FieldRef_parse_components:
  "\<exists>r. FieldRef_parse s = Inr r
     \<and> join_with ''.'' (map PathComponent_text (components r)) = s
     \<and> list_all (\<lambda>c. CHR ''.'' \<notin> set (PathComponent_text c)) (components r)
     \<and> length (components r) = Suc (count_list s CHR ''.'')"
proof -
  have "map PathComponent_text (map Field ps) = ps" for ps by (induction ps) auto
  then show ?thesis
    by (auto simp: FieldRef_parse_def join_split_on length_split_on list_all_iff
        dest: split_on_pieces)
qed

end
