(* ===== verification/Health.thy ===== *)
theory Health
  imports Prelude
begin

text \<open>
  The readiness tracker of \<open>grcache-shared/src/health.rs\<close>: a shared counter of endpoints that still
  block readiness, a watched flag, and one atomic flag per endpoint. The first part gives the
  operations as the code calls them, the second the interleavings of their atomic accesses
  (\<open>swap\<close>, \<open>fetch_sub\<close>, \<open>send_if_modified\<close>) from any number of threads, under sequential
  consistency. The lemmas show that readiness is never signalled while an endpoint that was
  registered before the signal still blocks, that the signal cannot be lost, and that watchers are
  notified once.
\<close>

section \<open>State and operations\<close>

record State =
  ready_blocks :: u64
  ready :: bool
  notified :: nat \<comment> \<open>how often \<open>send_if_modified\<close> woke the watchers\<close>

definition Health_new :: "State \<times> bool" where
  "Health_new = (\<lparr>ready_blocks = 1, ready = False, notified = 0\<rparr>, True)"

text \<open>\<open>Health::add\<close> returns the new endpoint's \<open>can_indicate_ready\<close> flag.\<close>

definition Health_add :: "bool \<Rightarrow> State \<Rightarrow> State \<times> bool" where
  "Health_add blocks_ready st =
     (if blocks_ready then st\<lparr>ready_blocks := ready_blocks st + 1\<rparr> else st, blocks_ready)"

definition send_ready :: "State \<Rightarrow> State" where
  "send_ready st = st\<lparr>ready := True, notified := notified st + (if ready st then 0 else 1)\<rparr>"

text \<open>\<open>HealthEndpoint::ready\<close> on the endpoint's flag and the shared state.\<close>

definition HealthEndpoint_ready :: "bool \<Rightarrow> State \<Rightarrow> bool \<times> State" where
  "HealthEndpoint_ready can_indicate_ready st =
     (if can_indicate_ready then
        let before_count = ready_blocks st;
            st' = st\<lparr>ready_blocks := ready_blocks st - 1\<rparr>
        in (False, if before_count = 1 then send_ready st' else st')
      else (False, st))"

text \<open>\<open>Drop for HealthEndpoint\<close> indicates readiness; the endpoint itself is gone.\<close>

definition HealthEndpoint_drop :: "bool \<Rightarrow> State \<Rightarrow> State" where
  "HealthEndpoint_drop can_indicate_ready st = snd (HealthEndpoint_ready can_indicate_ready st)"

text \<open>\<open>HealthEndpoint::health\<close> gives a handle on the shared state, to which endpoints can be added, and
  \<open>HealthEndpoint::name\<close> does nothing.\<close>

definition HealthEndpoint_health :: "bool \<times> State \<Rightarrow> State" where
  "HealthEndpoint_health ep = snd ep"

definition HealthEndpoint_name :: "string \<Rightarrow> bool \<times> State \<Rightarrow> bool \<times> State" where
  "HealthEndpoint_name nm ep = ep"

section \<open>Interleavings of the atomic accesses\<close>

text \<open>A call of \<open>ready\<close> that won the swap stands before the \<open>fetch_sub\<close>, then possibly before the
  \<open>send_if_modified\<close>. Endpoints are numbered in the order they were created.\<close>

datatype ready_pc = AtFetchSub | AtSend | CallDone

record world =
  shared :: State
  endpoints :: "bool list"
  calls :: "ready_pc list"

definition world_new :: world where
  "world_new = \<lparr>shared = fst Health_new, endpoints = [snd Health_new], calls = []\<rparr>"

inductive health_step :: "world \<Rightarrow> world \<Rightarrow> bool" where
  add: "Health_add b (shared w) = (st, flag) \<Longrightarrow>
     health_step w (w\<lparr>shared := st, endpoints := endpoints w @ [flag]\<rparr>)"
| swap_set: "i < length (endpoints w) \<Longrightarrow> endpoints w ! i \<Longrightarrow>
     health_step w (w\<lparr>endpoints := (endpoints w)[i := False], calls := calls w @ [AtFetchSub]\<rparr>)"
| swap_unset: "i < length (endpoints w) \<Longrightarrow> \<not> endpoints w ! i \<Longrightarrow> health_step w w"
| fetch_sub: "j < length (calls w) \<Longrightarrow> calls w ! j = AtFetchSub \<Longrightarrow>
     health_step w (w\<lparr>shared := (shared w)\<lparr>ready_blocks := ready_blocks (shared w) - 1\<rparr>,
       calls := (calls w)[j := if ready_blocks (shared w) = 1 then AtSend else CallDone]\<rparr>)"
| send: "j < length (calls w) \<Longrightarrow> calls w ! j = AtSend \<Longrightarrow>
     health_step w (w\<lparr>shared := send_ready (shared w), calls := (calls w)[j := CallDone]\<rparr>)"

inductive_cases health_stepE: "health_step w w'"

section \<open>The invariant\<close>

definition blockers :: "world \<Rightarrow> nat" where
  "blockers w = count_list (endpoints w) True + count_list (calls w) AtFetchSub"

definition health_core :: "world \<Rightarrow> bool" where
  "health_core w \<longleftrightarrow>
     blockers w \<le> length (endpoints w)
     \<and> ready_blocks (shared w) = of_nat (blockers w)
     \<and> (blockers w = 0 \<longrightarrow> ready (shared w) \<or> AtSend \<in> set (calls w))
     \<and> notified (shared w) = (if ready (shared w) then 1 else 0)"

text \<open>The counter is a \<open>u64\<close>; the invariant speaks of worlds with fewer endpoints than it counts.\<close>

definition health_invar :: "world \<Rightarrow> bool" where
  "health_invar w \<longleftrightarrow> (length (endpoints w) < 2 ^ 64 \<longrightarrow> health_core w)"

lemma count_list_update:
  "i < length xs \<Longrightarrow>
     count_list (xs[i := y]) x + (if xs ! i = x then 1 else 0)
       = count_list xs x + (if y = x then 1 else 0)"
  using length_filter_update [of i xs "(=) x" y]
  by (auto simp: count_list_eq_length_filter split: if_splits)

lemma count_list_pos: "i < length xs \<Longrightarrow> xs ! i = x \<Longrightarrow> 0 < count_list xs x"
  by (metis count_list_0_iff gr0I nth_mem)

lemma of_nat_u64_eq_1: "n < 2 ^ 64 \<Longrightarrow> (of_nat n :: u64) = 1 \<longleftrightarrow> n = 1"
  using unat_of_nat_u64 [of n] by (metis of_nat_1 unsigned_1)

lemma blockers_swap_set:
  assumes "i < length (endpoints w)" and "endpoints w ! i"
  shows "blockers (w\<lparr>endpoints := (endpoints w)[i := False], calls := calls w @ [AtFetchSub]\<rparr>)
    = blockers w"
  using count_list_update [OF assms(1), of False True] assms(2) by (simp add: blockers_def)

lemma blockers_fetch_sub:
  assumes "j < length (calls w)" and "calls w ! j = AtFetchSub" and "pc \<noteq> AtFetchSub"
  shows "Suc (blockers (w\<lparr>shared := st, calls := (calls w)[j := pc]\<rparr>)) = blockers w"
  using count_list_update [OF assms(1), of pc AtFetchSub] assms(2,3) by (simp add: blockers_def)

lemma blockers_send:
  assumes "j < length (calls w)" and "calls w ! j = AtSend"
  shows "blockers (w\<lparr>shared := st, calls := (calls w)[j := CallDone]\<rparr>) = blockers w"
  using count_list_update [OF assms(1), of CallDone AtFetchSub] assms(2) by (simp add: blockers_def)

lemma health_core_step:
  assumes core: "health_core w" and "health_step w w'" and len: "length (endpoints w') < 2 ^ 64"
  shows "health_core w'"
  using assms(2)
proof cases
  case (add b st flag)
  then show ?thesis
    using core by (auto simp: health_core_def blockers_def Health_add_def split: if_splits)
next
  case (swap_set i)
  then show ?thesis
    using core blockers_swap_set [OF swap_set(2,3)] by (simp add: health_core_def)
next
  case (swap_unset i)
  then show ?thesis using core by simp
next
  case (fetch_sub j)
  let ?pc = "if ready_blocks (shared w) = 1 then AtSend else CallDone"
  have b: "Suc (blockers w') = blockers w"
    unfolding fetch_sub(1) by (rule blockers_fetch_sub [OF fetch_sub(2,3)]) simp
  have l: "blockers w < 2 ^ 64"
    using core len fetch_sub(1) by (simp add: health_core_def)
  have "ready_blocks (shared w) = 1 \<longleftrightarrow> blockers w = 1"
    using core of_nat_u64_eq_1 [OF l] by (simp add: health_core_def)
  moreover have "ready_blocks (shared w) - 1 = of_nat (blockers w')"
    using core unfolding health_core_def b [symmetric] by simp
  moreover have "AtSend \<in> set ((calls w)[j := AtSend])"
    using fetch_sub(2) by (simp add: set_update_memI)
  ultimately show ?thesis
    using core b fetch_sub(1) by (auto simp: health_core_def)
next
  case (send j)
  then show ?thesis
    using core blockers_send [OF send(2,3)] by (simp add: health_core_def send_ready_def)
qed

lemma health_step_length: "health_step w w' \<Longrightarrow> length (endpoints w) \<le> length (endpoints w')"
  by (auto elim!: health_stepE)

lemma endpoints_grow: "health_step\<^sup>*\<^sup>* w w' \<Longrightarrow> length (endpoints w) \<le> length (endpoints w')"
  by (induction rule: rtranclp_induct) (auto dest: health_step_length)

interpretation hs: invariant_system "\<lambda>w. w = world_new" health_step health_invar
proof
  fix w :: world
  assume "w = world_new"
  then show "health_invar w"
    by (simp add: health_invar_def health_core_def blockers_def world_new_def Health_new_def)
next
  fix w w'
  assume "health_invar w" and "health_step w w'"
  then show "health_invar w'"
    using health_core_step health_step_length [of w w'] by (auto simp: health_invar_def)
qed

section \<open>Uninterrupted calls are runs of atomic steps\<close>

text \<open>The world after a call of \<open>ready\<close> on endpoint \<open>i\<close> that no other thread interrupts.\<close>

definition world_ready :: "nat \<Rightarrow> world \<Rightarrow> world" where
  "world_ready i w =
     (let (flag, st) = HealthEndpoint_ready (endpoints w ! i) (shared w)
      in w\<lparr>endpoints := (endpoints w)[i := flag], shared := st,
           calls := calls w @ (if endpoints w ! i then [CallDone] else [])\<rparr>)"

definition world_add :: "bool \<Rightarrow> world \<Rightarrow> world" where
  "world_add b w =
     (let (st, flag) = Health_add b (shared w)
      in w\<lparr>shared := st, endpoints := endpoints w @ [flag]\<rparr>)"

lemma world_add_step: "health_step w (world_add b w)"
  by (cases "Health_add b (shared w)") (auto simp: world_add_def intro: health_step.add)

lemma world_ready_run:
  assumes i: "i < length (endpoints w)"
  shows "health_step\<^sup>*\<^sup>* w (world_ready i w)"
proof (cases "endpoints w ! i")
  case False
  then have "world_ready i w = w"
    using list_update_id [of "endpoints w" i] by (simp add: world_ready_def HealthEndpoint_ready_def)
  then show ?thesis by simp
next
  case True
  let ?w1 = "w\<lparr>endpoints := (endpoints w)[i := False], calls := calls w @ [AtFetchSub]\<rparr>"
  let ?pc = "if ready_blocks (shared w) = 1 then AtSend else CallDone"
  let ?w2 = "?w1\<lparr>shared := (shared w)\<lparr>ready_blocks := ready_blocks (shared w) - 1\<rparr>,
    calls := calls w @ [?pc]\<rparr>"
  have s1: "health_step w ?w1" using i True by (rule health_step.swap_set)
  have s2: "health_step ?w1 ?w2"
    using health_step.fetch_sub [of "length (calls w)" ?w1] by simp
  show ?thesis
  proof (cases "ready_blocks (shared w) = 1")
    case last: True
    have "health_step ?w2 (world_ready i w)"
      using health_step.send [of "length (calls w)" ?w2] True last
      by (simp add: world_ready_def HealthEndpoint_ready_def)
    with s1 s2 show ?thesis by (meson converse_rtranclp_into_rtranclp r_into_rtranclp)
  next
    case False
    then have "world_ready i w = ?w2"
      using True by (simp add: world_ready_def HealthEndpoint_ready_def)
    with s1 s2 show ?thesis by (metis converse_rtranclp_into_rtranclp r_into_rtranclp)
  qed
qed

section \<open>Properties\<close>

lemma ready_when_quiet:
  assumes "health_step\<^sup>*\<^sup>* world_new w" and "length (endpoints w) < 2 ^ 64"
    and "True \<notin> set (endpoints w)" and "set (calls w) \<subseteq> {CallDone}"
  shows "ready (shared w) \<and> notified (shared w) = 1"
proof -
  have core: "health_core w"
    using hs.invar_reachable [OF refl assms(1)] assms(2) by (simp add: health_invar_def)
  have "blockers w = 0" and "AtSend \<notin> set (calls w)"
    using assms(3,4) by (auto simp: blockers_def count_list_0_iff)
  with core show ?thesis by (auto simp: health_core_def)
qed

text \<open>C7. The readiness signal is not lost: in every interleaving, once no endpoint blocks and no
  call of \<open>ready\<close> is between its atomic accesses, the flag is set and the watchers were woken
  exactly once.\<close>

theorem readiness_not_lost:
  assumes "health_step\<^sup>*\<^sup>* world_new w" and "length (endpoints w) < 2 ^ 64"
    and "True \<notin> set (endpoints w)" and "set (calls w) \<subseteq> {CallDone}"
  shows "ready (shared w) \<and> notified (shared w) = 1"
  by (rule ready_when_quiet [OF assms])

theorem readiness_not_lost_witness:
  "ready (shared (world_ready 0 world_new)) \<and> notified (shared (world_ready 0 world_new)) = 1"
proof -
  let ?w = "world_ready 0 world_new"
  have "health_step\<^sup>*\<^sup>* world_new ?w" by (rule world_ready_run) (simp add: world_new_def)
  moreover have "endpoints ?w = [False]" "calls ?w = [CallDone]"
    by (simp_all add: world_ready_def world_new_def Health_new_def HealthEndpoint_ready_def)
  ultimately show ?thesis using readiness_not_lost [of ?w] by simp
qed

text \<open>Nothing was signalled yet, and no call is about to signal.\<close>

definition unsignalled :: "world \<Rightarrow> bool" where
  "unsignalled w \<longleftrightarrow> \<not> ready (shared w) \<and> AtSend \<notin> set (calls w)"

definition armed :: "nat \<Rightarrow> world \<Rightarrow> bool" where
  "armed i w \<longleftrightarrow> i < length (endpoints w) \<and> endpoints w ! i"

lemma not_rearmed:
  "health_step u v \<Longrightarrow> armed i v \<Longrightarrow> i < length (endpoints u) \<Longrightarrow> armed i u"
  by (auto elim!: health_stepE simp: armed_def nth_append nth_list_update split: if_splits)

lemma armed_blocks: "armed i w \<Longrightarrow> 0 < count_list (endpoints w) True"
  by (auto simp: armed_def intro: count_list_pos)

lemma unsignalled_step:
  assumes core: "health_core u" and "health_step u v" and "unsignalled u" and "armed i u"
    and len: "length (endpoints u) < 2 ^ 64"
  shows "unsignalled v"
  using assms(2)
proof cases
  case (fetch_sub j)
  have "blockers u \<noteq> 1"
    using armed_blocks [OF assms(4)] count_list_pos [OF fetch_sub(2,3)] by (simp add: blockers_def)
  then have "ready_blocks (shared u) \<noteq> 1"
    using core len of_nat_u64_eq_1 [of "blockers u"] by (simp add: health_core_def)
  then show ?thesis
    using assms(3) fetch_sub set_update_subset_insert [of "calls u" j CallDone]
    by (auto simp: unsignalled_def)
next
  case (send j)
  then have "AtSend \<in> set (calls u)" using nth_mem by fastforce
  with assms(3) show ?thesis by (simp add: unsignalled_def)
qed (use assms(3) in \<open>auto simp: unsignalled_def Health_add_def split: if_splits\<close>)

lemma unsignalled_while_armed:
  assumes "health_step\<^sup>*\<^sup>* world_new w" and run: "health_step\<^sup>*\<^sup>* w w'"
    and "unsignalled w" and "armed i w" and "armed i w'" and "length (endpoints w') < 2 ^ 64"
  shows "unsignalled w'"
proof -
  let ?C = "\<lambda>u. length (endpoints u) < 2 ^ 64 \<and> (i < length (endpoints u) \<longrightarrow> armed i u)"
  have "unsignalled w' \<and> i < length (endpoints w')"
  proof (rule hs.run_while [OF run, where C = ?C])
    show "health_invar w" using hs.invar_reachable [OF refl assms(1)] .
    show "unsignalled w \<and> i < length (endpoints w)" using assms(3,4) by (simp add: armed_def)
    show "?C w'" using assms(5,6) by simp
  next
    fix u v
    assume "health_step u v" and "?C v"
    then show "?C u"
      using not_rearmed [of u v i] health_step_length [of u v] by auto
  next
    fix u v
    assume "health_invar u" "health_step u v" "?C u"
      and "unsignalled u \<and> i < length (endpoints u)"
    then show "unsignalled v \<and> i < length (endpoints v)"
      using unsignalled_step [of u v i] health_step_length [of u v]
      by (auto simp: health_invar_def)
  qed
  then show ?thesis by simp
qed

lemma unready_while_armed:
  assumes "health_step\<^sup>*\<^sup>* world_new w" and "health_step\<^sup>*\<^sup>* w w'"
    and "unsignalled w" and "armed i w" and "armed i w'" and "length (endpoints w') < 2 ^ 64"
  shows "\<not> ready (shared w')"
  using unsignalled_while_armed [OF assms] by (simp add: unsignalled_def)

text \<open>While the root endpoint blocks, no call has brought the counter to zero.\<close>

lemma root_unsignalled:
  assumes "health_step\<^sup>*\<^sup>* world_new w" and "armed 0 w" and "length (endpoints w) < 2 ^ 64"
  shows "unsignalled w"
proof (rule unsignalled_while_armed [OF rtranclp.rtrancl_refl assms(1) _ _ assms(2,3)])
  show "unsignalled world_new" "armed 0 world_new"
    by (simp_all add: unsignalled_def armed_def world_new_def Health_new_def)
qed

text \<open>An endpoint that is added after the last one reported, but before that call signals, is not waited for:
  \<open>Health::add\<close> only logs a warning then.\<close>

lemma late_endpoint_not_awaited:
  "\<exists>w w'. health_step\<^sup>*\<^sup>* world_new w \<and> armed 1 w \<and> \<not> ready (shared w) \<and> health_step w w' \<and> armed 1 w' \<and> ready (shared w')"
proof -
  let ?w1 = "world_new\<lparr>endpoints := [False], calls := [AtFetchSub]\<rparr>"
  let ?w2 = "?w1\<lparr>shared := (fst Health_new)\<lparr>ready_blocks := 0\<rparr>, calls := [AtSend]\<rparr>"
  let ?w3 = "world_add True ?w2"
  have "health_step world_new ?w1"
    using swap_set [of 0 world_new] by (simp add: world_new_def Health_new_def)
  moreover have "health_step ?w1 ?w2" using fetch_sub [of 0 ?w1] by (simp add: world_new_def Health_new_def)
  moreover have "health_step ?w2 ?w3" by (rule world_add_step)
  moreover have "health_step ?w3 (?w3\<lparr>shared := send_ready (shared ?w3), calls := [CallDone]\<rparr>)"
    using send [of 0 ?w3] by (simp add: world_add_def Health_add_def)
  ultimately show ?thesis
    by (intro exI [of _ ?w3] exI [of _ "?w3\<lparr>shared := send_ready (shared ?w3), calls := [CallDone]\<rparr>"])
      (auto simp: armed_def world_add_def Health_add_def Health_new_def send_ready_def world_new_def
        intro: rtranclp.rtrancl_into_rtrancl)
qed

text \<open>C8. Readiness is not signalled early: consider an endpoint \<open>i\<close> that blocks in a reachable world in which no call
  has yet found itself the last one; this is the case as long as the root endpoint blocks, before which
  the documentation expects endpoints to be added. From there on, whatever threads do, the flag stays unset as
  long as \<open>i\<close> still blocks. An endpoint added later may be passed over (\<open>late_endpoint_not_awaited\<close>).\<close>

theorem readiness_not_early:
  assumes "health_step\<^sup>*\<^sup>* world_new w" and "health_step\<^sup>*\<^sup>* w w'"
    and "unsignalled w \<or> armed 0 w" and "armed i w" and "armed i w'" and "length (endpoints w') < 2 ^ 64"
  shows "\<not> ready (shared w')"
proof -
  have "length (endpoints w) < 2 ^ 64" using endpoints_grow [OF assms(2)] assms(6) by simp
  then have "unsignalled w" using assms(3) root_unsignalled [OF assms(1)] by blast
  with assms show ?thesis by (intro unready_while_armed)
qed

theorem readiness_not_early_witness:
  "armed 0 (world_ready 1 (world_add True world_new))
   \<and> \<not> ready (shared (world_ready 1 (world_add True world_new)))"
proof -
  let ?w = "world_add True world_new" and ?w' = "world_ready 1 (world_add True world_new)"
  have e: "endpoints ?w = [True, True]" "endpoints ?w' = [True, False]" "calls ?w = []"
    "\<not> ready (shared ?w)"
    by (simp_all add: world_add_def world_new_def Health_new_def Health_add_def world_ready_def
        HealthEndpoint_ready_def)
  have "armed 0 ?w" "armed 0 ?w'" "unsignalled ?w" "length (endpoints ?w') < 2 ^ 64"
    using e by (simp_all add: armed_def unsignalled_def)
  moreover have "health_step\<^sup>*\<^sup>* world_new ?w" by (rule r_into_rtranclp) (rule world_add_step)
  moreover have "health_step\<^sup>*\<^sup>* ?w ?w'" by (rule world_ready_run) (simp add: e)
  ultimately show ?thesis using readiness_not_early [of ?w ?w' 0] by blast
qed

text \<open>A call of \<open>HealthEndpoint::ready\<close> is idempotent, as its documentation says, whatever happened
  to the shared state in between, and a call nobody interrupts is one of the runs of the atomic
  accesses.\<close>

theorem ready_idempotent_and_atomic_run:
  "HealthEndpoint_ready (fst (HealthEndpoint_ready flag st)) st' = (False, st')
   \<and> health_step\<^sup>*\<^sup>* \<lparr>shared = st, endpoints = xs @ flag # ys, calls = cs\<rparr>
       \<lparr>shared = HealthEndpoint_drop flag st, endpoints = xs @ False # ys,
        calls = cs @ (if flag then [CallDone] else [])\<rparr>"
proof
  show "HealthEndpoint_ready (fst (HealthEndpoint_ready flag st)) st' = (False, st')"
    by (simp add: HealthEndpoint_ready_def Let_def)
next
  let ?w = "\<lparr>shared = st, endpoints = xs @ flag # ys, calls = cs\<rparr>"
  have "health_step\<^sup>*\<^sup>* ?w (world_ready (length xs) ?w)" by (rule world_ready_run) simp
  then show "health_step\<^sup>*\<^sup>* ?w
       \<lparr>shared = HealthEndpoint_drop flag st, endpoints = xs @ False # ys,
        calls = cs @ (if flag then [CallDone] else [])\<rparr>"
    by (simp add: world_ready_def HealthEndpoint_drop_def HealthEndpoint_ready_def Let_def
        split: if_splits)
qed

end
