(* ===== verification/Resource_Change.thy ===== *)
theory Resource_Change
  imports Prelude
begin

text \<open>
  \<open>grcache-shared/src/resource_change.rs\<close>: the stream adapter that turns the events of a Kubernetes
  watcher, with its restarts and relists, into \<open>Apply\<close>/\<open>Delete\<close>/\<open>Ready\<close> changes. The resource
  type is generic in the code; its two trait methods that the code calls, \<open>to_object_ref\<close> and
  \<open>resource_version\<close>, are the parameters \<open>key\<close> and \<open>rv\<close> of the model. The main result is a
  refinement: whoever replays the emitted changes holds exactly the objects that the watcher's
  protocol says exist. The locale at the end is the interface of such a consumer.
\<close>

section \<open>Events, changes and the adapter's state\<close>

text \<open>\<open>watcher::Event\<close> of the kube crate, with its variants.\<close>

datatype 'k Event = Init | InitApply 'k | InitDone | EApply 'k | EDelete 'k

datatype ('k, 'r) ResourceChange = Ready | Apply 'k | Delete 'r

record 'r changes_state =
  objects :: "'r \<rightharpoonup> string"
  init_present :: "'r set"

definition changes_init :: "'r changes_state" where
  "changes_init = \<lparr>objects = Map.empty, init_present = {}\<rparr>"

definition make_key :: "('k \<Rightarrow> 'r) \<Rightarrow> 'k \<Rightarrow> 'r" where
  "make_key to_object_ref resource = to_object_ref resource"

text \<open>The \<open>match objects.entry(key)\<close> of both apply branches.\<close>

definition apply_entry ::
    "'r \<Rightarrow> string \<Rightarrow> 'k \<Rightarrow> ('r \<rightharpoonup> string) \<Rightarrow> ('k, 'r) ResourceChange list \<times> ('r \<rightharpoonup> string)" where
  "apply_entry key ver r objs =
     (case objs key of
        Some old \<Rightarrow> if old \<noteq> ver then ([Apply r], objs(key \<mapsto> ver)) else ([], objs)
      | None \<Rightarrow> ([Apply r], objs(key \<mapsto> ver)))"

text \<open>One turn of the \<open>while let\<close> loop: the changes it yields and the next state. \<open>ord\<close> enumerates the
  keys of \<open>objects\<close> in the order in which \<open>retain\<close> visits them.\<close>

definition changes_step ::
    "('k \<Rightarrow> 'r) \<Rightarrow> ('k \<Rightarrow> string option) \<Rightarrow> ('r set \<Rightarrow> 'r list) \<Rightarrow> 'e + 'k Event \<Rightarrow> 'r changes_state
      \<Rightarrow> (('e + ('k, 'r) ResourceChange) list \<times> 'r changes_state) outcome" where
  "changes_step to_ref rv ord event st =
     (case event of
        Inr Init \<Rightarrow> Returns ([], st\<lparr>init_present := {}\<rparr>)
      | Inr (InitApply r) \<Rightarrow>
          (let key = make_key to_ref r in
           bind_outcome (unwrap (rv r)) (\<lambda>ver.
             let (out, objs) = apply_entry key ver r (objects st)
             in Returns (map Inr out,
                  st\<lparr>init_present := insert key (init_present st), objects := objs\<rparr>)))
      | Inr InitDone \<Rightarrow>
          (let removed = filter (\<lambda>k. k \<notin> init_present st) (ord (dom (objects st)))
           in Returns (map (\<lambda>k. Inr (Delete k)) removed @ [Inr Ready],
                st\<lparr>objects := objects st |` init_present st, init_present := {}\<rparr>))
      | Inr (EApply r) \<Rightarrow>
          (let key = make_key to_ref r in
           bind_outcome (unwrap (rv r)) (\<lambda>ver.
             let (out, objs) = apply_entry key ver r (objects st)
             in Returns (map Inr out, st\<lparr>objects := objs\<rparr>)))
      | Inr (EDelete r) \<Rightarrow>
          (let key = make_key to_ref r
           in Returns ([Inr (Delete key)], st\<lparr>objects := (objects st)(key := None)\<rparr>))
      | Inl err \<Rightarrow> Returns ([Inl err], st))"

text \<open>The whole stream, each event with the hash order of its turn.\<close>

fun resource_changes ::
    "('k \<Rightarrow> 'r) \<Rightarrow> ('k \<Rightarrow> string option) \<Rightarrow> (('r set \<Rightarrow> 'r list) \<times> ('e + 'k Event)) list \<Rightarrow> 'r changes_state
      \<Rightarrow> (('e + ('k, 'r) ResourceChange) list \<times> 'r changes_state) outcome" where
  "resource_changes to_ref rv [] st = Returns ([], st)"
| "resource_changes to_ref rv ((ord, ev) # evs) st =
     bind_outcome (changes_step to_ref rv ord ev st) (\<lambda>(out, st').
       bind_outcome (resource_changes to_ref rv evs st') (\<lambda>(outs, st''). Returns (out @ outs, st'')))"

section \<open>The watcher's protocol and its store\<close>

text \<open>What the kube documentation of \<open>watcher::Event\<close> promises: \<open>Init\<close> starts a list of \<open>InitApply\<close>
  events, \<open>InitDone\<close> ends it and replaces everything known before by what was listed; outside a
  list, \<open>Apply\<close> and \<open>Delete\<close> change single objects. An error ends nothing by itself: a list that
  failed is started again with \<open>Init\<close>.\<close>

record ('k, 'r) store =
  known :: "'r \<rightharpoonup> 'k"
  buffer :: "'r \<rightharpoonup> 'k"
  listing :: bool

definition store_init :: "('k, 'r) store" where
  "store_init = \<lparr>known = Map.empty, buffer = Map.empty, listing = False\<rparr>"

fun store_step :: "('k \<Rightarrow> 'r) \<Rightarrow> 'e + 'k Event \<Rightarrow> ('k, 'r) store \<Rightarrow> ('k, 'r) store" where
  "store_step key (Inr Init) s = s\<lparr>buffer := Map.empty, listing := True\<rparr>"
| "store_step key (Inr (InitApply r)) s = s\<lparr>buffer := (buffer s)(key r \<mapsto> r)\<rparr>"
| "store_step key (Inr InitDone) s = s\<lparr>known := buffer s, listing := False\<rparr>"
| "store_step key (Inr (EApply r)) s = s\<lparr>known := (known s)(key r \<mapsto> r)\<rparr>"
| "store_step key (Inr (EDelete r)) s = s\<lparr>known := (known s)(key r := None)\<rparr>"
| "store_step key (Inl e) s = s"

fun store_run :: "('k \<Rightarrow> 'r) \<Rightarrow> ('e + 'k Event) list \<Rightarrow> ('k, 'r) store \<Rightarrow> ('k, 'r) store" where
  "store_run key [] s = s"
| "store_run key (e # es) s = store_run key es (store_step key e s)"

fun event_allowed :: "bool \<Rightarrow> 'e + 'k Event \<Rightarrow> bool" where
  "event_allowed l (Inr (InitApply r)) = l"
| "event_allowed l (Inr InitDone) = l"
| "event_allowed l (Inr (EApply r)) = (\<not> l)"
| "event_allowed l (Inr (EDelete r)) = (\<not> l)"
| "event_allowed l _ = True"

fun listing_after :: "bool \<Rightarrow> 'e + 'k Event \<Rightarrow> bool" where
  "listing_after l (Inr Init) = True"
| "listing_after l (Inr InitDone) = False"
| "listing_after l _ = l"

fun protocol :: "bool \<Rightarrow> ('e + 'k Event) list \<Rightarrow> bool" where
  "protocol l [] = True"
| "protocol l (e # es) = (event_allowed l e \<and> protocol (listing_after l e) es)"

fun event_objects :: "'e + 'k Event \<Rightarrow> 'k set" where
  "event_objects (Inr (InitApply r)) = {r}"
| "event_objects (Inr (EApply r)) = {r}"
| "event_objects _ = {}"

definition stream_objects :: "('e + 'k Event) list \<Rightarrow> 'k set" where
  "stream_objects es = (\<Union>e \<in> set es. event_objects e)"

text \<open>Kubernetes changes an object's resource version with every change to the object.\<close>

definition versions_identify :: "('k \<Rightarrow> 'r) \<Rightarrow> ('k \<Rightarrow> string option) \<Rightarrow> 'k set \<Rightarrow> bool" where
  "versions_identify key rv S \<longleftrightarrow>
     (\<forall>r \<in> S. \<forall>r' \<in> S. key r = key r' \<and> rv r = rv r' \<longrightarrow> r = r')"

definition hash_order :: "('r set \<Rightarrow> 'r list) \<Rightarrow> bool" where
  "hash_order ord \<longleftrightarrow> (\<forall>S. finite S \<longrightarrow> enumerates (ord S) S)"

section \<open>Replaying changes\<close>

fun replay_change :: "('k \<Rightarrow> 'r) \<Rightarrow> 'e + ('k, 'r) ResourceChange \<Rightarrow> ('r \<rightharpoonup> 'k) \<Rightarrow> ('r \<rightharpoonup> 'k)" where
  "replay_change key (Inr (Apply r)) m = m(key r \<mapsto> r)"
| "replay_change key (Inr (Delete k)) m = m(k := None)"
| "replay_change key (Inr Ready) m = m"
| "replay_change key (Inl e) m = m"

fun replay :: "('k \<Rightarrow> 'r) \<Rightarrow> ('e + ('k, 'r) ResourceChange) list \<Rightarrow> ('r \<rightharpoonup> 'k) \<Rightarrow> ('r \<rightharpoonup> 'k)" where
  "replay key [] m = m"
| "replay key (c # cs) m = replay key cs (replay_change key c m)"

lemma replay_append [simp]: "replay key (xs @ ys) m = replay key ys (replay key xs m)"
  by (induction xs arbitrary: m) auto

lemma replay_deletes:
  "replay key (map (\<lambda>k. Inr (Delete k)) ks) m = m |` (- set ks)"
  by (induction ks arbitrary: m) (auto simp: restrict_map_def fun_eq_iff)

section \<open>The simulation\<close>

text \<open>The adapter's version table is the replica's, and the replica is the watcher's store, except
  during a list, when it agrees with what was listed so far.\<close>

definition table_of :: "('k \<Rightarrow> 'r) \<Rightarrow> ('k \<Rightarrow> string option) \<Rightarrow> 'k set \<Rightarrow> ('r \<rightharpoonup> 'k) \<Rightarrow> ('r \<rightharpoonup> string) \<Rightarrow> bool" where
  "table_of key rv S m objs \<longleftrightarrow>
     finite (dom m) \<and> objs = (\<lambda>k. Option.bind (m k) rv)
     \<and> (\<forall>k r. m k = Some r \<longrightarrow> key r = k \<and> r \<in> S \<and> rv r \<noteq> None)"

definition mirrors :: "('k \<Rightarrow> 'r) \<Rightarrow> ('k \<Rightarrow> string option) \<Rightarrow> 'k set \<Rightarrow> 'r changes_state \<Rightarrow> ('r \<rightharpoonup> 'k)
    \<Rightarrow> ('k, 'r) store \<Rightarrow> bool" where
  "mirrors key rv S st m s \<longleftrightarrow>
     table_of key rv S m (objects st)
     \<and> (if listing s then init_present st = dom (buffer s) \<and> m |` dom (buffer s) = buffer s
        else m = known s)"

lemma table_of_dom: "table_of key rv S m objs \<Longrightarrow> dom objs = dom m"
  by (auto simp: table_of_def bind_eq_Some_conv dom_def)

lemma table_of_restrict: "table_of key rv S m objs \<Longrightarrow> table_of key rv S (m |` A) (objs |` A)"
  by (auto simp: table_of_def restrict_map_def fun_eq_iff elim!: rev_finite_subset split: if_splits)

lemma table_of_delete:
  "table_of key rv S m objs \<Longrightarrow> table_of key rv S (m(k := None)) (objs(k := None))"
  by (auto simp: table_of_def fun_eq_iff)

lemma table_of_apply:
  assumes "table_of key rv S m objs" and "r \<in> S" and "rv r = Some ver"
  shows "table_of key rv S (m(key r \<mapsto> r)) (objs(key r \<mapsto> ver))"
  using assms by (auto simp: table_of_def fun_eq_iff)

lemma apply_entry_mirrors:
  assumes t: "table_of key rv S m objs" and r: "r \<in> S" "rv r = Some ver"
    and v: "versions_identify key rv S" and e: "apply_entry (key r) ver r objs = (out, objs')"
  shows "replay key (map Inr out) m = m(key r \<mapsto> r) \<and> objs' = objs(key r \<mapsto> ver)"
proof (cases "objs (key r) = Some ver")
  case True
  then obtain r' where r': "m (key r) = Some r'" "rv r' = Some ver"
    using t by (auto simp: table_of_def bind_eq_Some_conv)
  then have "key r' = key r" "r' \<in> S" using t by (auto simp: table_of_def)
  with v r r' have "r' = r" by (auto simp: versions_identify_def)
  with True e r' show ?thesis by (auto simp: apply_entry_def fun_upd_idem)
next
  case False
  with e show ?thesis by (auto simp: apply_entry_def split: option.splits)
qed

lemma restrict_upd_agree: "m |` dom b = b \<Longrightarrow> (m |` (dom b - {k}))(k \<mapsto> v) = b(k \<mapsto> v)"
  by (metis fun_upd_restrict fun_upd_upd)

lemma apply_entry_table:
  assumes t: "table_of key rv S m objs" and r: "r \<in> S" and "\<forall>r \<in> S. rv r \<noteq> None" and v: "versions_identify key rv S"
  shows "\<exists>ver out objs'. rv r = Some ver \<and> apply_entry (key r) ver r objs = (out, objs')
    \<and> replay key (map Inr out :: ('e + ('k, 'r) ResourceChange) list) m = m(key r \<mapsto> r)
    \<and> table_of key rv S (m(key r \<mapsto> r)) objs'"
proof -
  obtain ver where ver: "rv r = Some ver" using assms(2,3) by auto
  obtain out objs' where e: "apply_entry (key r) ver r objs = (out, objs')" by force
  have "replay key (map Inr out :: ('e + ('k, 'r) ResourceChange) list) m = m(key r \<mapsto> r)"
    and "objs' = objs(key r \<mapsto> ver)"
    using apply_entry_mirrors [OF t r ver v e] by blast+
  with table_of_apply [OF t r ver] ver e show ?thesis by blast
qed

lemma retained:
  assumes t: "table_of key rv S m objs" and "hash_order ord"
  shows "m |` (- set (filter (\<lambda>k. k \<notin> P) (ord (dom objs)))) = m |` P"
proof -
  have "finite (dom objs)" using table_of_dom [OF t] t by (simp add: table_of_def)
  then have "set (ord (dom objs)) = dom m"
    using assms(2) table_of_dom [OF t] by (auto simp: hash_order_def enumerates_def)
  then show ?thesis by (auto simp: restrict_map_def fun_eq_iff domIff)
qed

lemma changes_step_mirrors:
  fixes ev :: "'e + 'k Event" and key :: "'k \<Rightarrow> 'r"
  assumes mir: "mirrors key rv S st m s" and allowed: "event_allowed (listing s) ev"
    and obj: "event_objects ev \<subseteq> S" "\<forall>r \<in> S. rv r \<noteq> None"
    and v: "versions_identify key rv S" and ord: "hash_order ord"
  shows "\<exists>out st'. changes_step key rv ord ev st = Returns (out, st')
    \<and> mirrors key rv S st' (replay key out m) (store_step key ev s)"
proof (cases ev)
  case (Inl e)
  with mir show ?thesis by (simp add: changes_step_def)
next
  case (Inr e)
  have t: "table_of key rv S m (objects st)" using mir by (simp add: mirrors_def)
  note apply_case = apply_entry_table [OF t _ obj(2) v, where 'e = 'e]
  show ?thesis
  proof (cases e)
    case Init
    with mir Inr show ?thesis by (simp add: changes_step_def mirrors_def)
  next
    case (InitApply r)
    with obj(1) Inr have "r \<in> S" by simp
    from apply_case [OF this] mir allowed Inr InitApply show ?thesis
      by (auto simp: changes_step_def mirrors_def make_key_def restrict_upd_agree)
  next
    case InitDone
    then show ?thesis
      using Inr mir allowed table_of_restrict [OF t, of "init_present st"] retained [OF t ord]
      by (simp add: changes_step_def mirrors_def replay_deletes)
  next
    case (EApply r)
    with obj(1) Inr have "r \<in> S" by simp
    from apply_case [OF this] mir allowed Inr EApply show ?thesis
      by (auto simp: changes_step_def mirrors_def make_key_def)
  next
    case (EDelete r)
    with mir allowed Inr table_of_delete [OF t] show ?thesis
      by (simp add: changes_step_def mirrors_def make_key_def Let_def)
  qed
qed

lemma listing_store_step: "listing (store_step key e s) = listing_after (listing s) e"
  by (cases "(key, e, s)" rule: store_step.cases) auto

lemma resource_changes_mirrors:
  assumes "mirrors key rv S st m s" and "protocol (listing s) (map snd evs)"
    and "stream_objects (map snd evs) \<subseteq> S" "\<forall>r \<in> S. rv r \<noteq> None"
    and "versions_identify key rv S" and "\<forall>(ord, e) \<in> set evs. hash_order ord"
  shows "\<exists>outs st'. resource_changes key rv evs st = Returns (outs, st')
    \<and> mirrors key rv S st' (replay key outs m) (store_run key (map snd evs) s)"
  using assms
proof (induction evs arbitrary: st m s)
  case (Cons oe evs)
  obtain ord ev where oe: "oe = (ord, ev)" by force
  obtain out st' where step: "changes_step key rv ord ev st = Returns (out, st')"
    and mir: "mirrors key rv S st' (replay key out m) (store_step key ev s)"
    using changes_step_mirrors [of key rv S st m s ev ord] Cons.prems oe
    by (auto simp: stream_objects_def)
  obtain outs st'' where "resource_changes key rv evs st' = Returns (outs, st'')"
    "mirrors key rv S st'' (replay key outs (replay key out m)) (store_run key (map snd evs) (store_step key ev s))"
    using Cons.IH [OF mir] Cons.prems oe by (auto simp: stream_objects_def listing_store_step)
  with step oe show ?case by simp
qed simp

lemma changes_follow_store:
  assumes "protocol False (map snd evs)" and "\<forall>r \<in> stream_objects (map snd evs). rv r \<noteq> None"
    and "versions_identify key rv (stream_objects (map snd evs))"
    and "\<forall>(ord, e) \<in> set evs. hash_order ord"
  shows "\<exists>outs st'. resource_changes key rv evs changes_init = Returns (outs, st')
    \<and> (\<not> listing (store_run key (map snd evs) store_init) \<longrightarrow>
         replay key outs Map.empty = known (store_run key (map snd evs) store_init))"
proof -
  have "mirrors key rv (stream_objects (map snd evs)) changes_init Map.empty store_init"
    by (simp add: mirrors_def table_of_def changes_init_def store_init_def)
  then obtain outs st' where "resource_changes key rv evs changes_init = Returns (outs, st')"
    "mirrors key rv (stream_objects (map snd evs)) st' (replay key outs Map.empty)
       (store_run key (map snd evs) store_init)"
    using resource_changes_mirrors [OF _ _ subset_refl assms(2,3,4)] assms(1)
    by (fastforce simp: store_init_def)
  then show ?thesis by (auto simp: mirrors_def)
qed

text \<open>C6. The adapter loses and invents nothing. For every event stream that follows the watcher's
  protocol, with any number of restarts, failed lists and relists and any hash iteration order,
  the stream ends without a panic, and whenever no list is in progress the objects obtained by
  replaying the emitted changes are exactly those the watcher's protocol says exist.\<close>

theorem resource_changes_refine_store:
  assumes "protocol False (map snd evs)" and "\<forall>r \<in> stream_objects (map snd evs). rv r \<noteq> None"
    and "versions_identify key rv (stream_objects (map snd evs))"
    and "\<forall>(ord, e) \<in> set evs. hash_order ord"
  shows "\<exists>outs st'. resource_changes key rv evs changes_init = Returns (outs, st')
    \<and> (\<not> listing (store_run key (map snd evs) store_init) \<longrightarrow>
         replay key outs Map.empty = known (store_run key (map snd evs) store_init))"
  by (rule changes_follow_store [OF assms])

lemma changes_step_applies:
  "changes_step key rv ord ev st = Returns (out, st') \<Longrightarrow> Inr (Apply r) \<in> set out \<Longrightarrow> r \<in> event_objects ev"
  by (auto simp: changes_step_def Let_def apply_entry_def split: sum.splits Event.splits option.splits if_splits)

lemma resource_changes_applies:
  "resource_changes key rv evs st = Returns (outs, st') \<Longrightarrow> Inr (Apply r) \<in> set outs \<Longrightarrow>
     r \<in> stream_objects (map snd evs)"
proof (induction evs arbitrary: st outs)
  case (Cons oe evs)
  obtain ord ev where oe: "oe = (ord, ev)" by force
  with Cons.prems obtain out st1 outs' where
    s: "changes_step key rv ord ev st = Returns (out, st1)" "outs = out @ outs'"
      "resource_changes key rv evs st1 = Returns (outs', st')" by auto
  from Cons.prems(2) s(2) consider "Inr (Apply r) \<in> set out" | "Inr (Apply r) \<in> set outs'" by auto
  then show ?case
  proof cases
    case 1
    then show ?thesis using changes_step_applies [OF s(1)] oe by (simp add: stream_objects_def)
  next
    case 2
    then show ?thesis using Cons.IH [OF s(3)] oe by (simp add: stream_objects_def)
  qed
qed simp

text \<open>A stream of two lists: two services, then a relist in which one is gone and one changed.\<close>

definition demo_stream :: "((string set \<Rightarrow> string list) \<times> (unit + (string \<times> string) Event)) list" where
  "demo_stream = map (\<lambda>e. (sorted_list_of_set, Inr e))
     [Init, InitApply (''a'', ''1''), InitApply (''b'', ''2''), InitDone, EApply (''b'', ''3''),
      Init, InitApply (''b'', ''4''), InitDone]"

theorem resource_changes_refine_store_witness:
  "\<exists>outs st'. resource_changes fst (\<lambda>r. Some (snd r)) demo_stream changes_init = Returns (outs, st')
     \<and> replay fst outs Map.empty = [''b'' \<mapsto> (''b'', ''4'')]"
proof -
  let ?rv = "\<lambda>r :: string \<times> string. Some (snd r)"
  have "protocol False (map snd demo_stream)" by (simp add: demo_stream_def)
  moreover have "\<forall>r \<in> stream_objects (map snd demo_stream). ?rv r \<noteq> None" by simp
  moreover have "versions_identify fst ?rv (stream_objects (map snd demo_stream))"
    by (auto simp: versions_identify_def prod_eq_iff)
  moreover have "\<forall>(ord, e) \<in> set demo_stream. hash_order ord"
    by (auto simp: demo_stream_def hash_order_def enumerates_def)
  moreover have "\<not> listing (store_run fst (map snd demo_stream) store_init)"
    and "known (store_run fst (map snd demo_stream) store_init) = [''b'' \<mapsto> (''b'', ''4'')]"
    by (simp_all add: demo_stream_def store_init_def)
  ultimately show ?thesis using resource_changes_refine_store [of demo_stream ?rv fst] by metis
qed

text \<open>The adapter panics exactly on an applied object without a resource version; on no other
  event and in no other state.\<close>

theorem changes_step_panics_iff:
  "changes_step key rv ord ev st = Panic \<longleftrightarrow>
     (\<exists>r. (ev = Inr (InitApply r) \<or> ev = Inr (EApply r)) \<and> rv r = None)"
  by (auto simp: changes_step_def Let_def case_prod_beta split: sum.splits Event.splits)

section \<open>Relists without changes\<close>

lemma relist_unchanged:
  assumes "\<forall>r \<in> set rs. rv r \<noteq> None \<and> objects st (key r) = rv r"
  shows "resource_changes key rv (map (\<lambda>r. (ord, Inr (InitApply r))) rs) st
    = Returns ([], st\<lparr>init_present := init_present st \<union> key ` set rs\<rparr>)"
  using assms
proof (induction rs arbitrary: st)
  case (Cons r rs)
  then obtain ver where "rv r = Some ver" "objects st (key r) = Some ver" by auto
  with Cons.IH [of "st\<lparr>init_present := insert (key r) (init_present st)\<rparr>"] Cons.prems show ?case
    by (simp add: changes_step_def make_key_def apply_entry_def)
qed simp

lemma resource_changes_append:
  "resource_changes key rv (xs @ ys) st =
     bind_outcome (resource_changes key rv xs st) (\<lambda>(out, st').
       bind_outcome (resource_changes key rv ys st') (\<lambda>(outs, st''). Returns (out @ outs, st'')))"
proof (induction xs arbitrary: st)
  case Nil
  then show ?case by (cases "resource_changes key rv ys st") auto
next
  case (Cons oe xs)
  obtain ord ev where oe: "oe = (ord, ev)" by force
  show ?case
  proof (cases "changes_step key rv ord ev st")
    case (Returns p)
    obtain out st' where p: "p = (out, st')" by force
    show ?thesis
    proof (cases "resource_changes key rv xs st'")
      case (Returns q)
      then show ?thesis
        using Cons.IH [of st'] oe p \<open>changes_step key rv ord ev st = Returns p\<close>
        by (cases q; cases "resource_changes key rv ys (snd q)") auto
    qed (use Cons.IH [of st'] oe p Returns in auto)
  qed (simp add: oe)
qed

text \<open>A restart of the watch that lists exactly the objects already known, at the versions already
  seen, is invisible downstream: it emits the single change \<open>Ready\<close>, and leaves the table as it was.\<close>

theorem quiet_relist:
  assumes "\<forall>r \<in> set rs. rv r \<noteq> None \<and> objects st (key r) = rv r"
    and "key ` set rs = dom (objects st)" and "hash_order ord" and "finite (dom (objects st))"
  shows "resource_changes key rv
      ((ord, Inr Init) # map (\<lambda>r. (ord, Inr (InitApply r))) rs @ [(ord, Inr InitDone)]) st
    = Returns ([Inr Ready], st\<lparr>init_present := {}\<rparr>)"
proof -
  have "set (ord (dom (objects st))) = dom (objects st)"
    using assms(3,4) by (simp add: hash_order_def enumerates_def)
  moreover have "objects st |` dom (objects st) = objects st"
    by (auto simp: restrict_map_def domIff fun_eq_iff)
  moreover have "\<forall>r \<in> set rs. rv r \<noteq> None \<and> objects (st\<lparr>init_present := {}\<rparr>) (key r) = rv r"
    using assms(1) by simp
  ultimately show ?thesis
    using assms(2)
    by (simp add: resource_changes_append relist_unchanged changes_step_def)
qed

theorem quiet_relist_witness:
  "resource_changes fst (\<lambda>r. Some (snd r))
     ((sorted_list_of_set, Inr Init) #
        map (\<lambda>r. (sorted_list_of_set, Inr (InitApply r))) [(''a'', ''1'')] @
        [(sorted_list_of_set, Inr InitDone)])
     \<lparr>objects = [''a'' \<mapsto> ''1''], init_present = {''z''}\<rparr>
   = Returns ([Inr Ready :: unit + (string \<times> string, string) ResourceChange],
       \<lparr>objects = [''a'' \<mapsto> ''1''], init_present = {''z''}\<rparr>\<lparr>init_present := {}\<rparr>)"
  by (rule quiet_relist) (simp_all add: hash_order_def enumerates_def)

section \<open>The consumer's interface\<close>

text \<open>What a consumer of the changes promises: its handler keeps its invariant and maintains a view of
  the objects as replaying does; it accepts every object that satisfies \<open>ok\<close>.\<close>

locale change_consumer =
  fixes key :: "'k \<Rightarrow> 'r"
    and handle :: "'e + ('k, 'r) ResourceChange \<Rightarrow> 's \<Rightarrow> 's outcome"
    and view :: "'s \<Rightarrow> 'r \<rightharpoonup> 'k"
    and invar :: "'s \<Rightarrow> bool"
    and ok :: "'k \<Rightarrow> bool"
  assumes handle_view: "invar s \<Longrightarrow> handle c s = Returns s' \<Longrightarrow> view s' = replay_change key c (view s)"
    and handle_invar: "invar s \<Longrightarrow> handle c s = Returns s' \<Longrightarrow> invar s'"
    and handle_returns: "invar s \<Longrightarrow> (\<And>r. c = Inr (Apply r) \<Longrightarrow> ok r) \<Longrightarrow>
      (\<And>k r. view s k = Some r \<Longrightarrow> ok r) \<Longrightarrow> \<exists>s'. handle c s = Returns s'"
begin

lemma consume_view:
  "invar s \<Longrightarrow> fold_outcome handle cs s = Returns s' \<Longrightarrow> invar s' \<and> view s' = replay key cs (view s)"
proof (induction cs arbitrary: s)
  case (Cons c cs)
  then obtain u where u: "handle c s = Returns u" "fold_outcome handle cs u = Returns s'" by auto
  with Cons show ?case using handle_view [OF _ u(1)] handle_invar [OF _ u(1)] by auto
qed simp

lemma consume_returns:
  assumes "invar s" and "\<And>k r. view s k = Some r \<Longrightarrow> ok r"
    and "\<And>r. Inr (Apply r) \<in> set cs \<Longrightarrow> ok r"
  shows "\<exists>s'. fold_outcome handle cs s = Returns s' \<and> invar s' \<and> view s' = replay key cs (view s)"
  using assms
proof (induction cs arbitrary: s)
  case (Cons c cs)
  obtain s' where s': "handle c s = Returns s'"
    using handle_returns [of s c] Cons.prems by auto
  have "ok r" if "view s' k = Some r" for k r
    using that handle_view [OF Cons.prems(1) s'] Cons.prems(2,3)
    by (cases "(key, c, view s)" rule: replay_change.cases) (auto split: if_splits)
  with Cons.IH [of s'] Cons.prems s' handle_view handle_invar show ?case by auto
qed simp

end

end
