(* ===== verification/Config.thy ===== *)
theory Config
  imports Prelude
begin

text \<open>
  The configuration data of \<open>grcache-shared/src/config\<close>: the \<open>GrcacheService\<close> custom resource
  (\<open>crd.rs\<close>) and the proxy's configuration file (\<open>config/mod.rs\<close>). Reading them is \<open>serde\<close>'s
  business; the model has the values after reading, and the defaults the sources define. The
  Kubernetes metadata of a resource is opaque (a type parameter).
\<close>

section \<open>The custom resource\<close>

definition default_string :: string where
  "default_string = ''default''"

definition default_grpc_port :: u16 where
  "default_grpc_port = 50051"

datatype Upstream = Dns (url: string) (port: u16)

datatype DescriptorSetSource =
    File string
  | Bucket string string \<comment> \<open>bucket name, hash\<close>
  | Inline string

record GrcacheServiceSpec =
  cluster :: string
  upstream_name :: "string option"
  upstream :: Upstream
  service_name :: string
  descriptor_set_source :: "DescriptorSetSource option"

record 'm GrcacheService =
  metadata :: 'm
  spec :: GrcacheServiceSpec

text \<open>\<open>ObjectRef<GrcacheService>\<close> of the kube runtime, compared and hashed by namespace and name.\<close>

datatype ObjectRef = ObjectRef (ref_namespace: "string option") (ref_name: string)

text \<open>References are ordered by namespace, then name, the key the store selects by.\<close>

instantiation ObjectRef :: linorder
begin

definition less_eq_ObjectRef :: "ObjectRef \<Rightarrow> ObjectRef \<Rightarrow> bool" where
  "less_eq_ObjectRef a b \<longleftrightarrow> (ref_namespace a, ref_name a) \<le> (ref_namespace b, ref_name b)"

definition less_ObjectRef :: "ObjectRef \<Rightarrow> ObjectRef \<Rightarrow> bool" where
  "less_ObjectRef a b \<longleftrightarrow> (ref_namespace a, ref_name a) < (ref_namespace b, ref_name b)"

instance
  by standard
    (auto simp: less_eq_ObjectRef_def less_ObjectRef_def less_eq_prod_def less_prod_def ObjectRef.expand)

end

section \<open>The configuration file\<close>

datatype TracingExporterConfig = Otlp

record TracingConfig =
  datadog_propagator :: bool
  opentelemetry_propagator :: bool
  exporter :: TracingExporterConfig

record ProxyConfig =
  propagation_headers :: "string set"

definition default_redis_port :: u16 where
  "default_redis_port = 6379"

datatype CacheBackend = RedisReplicas string u16 \<comment> \<open>hostname, port\<close>

record KubernetesConfig =
  enable :: bool

text \<open>More types that the sources define and nothing uses yet; the last ones are in \<open>config/context.rs\<close> and \<open>lib.rs\<close>.\<close>

datatype BucketConfig = Env string \<comment> \<open>prefix of the environment variables\<close>

datatype ProtobufDescriptorSetConfig =
    DescriptorFile string \<comment> \<open>path\<close>
  | DescriptorBucket string string \<comment> \<open>bucket name, hash\<close>

datatype ConfigContextData = ConfigContextData

datatype SpecItem = SpecItem

record GrcacheSpecV1 =
  items :: "SpecItem list"

record ConfigFile =
  kubernetes :: KubernetesConfig
  cache_backend :: CacheBackend
  proxy :: ProxyConfig
  tracing :: "TracingConfig option"

end
