(* ===== verification/Service_Spec.thy ===== *)
theory Service_Spec
  imports Names Config
begin

text \<open>
  \<open>grcache-shared/src/service/mod.rs\<close>: building the routing and caching specification of a gRPC
  service from its protobuf descriptors. The protobuf reflection library and the code generated from
  \<open>options.proto\<close> are parameters, collected in the record \<open>protobuf\<close>. The lemmas say which descriptor
  the service comes from, which methods the specification has, that a method is cacheable only with a
  time to live that is not negative, and which validation errors are reported.
\<close>

section \<open>Data\<close>

record GrcacheMethodOptions =
  cache_ttl :: i32

record CacheSpec =
  hash_on :: "FieldRef list"
  descriptor :: GrcacheMethodOptions

record 'md MethodSpec =
  method_name :: string
  method_descriptor :: 'md
  cache_spec :: "CacheSpec option"

record 'md ServiceSpec =
  service :: QualifiedService
  passthrough :: bool
  methods :: "string \<rightharpoonup> 'md MethodSpec"

datatype ValidationError =
    InvalidCacheTTL i32
  | HashOnInvalidFieldRef string unit \<comment> \<open>reference, error of \<open>FieldRef_parse\<close>\<close>
  | HashOnFieldNotFound string

datatype 'pe spec_error = DescriptorError 'pe | ServiceNotFound QualifiedService

text \<open>What the sources call of the protobuf reflection API: \<open>FileDescriptor::new_dynamic\<close>, \<open>package\<close>,
  \<open>services\<close>, \<open>ServiceDescriptor::proto().name()\<close>, \<open>methods\<close>, \<open>MethodDescriptor::proto().name()\<close>, and
  the generated extension accessor \<open>exts::grcache.get(..)\<close>.\<close>

record ('pe, 'fdp, 'fd, 'sd, 'md) protobuf =
  new_dynamic :: "'fdp \<Rightarrow> 'fd list \<Rightarrow> 'pe + 'fd"
  fd_package :: "'fd \<Rightarrow> string"
  fd_services :: "'fd \<Rightarrow> 'sd list"
  sd_name :: "'sd \<Rightarrow> string"
  sd_methods :: "'sd \<Rightarrow> 'md list"
  md_name :: "'md \<Rightarrow> string"
  md_grcache :: "'md \<Rightarrow> GrcacheMethodOptions option"

section \<open>Building\<close>

text \<open>\<open>MethodSpec::build\<close>; the calls of the \<open>validation_error\<close> closure are the returned list.\<close>

definition MethodSpec_build ::
    "('pe, 'fdp, 'fd, 'sd, 'md) protobuf \<Rightarrow> 'md \<Rightarrow> 'md MethodSpec \<times> ValidationError list" where
  "MethodSpec_build P method =
     (let (cs, errs) =
        (case md_grcache P method of
           None \<Rightarrow> (None, [])
         | Some opt \<Rightarrow>
             (let invalid = sint (cache_ttl opt) < 0
              in (if invalid then None else Some \<lparr>hash_on = [], descriptor = opt\<rparr>,
                  if invalid then [InvalidCacheTTL (cache_ttl opt)] else [])))
      in (\<lparr>method_name = md_name P method, method_descriptor = method, cache_spec = cs\<rparr>, errs))"

definition build_passthrough :: "QualifiedService \<Rightarrow> 'md ServiceSpec" where
  "build_passthrough q = \<lparr>service = q, passthrough = True, methods = Map.empty\<rparr>"

definition find_service ::
    "('pe, 'fdp, 'fd, 'sd, 'md) protobuf \<Rightarrow> 'fd list \<Rightarrow> QualifiedService \<Rightarrow> 'pe spec_error + 'sd" where
  "find_service P descriptor_set q =
     (let candidates = concat (map (\<lambda>f. map (\<lambda>s. (fd_package P f, s)) (fd_services P f)) descriptor_set)
      in case find (\<lambda>(p, s). p = package q \<and> sd_name P s = name q) candidates of
           Some (_, s) \<Rightarrow> Inr s
         | None \<Rightarrow> Inl (ServiceNotFound q))"

text \<open>The loop that loads every file with the files before it as its possible imports.\<close>

fun load_files ::
    "('pe, 'fdp, 'fd, 'sd, 'md) protobuf \<Rightarrow> 'fdp list \<Rightarrow> 'fd list \<Rightarrow> 'pe spec_error + 'fd list" where
  "load_files P [] dyns = Inr dyns"
| "load_files P (descr # files) dyns =
     (case new_dynamic P descr dyns of
        Inl e \<Rightarrow> Inl (DescriptorError e)
      | Inr fd \<Rightarrow> load_files P files (dyns @ [fd]))"

text \<open>Collecting pairs into a hash map: a later pair with the same key replaces an earlier one.\<close>

definition collect_methods :: "'md MethodSpec list \<Rightarrow> (string \<rightharpoonup> 'md MethodSpec)" where
  "collect_methods specs = fold (\<lambda>s m. m(method_name s \<mapsto> s)) specs Map.empty"

definition ServiceSpec_build ::
    "('pe, 'fdp, 'fd, 'sd, 'md) protobuf \<Rightarrow> 'fdp list \<Rightarrow> QualifiedService
      \<Rightarrow> 'pe spec_error + ('md ServiceSpec \<times> ValidationError list)" where
  "ServiceSpec_build P descriptor_set q =
     (case load_files P descriptor_set [] of
        Inl e \<Rightarrow> Inl e
      | Inr dyns \<Rightarrow>
          (case find_service P dyns q of
             Inl e \<Rightarrow> Inl e
           | Inr sd \<Rightarrow>
               (let built = map (MethodSpec_build P) (sd_methods P sd)
                in Inr (\<lparr>service = q, passthrough = False, methods = collect_methods (map fst built)\<rparr>,
                        concat (map snd built)))))"

section \<open>Lemmas\<close>

lemma MethodSpec_build_name [simp]: "method_name (fst (MethodSpec_build P m)) = md_name P m"
  and MethodSpec_build_descriptor [simp]: "method_descriptor (fst (MethodSpec_build P m)) = m"
  by (simp_all add: MethodSpec_build_def Let_def split: option.split)

lemma MethodSpec_build_cache:
  "cache_spec (fst (MethodSpec_build P m)) = Some c \<longleftrightarrow>
     md_grcache P m = Some (descriptor c) \<and> hash_on c = [] \<and> 0 \<le> sint (cache_ttl (descriptor c))"
  by (cases c) (auto simp: MethodSpec_build_def Let_def split: option.splits)

lemma MethodSpec_build_errors:
  "snd (MethodSpec_build P m) =
     (case md_grcache P m of
        Some opt \<Rightarrow> if sint (cache_ttl opt) < 0 then [InvalidCacheTTL (cache_ttl opt)] else []
      | None \<Rightarrow> [])"
  by (simp add: MethodSpec_build_def Let_def split: option.splits)

lemma find_append:
  "find P (xs @ ys) = (case find P xs of Some x \<Rightarrow> Some x | None \<Rightarrow> find P ys)"
  by (induction xs) auto

lemma fold_methods:
  "fold (\<lambda>s m. m(method_name s \<mapsto> s)) specs m k =
     (case find (\<lambda>s. method_name s = k) (rev specs) of Some s \<Rightarrow> Some s | None \<Rightarrow> m k)"
  by (induction specs arbitrary: m) (auto simp: find_append split: option.splits)

lemma find_map: "find P (map f xs) = map_option f (find (\<lambda>x. P (f x)) xs)"
  by (induction xs) auto

lemma collect_methods_build:
  "collect_methods (map (\<lambda>m. fst (MethodSpec_build P m)) ms) k =
     map_option (\<lambda>m. fst (MethodSpec_build P m)) (find (\<lambda>m. md_name P m = k) (rev ms))"
  by (cases "find (\<lambda>m. md_name P m = k) (rev ms)")
    (simp_all add: collect_methods_def fold_methods find_map rev_map)

lemma validation_errors_build:
  "concat (map (\<lambda>m. snd (MethodSpec_build P m)) ms) =
     map InvalidCacheTTL (filter (\<lambda>t. sint t < 0)
       (List.map_filter (\<lambda>m. map_option cache_ttl (md_grcache P m)) ms))"
  by (induction ms) (auto simp: MethodSpec_build_errors map_filter_simps split: option.splits)

lemma find_Some_in: "find Q xs = Some x \<Longrightarrow> x \<in> set xs \<and> Q x"
  by (induction xs) (auto split: if_splits)

lemma find_service_Inr:
  "find_service P fds q = Inr sd \<Longrightarrow>
     \<exists>f \<in> set fds. sd \<in> set (fd_services P f) \<and> fd_package P f = package q \<and> sd_name P sd = name q"
  by (fastforce simp: find_service_def Let_def split: option.splits dest!: find_Some_in)

lemma find_service_Inl:
  "find_service P fds q = Inl e \<longleftrightarrow>
     e = ServiceNotFound q
     \<and> \<not> (\<exists>f s. f \<in> set fds \<and> s \<in> set (fd_services P f)
            \<and> fd_package P f = package q \<and> sd_name P s = name q)"
proof (cases "find_service P fds q")
  case (Inr sd)
  with find_service_Inr [OF Inr] show ?thesis by auto
next
  case (Inl e')
  then show ?thesis
    by (fastforce simp: find_service_def Let_def find_None_iff split: option.splits)
qed

section \<open>Properties\<close>

text \<open>The files \<open>files\<close> load one after the other as \<open>fds\<close>, each with those before it as its possible imports.\<close>

definition loaded :: "('pe, 'fdp, 'fd, 'sd, 'md) protobuf \<Rightarrow> 'fdp list \<Rightarrow> 'fd list \<Rightarrow> bool" where
  "loaded P files fds \<longleftrightarrow> length fds = length files
     \<and> (\<forall>i < length files. new_dynamic P (files ! i) (take i fds) = Inr (fds ! i))"

lemma load_files_iff:
  "load_files P files dyns = Inr fds \<longleftrightarrow> (\<exists>new. fds = dyns @ new \<and> length new = length files
     \<and> (\<forall>i < length files. new_dynamic P (files ! i) (dyns @ take i new) = Inr (new ! i)))"
proof (induction files arbitrary: dyns)
  case (Cons f files)
  show ?case
  proof (cases "new_dynamic P f dyns")
    case (Inr fd)
    then show ?thesis
      by (force simp: Cons.IH All_less_Suc2 length_Suc_conv)
  qed (auto simp: All_less_Suc2)
qed auto

lemma load_files_loaded: "load_files P files [] = Inr fds \<longleftrightarrow> loaded P files fds"
  by (auto simp: load_files_iff loaded_def)

lemma load_files_append:
  "load_files P (xs @ ys) dyns = (case load_files P xs dyns of Inl e \<Rightarrow> Inl e | Inr fds \<Rightarrow> load_files P ys fds)"
  by (induction xs arbitrary: dyns) (simp_all split: sum.split)

lemma load_files_first_error:
  "load_files P files dyns = Inl e \<Longrightarrow> \<exists>pre f post fds pe. files = pre @ f # post \<and> load_files P pre dyns = Inr fds
     \<and> new_dynamic P f fds = Inl pe \<and> e = DescriptorError pe"
proof (induction files arbitrary: dyns)
  case (Cons f files)
  show ?case
  proof (cases "new_dynamic P f dyns")
    case (Inl pe)
    with Cons.prems show ?thesis
      by (intro exI [of _ "[]"] exI [of _ f] exI [of _ files] exI [of _ dyns] exI [of _ pe]) simp
  next
    case (Inr fd)
    with Cons obtain pre g post fds pe where "files = pre @ g # post" "load_files P pre (dyns @ [fd]) = Inr fds"
      "new_dynamic P g fds = Inl pe" "e = DescriptorError pe" by fastforce
    with Inr show ?thesis
      by (intro exI [of _ "f # pre"] exI [of _ g] exI [of _ post] exI [of _ fds] exI [of _ pe]) simp
  qed
qed simp

lemma load_files_error:
  "load_files P files dyns = Inl e \<longleftrightarrow> (\<exists>pre f post fds pe. files = pre @ f # post \<and> load_files P pre dyns = Inr fds
     \<and> new_dynamic P f fds = Inl pe \<and> e = DescriptorError pe)"
  using load_files_first_error [of P files dyns e] by (auto simp: load_files_append)

lemma find_service_Cons:
  "find_service P (f # fds) q =
     (case find (\<lambda>s. fd_package P f = package q \<and> sd_name P s = name q) (fd_services P f) of
        Some s \<Rightarrow> Inr s
      | None \<Rightarrow> find_service P fds q)"
  by (simp add: find_service_def find_append find_map split: option.split)

lemma find_prefix: "find Q xs = Some x \<Longrightarrow> \<exists>us vs. xs = us @ x # vs \<and> Q x \<and> (\<forall>u \<in> set us. \<not> Q u)"
proof (induction xs)
  case (Cons y xs)
  then show ?case by (cases "Q y") (force intro: exI [of _ "y # us" for us])+
qed simp

lemma find_service_first:
  assumes "find_service P fds q = Inr sd"
  shows "\<exists>before f after others rest. fds = before @ f # after \<and> fd_services P f = others @ sd # rest
    \<and> fd_package P f = package q \<and> sd_name P sd = name q \<and> (\<forall>s \<in> set others. sd_name P s \<noteq> name q)
    \<and> (\<forall>g \<in> set before. fd_package P g = package q \<longrightarrow> (\<forall>s \<in> set (fd_services P g). sd_name P s \<noteq> name q))"
  using assms
proof (induction fds)
  case (Cons f fds)
  show ?case
  proof (cases "find (\<lambda>s. fd_package P f = package q \<and> sd_name P s = name q) (fd_services P f)")
    case None
    with Cons.prems obtain before g after others rest where *: "fds = before @ g # after" "fd_services P g = others @ sd # rest"
      "fd_package P g = package q" "sd_name P sd = name q" "\<forall>s \<in> set others. sd_name P s \<noteq> name q"
      "\<forall>g \<in> set before. fd_package P g = package q \<longrightarrow> (\<forall>s \<in> set (fd_services P g). sd_name P s \<noteq> name q)"
      using Cons.IH by (auto simp: find_service_Cons)
    from None have "fd_package P f = package q \<longrightarrow> (\<forall>s \<in> set (fd_services P f). sd_name P s \<noteq> name q)"
      by (auto simp: find_None_iff)
    with * show ?thesis by (intro exI [of _ "f # before"] exI [of _ g] exI [of _ after] exI [of _ others] exI [of _ rest]) auto
  next
    case (Some s)
    with Cons.prems have "s = sd" by (simp add: find_service_Cons)
    with find_prefix [OF Some] obtain us vs where "fd_services P f = us @ sd # vs" "fd_package P f = package q"
      "sd_name P sd = name q" "\<forall>u \<in> set us. sd_name P u \<noteq> name q" by auto
    then show ?thesis
      by (intro exI [of _ "[]"] exI [of _ f] exI [of _ fds] exI [of _ us] exI [of _ vs]) simp
  qed
qed (simp add: find_service_def)

text \<open>C26. A specification that builds is the one of the first service with the requested package and
  name, in the order of the files and of the services in them, all of which load with those before them as possible
  imports: it is no passthrough, a method name maps to the last method declared with it, built by
  \<open>MethodSpec::build\<close>, and the validation errors are the negative times to live in declaration
  order.\<close>

theorem ServiceSpec_build_result:
  assumes "ServiceSpec_build P files q = Inr (sp, errs)"
  shows "\<exists>before f after others sd rest. loaded P files (before @ f # after) \<and> fd_services P f = others @ sd # rest
    \<and> fd_package P f = package q \<and> sd_name P sd = name q \<and> (\<forall>s \<in> set others. sd_name P s \<noteq> name q)
    \<and> (\<forall>g \<in> set before. fd_package P g = package q \<longrightarrow> (\<forall>s \<in> set (fd_services P g). sd_name P s \<noteq> name q))
    \<and> service sp = q \<and> \<not> passthrough sp
    \<and> (\<forall>k. methods sp k = map_option (\<lambda>m. fst (MethodSpec_build P m))
          (find (\<lambda>m. md_name P m = k) (rev (sd_methods P sd))))
    \<and> errs = map InvalidCacheTTL (filter (\<lambda>t. sint t < 0)
        (List.map_filter (\<lambda>m. map_option cache_ttl (md_grcache P m)) (sd_methods P sd)))"
proof -
  from assms obtain fds sd where l: "load_files P files [] = Inr fds" and f: "find_service P fds q = Inr sd"
    and r: "sp = \<lparr>service = q, passthrough = False,
        methods = collect_methods (map (\<lambda>m. fst (MethodSpec_build P m)) (sd_methods P sd))\<rparr>"
      "errs = concat (map (\<lambda>m. snd (MethodSpec_build P m)) (sd_methods P sd))"
    by (auto simp: ServiceSpec_build_def Let_def comp_def split: sum.splits)
  from find_service_first [OF f] obtain before g after others rest where "fds = before @ g # after"
    "fd_services P g = others @ sd # rest" "fd_package P g = package q" "sd_name P sd = name q"
    "\<forall>s \<in> set others. sd_name P s \<noteq> name q"
    "\<forall>g \<in> set before. fd_package P g = package q \<longrightarrow> (\<forall>s \<in> set (fd_services P g). sd_name P s \<noteq> name q)"
    by (elim exE conjE) (rule that; assumption)
  with l r show ?thesis
    by (intro exI [of _ before] exI [of _ g] exI [of _ after] exI [of _ others] exI [of _ sd] exI [of _ rest])
      (simp add: load_files_loaded collect_methods_build validation_errors_build)
qed

text \<open>A descriptor library whose files are already loaded: a file is its package and its services, a
  service its name and its methods with their options.\<close>

definition demo_protobuf ::
    "(unit, string \<times> (string \<times> (string \<times> i32 option) list) list,
      string \<times> (string \<times> (string \<times> i32 option) list) list,
      string \<times> (string \<times> i32 option) list, string \<times> i32 option) protobuf" where
  "demo_protobuf = \<lparr>new_dynamic = (\<lambda>f _. Inr f), fd_package = fst, fd_services = snd, sd_name = fst,
     sd_methods = snd, md_name = fst,
     md_grcache = (\<lambda>m. map_option (\<lambda>t. \<lparr>cache_ttl = t\<rparr>) (snd m))\<rparr>"

definition demo_files :: "(string \<times> (string \<times> (string \<times> i32 option) list) list) list" where
  "demo_files = [(''example'', [(''TestService'', [(''GetData'', Some 3600), (''PutData'', None),
     (''Bad'', Some (- 1))])])]"

abbreviation demo_service :: QualifiedService where
  "demo_service \<equiv> \<lparr>package = ''example'', name = ''TestService''\<rparr>"

lemmas demo_build_simps = ServiceSpec_build_def demo_files_def demo_protobuf_def find_service_def
  MethodSpec_build_def collect_methods_def

lemma demo_build:
  "\<exists>sp errs. ServiceSpec_build demo_protobuf demo_files demo_service = Inr (sp, errs)"
  by (simp add: demo_build_simps)

theorem ServiceSpec_build_result_witness:
  "\<exists>sp errs. ServiceSpec_build demo_protobuf demo_files demo_service = Inr (sp, errs)
     \<and> service sp = demo_service \<and> \<not> passthrough sp"
proof -
  obtain sp errs where "ServiceSpec_build demo_protobuf demo_files demo_service = Inr (sp, errs)"
    using demo_build by blast
  with ServiceSpec_build_result [OF this] show ?thesis by auto
qed

text \<open>C27. In a specification that builds, a cacheable method carries the options of the method
  descriptor of that name, with a time to live between zero and the largest \<open>i32\<close>.\<close>

theorem cacheable_method_ttl:
  assumes "ServiceSpec_build P files q = Inr (sp, errs)" and "methods sp k = Some ms"
    and "cache_spec ms = Some c"
  shows "0 \<le> sint (cache_ttl (descriptor c)) \<and> sint (cache_ttl (descriptor c)) < 2 ^ 31
    \<and> md_grcache P (method_descriptor ms) = Some (descriptor c)
    \<and> md_name P (method_descriptor ms) = k \<and> method_name ms = k"
proof -
  from assms(1,2) obtain m where "ms = fst (MethodSpec_build P m)" "md_name P m = k"
    by (fastforce simp: ServiceSpec_build_def Let_def comp_def collect_methods_build find_Some_iff
        split: sum.splits)
  moreover have "sint (cache_ttl (descriptor c)) < 2 ^ 31"
    using sint_lt [of "cache_ttl (descriptor c)"] by simp
  ultimately show ?thesis using assms(3) by (auto simp: MethodSpec_build_cache)
qed

theorem cacheable_method_ttl_witness:
  "\<exists>sp errs ms c. ServiceSpec_build demo_protobuf demo_files demo_service = Inr (sp, errs)
     \<and> methods sp ''GetData'' = Some ms \<and> cache_spec ms = Some c
     \<and> 0 \<le> sint (cache_ttl (descriptor c)) \<and> method_name ms = ''GetData''"
proof -
  obtain sp errs where b: "ServiceSpec_build demo_protobuf demo_files demo_service = Inr (sp, errs)"
    using demo_build by blast
  then obtain ms c where m: "methods sp ''GetData'' = Some ms" "cache_spec ms = Some c"
    by (auto simp: demo_build_simps)
  with b cacheable_method_ttl [OF b m] show ?thesis by auto
qed

text \<open>C28. Building fails in two ways only: with the error of the first descriptor file that does not
  load, all files before it having loaded, or, when all load, with \<open>ServiceNotFound\<close> exactly if no file of the
  requested package has a service of the requested name.\<close>

theorem ServiceSpec_build_errors:
  "ServiceSpec_build P files q = Inl e \<longleftrightarrow>
     (\<exists>pre f post fds pe. files = pre @ f # post \<and> loaded P pre fds \<and> new_dynamic P f fds = Inl pe \<and> e = DescriptorError pe)
     \<or> (\<exists>fds. loaded P files fds \<and> e = ServiceNotFound q
          \<and> (\<nexists>f s. f \<in> set fds \<and> s \<in> set (fd_services P f)
                \<and> fd_package P f = package q \<and> sd_name P s = name q))"
proof (cases "load_files P files []")
  case (Inl e')
  then have "\<not> loaded P files fds" for fds unfolding load_files_loaded [symmetric] by simp
  moreover have "ServiceSpec_build P files q = Inl e \<longleftrightarrow> load_files P files [] = Inl e"
    using Inl by (auto simp: ServiceSpec_build_def)
  ultimately show ?thesis by (simp add: load_files_error load_files_loaded)
next
  case (Inr fds)
  let ?failed = "\<exists>pre f post fds pe. files = pre @ f # post \<and> loaded P pre fds \<and> new_dynamic P f fds = Inl pe \<and> e = DescriptorError pe"
  have only: "loaded P files fds' \<longleftrightarrow> fds' = fds" for fds' using Inr unfolding load_files_loaded [symmetric] by auto
  have "load_files P files [] \<noteq> Inl e" using Inr by simp
  then have "\<not> ?failed" unfolding load_files_error load_files_loaded .
  moreover have "ServiceSpec_build P files q = Inl e \<longleftrightarrow> find_service P fds q = Inl e"
    using Inr by (auto simp: ServiceSpec_build_def Let_def split: sum.splits)
  ultimately show ?thesis unfolding only find_service_Inl by blast
qed

end
