(* ===== verification/Descriptor_Set.thy ===== *)
theory Descriptor_Set
  imports Config
begin

text \<open>
  \<open>grcache-shared/src/service/descriptor_set.rs\<close>: fetching a protobuf descriptor set from the file
  system, a bucket or the resource itself. The file system, the bucket client, the base64, SHA-256
  and protobuf libraries are parameters, collected in the record \<open>fetcher\<close>. The lemmas say which
  bytes are parsed, that bucket contents are checked against their hash first, and which errors the
  caller sees.
\<close>

datatype ('io, 'b64, 'pe, 'any) fetch_error =
    FileRetrieval 'io
  | Base64DecodeError 'b64
  | ProtoParse 'pe
  | BucketLoad 'any string \<comment> \<open>error, bucket name\<close>
  | ChecksumMismatch string string \<comment> \<open>reference, file\<close>

text \<open>\<open>File::open\<close> and \<open>read_to_end\<close>; \<open>BASE64_STANDARD.decode\<close>; SHA-256 with the \<open>{:x}\<close> rendering of
  its digest; \<open>FileDescriptorSet::parse_from_bytes\<close>.\<close>

record ('io, 'b64, 'pe, 'f, 'dig, 'fds) fetcher =
  fs_open :: "string \<Rightarrow> 'io + 'f"
  fs_read_to_end :: "'f \<Rightarrow> 'io + bytes"
  base64_decode :: "string \<Rightarrow> 'b64 + bytes"
  sha256 :: "bytes \<Rightarrow> 'dig"
  lower_hex :: "'dig \<Rightarrow> string"
  parse_from_bytes :: "bytes \<Rightarrow> 'pe + 'fds"

text \<open>\<open>LoadFromBucket::file_from_bucket\<close> of the context; the proxy passes \<open>DummyPanicContext\<close>.\<close>

type_synonym 'any bucket_context = "string \<Rightarrow> string \<Rightarrow> ('any + bytes) outcome"

definition DummyPanicContext :: "'any bucket_context" where
  "DummyPanicContext bucket_id object_name = Panic"

definition sha256_hex :: "('io, 'b64, 'pe, 'f, 'dig, 'fds) fetcher \<Rightarrow> bytes \<Rightarrow> string" where
  "sha256_hex F data = lower_hex F (sha256 F data)"

text \<open>The \<open>match source\<close> that gets the buffer.\<close>

definition source_bytes ::
    "('io, 'b64, 'pe, 'f, 'dig, 'fds) fetcher \<Rightarrow> 'any bucket_context \<Rightarrow> DescriptorSetSource
      \<Rightarrow> (('io, 'b64, 'pe, 'any) fetch_error + bytes) outcome" where
  "source_bytes F context source =
     (case source of
        File path \<Rightarrow>
          Returns (case fs_open F path of
             Inl e \<Rightarrow> Inl (FileRetrieval e)
           | Inr file \<Rightarrow>
               (case fs_read_to_end F file of
                  Inl e \<Rightarrow> Inl (FileRetrieval e)
                | Inr buf \<Rightarrow> Inr buf))
      | Bucket bucket hash \<Rightarrow>
          bind_outcome (context bucket hash) (\<lambda>loaded.
            Returns (case loaded of
               Inl error \<Rightarrow> Inl (BucketLoad error bucket)
             | Inr buf \<Rightarrow>
                 (let file_hash = sha256_hex F buf
                  in if hash \<noteq> file_hash then Inl (ChecksumMismatch hash file_hash) else Inr buf)))
      | Inline data \<Rightarrow>
          Returns (case base64_decode F data of
             Inl e \<Rightarrow> Inl (Base64DecodeError e)
           | Inr buf \<Rightarrow> Inr buf))"

definition from_source ::
    "('io, 'b64, 'pe, 'f, 'dig, 'fds) fetcher \<Rightarrow> 'any bucket_context \<Rightarrow> DescriptorSetSource
      \<Rightarrow> (('io, 'b64, 'pe, 'any) fetch_error + 'fds) outcome" where
  "from_source F context source =
     bind_outcome (source_bytes F context source) (\<lambda>r.
       Returns (case r of
          Inl e \<Rightarrow> Inl e
        | Inr buf \<Rightarrow>
            (case parse_from_bytes F buf of
               Inl e \<Rightarrow> Inl (ProtoParse e)
             | Inr descriptor_set \<Rightarrow> Inr descriptor_set)))"

lemma from_source_Inr:
  "from_source F context source = Returns (Inr d) \<longleftrightarrow>
     (\<exists>buf. source_bytes F context source = Returns (Inr buf) \<and> parse_from_bytes F buf = Inr d)"
  by (auto simp: from_source_def result_simps)

text \<open>C29. A descriptor set loaded from a bucket was parsed from bytes whose SHA-256 is the hash the
  resource names, and which the bucket returned for that bucket and hash; bytes with another digest
  are refused with both digests in the error and are never parsed.\<close>

theorem bucket_contents_checked:
  "(from_source F context (Bucket b h) = Returns (Inr d) \<longleftrightarrow>
      (\<exists>buf. context b h = Returns (Inr buf) \<and> sha256_hex F buf = h \<and> parse_from_bytes F buf = Inr d))
   \<and> (from_source F context (Bucket b h) = Returns (Inl (ChecksumMismatch r f)) \<longleftrightarrow>
      (\<exists>buf. context b h = Returns (Inr buf) \<and> sha256_hex F buf \<noteq> h \<and> r = h \<and> f = sha256_hex F buf))"
  by (auto simp: from_source_def source_bytes_def Let_def result_simps)

text \<open>With the bucket context the proxy uses, a bucket source always panics, and the other two
  kinds of source never do: they load the parse of the file's contents or of the decoded inline
  data, or return the error of the step that failed.\<close>

lemma proxy_sources:
  "from_source F DummyPanicContext (Bucket b h) = Panic
   \<and> from_source F DummyPanicContext (File p) =
       Returns (case fs_open F p of
          Inl e \<Rightarrow> Inl (FileRetrieval e)
        | Inr file \<Rightarrow> (case fs_read_to_end F file of
            Inl e \<Rightarrow> Inl (FileRetrieval e)
          | Inr buf \<Rightarrow> (case parse_from_bytes F buf of Inl e \<Rightarrow> Inl (ProtoParse e) | Inr d \<Rightarrow> Inr d)))
   \<and> from_source F DummyPanicContext (Inline t) =
       Returns (case base64_decode F t of
          Inl e \<Rightarrow> Inl (Base64DecodeError e)
        | Inr buf \<Rightarrow> (case parse_from_bytes F buf of Inl e \<Rightarrow> Inl (ProtoParse e) | Inr d \<Rightarrow> Inr d))"
  by (simp add: from_source_def source_bytes_def DummyPanicContext_def split: sum.splits)

section \<open>The unit tests\<close>

text \<open>A bucket with one object, and the two tests of the source; a failed assertion panics.\<close>

definition DummyBucketLoader :: "string \<Rightarrow> bytes \<Rightarrow> string bucket_context" where
  "DummyBucketLoader object_name' data bucket_id object_name =
     Returns (if object_name = object_name' then Inr data else Inl ''no object found'')"

definition test_descriptor_set_from_bucket :: "('io, 'b64, 'pe, 'f, 'dig, 'fds) fetcher \<Rightarrow> unit outcome" where
  "test_descriptor_set_from_bucket F =
     (let data = ''''; hash = sha256_hex F data; loader = DummyBucketLoader hash data; source = Bucket ''some_bucket'' hash
      in bind_outcome (from_source F loader source) (\<lambda>result. bind_outcome (unwrap_result result) (\<lambda>_. Returns ())))"

definition test_descriptor_set_from_bucket_with_wrong_hash :: "('io, 'b64, 'pe, 'f, 'dig, 'fds) fetcher \<Rightarrow> unit outcome" where
  "test_descriptor_set_from_bucket_with_wrong_hash F =
     (let data = ''''; hash = sha256_hex F data; loader = DummyBucketLoader hash ''a''; source = Bucket ''some_bucket'' hash
      in bind_outcome (from_source F loader source) (\<lambda>result. if isl result then Returns () else Panic))"

text \<open>Both pass, if the empty message parses and the two digests differ.\<close>

lemma descriptor_set_tests:
  assumes "parse_from_bytes F '''' = Inr d" and "sha256_hex F ''a'' \<noteq> sha256_hex F ''''"
  shows "test_descriptor_set_from_bucket F = Returns ()" "test_descriptor_set_from_bucket_with_wrong_hash F = Returns ()"
  using assms by (simp_all add: test_descriptor_set_from_bucket_def test_descriptor_set_from_bucket_with_wrong_hash_def
      from_source_def source_bytes_def DummyBucketLoader_def Let_def)

end
