(* ===== verification/Discovery.thy ===== *)
theory Discovery
  imports Prelude
begin

text \<open>
  Service discovery, \<open>grcache-proxy/src/discovery\<close>: the table of backend handles per host and port,
  the queue of commands to the discovery service, and the DNS refresh loop that the service spawns
  for every new handle. Handles are reference counted; the table holds weak references only. The
  DNS resolver's answers are inputs, and pingora's load balancers are opaque values with an update
  operation (parameters).

  The steps of all tasks interleave freely: clients that get, clone and drop handles, the service's
  command loop, and every refresh loop at each of its suspension points. The invariant shows that a
  handle somebody holds is the one in the table and is being refreshed, and that its load balancers
  have the last published DNS answer whenever its loop is not in the middle of passing it on.
\<close>

section \<open>Data\<close>

text \<open>pingora's \<open>SocketAddr\<close> (IPv4, the only kind the code builds, or a Unix socket) and \<open>Backend\<close>,
  compared by address and weight.\<close>

datatype SocketAddr = Inet u32 u16 | Unix string

datatype Backend = Backend (addr: SocketAddr) (weight: nat)

fun as_inet :: "Backend \<Rightarrow> (u32 \<times> u16) option" where
  "as_inet (Backend (Inet ip p) w) = Some (ip, p)"
| "as_inet (Backend (Unix s) w) = None"

fun backend_key :: "Backend \<Rightarrow> nat \<times> u32 \<times> u16 \<times> string \<times> nat" where
  "backend_key (Backend (Inet ip p) w) = (0, ip, p, [], w)"
| "backend_key (Backend (Unix s) w) = (1, 0, 0, s, w)"

lemma backend_key_inj: "backend_key a = backend_key b \<longleftrightarrow> a = b"
  by (cases a rule: backend_key.cases; cases b rule: backend_key.cases) auto

instantiation Backend :: linorder
begin

definition less_eq_Backend :: "Backend \<Rightarrow> Backend \<Rightarrow> bool" where
  "less_eq_Backend a b \<longleftrightarrow> backend_key a \<le> backend_key b"

definition less_Backend :: "Backend \<Rightarrow> Backend \<Rightarrow> bool" where
  "less_Backend a b \<longleftrightarrow> backend_key a < backend_key b"

instance
  by standard (auto simp: less_eq_Backend_def less_Backend_def less_le backend_key_inj)

end

type_synonym host_port = "string \<times> u16"

datatype Command = StartDiscoveryLoop (cmd_host_port: host_port) (cmd_chan: nat)

text \<open>A \<open>ServiceBackendsHandle\<close>: the watched set of backends, the two load balancers, the readiness
  watch, and the references clients hold. Handles are numbered in the order they were made, and a
  handle's watch channels go by its number.\<close>

record 'lb handle =
  h_host_port :: host_port
  clients :: nat
  backends :: "Backend set"
  round_robin :: 'lb
  consistent :: 'lb
  h_ready :: bool

text \<open>Where a refresh loop stands: spawned; awaiting the resolver; updating the one, then the other load
  balancer, with the upgraded reference in hand; before the check of the reference count; ended. The
  argument is the handle its weak reference points to.\<close>

datatype loop_pc =
    Starting
  | Resolving nat
  | UpdatingRR nat
  | UpdatingCons nat
  | Checking nat
  | Stopped

record dns_loop =
  l_host_port :: host_port
  l_chan :: nat
  l_pc :: loop_pc

record 'lb dns_state =
  handles :: "'lb handle list"
  service_backends :: "host_port \<rightharpoonup> nat"
  service_commands :: "Command list"
  loops :: "dns_loop list"

text \<open>pingora's \<open>LoadBalancer\<close>: \<open>from_backends\<close> and \<open>update\<close> with the result of discovery.\<close>

record 'lb load_balancing =
  lb_new :: 'lb
  lb_update :: "'lb \<Rightarrow> Backend set \<times> (u64 \<rightharpoonup> bool) \<Rightarrow> 'lb"

definition dns_new :: "'lb dns_state" where
  "dns_new = \<lparr>handles = [], service_backends = Map.empty, service_commands = [], loops = []\<rparr>"

text \<open>The discovery service itself: whether it still has the receiver of the command queue. \<open>Service::new\<close> makes
  it together with the handle, whose table is empty; \<open>start\<close> takes the receiver and can do so once.\<close>

record dns_service =
  has_commands :: bool

definition dns_service_new :: "dns_service \<times> 'lb dns_state" where
  "dns_service_new = (\<lparr>has_commands = True\<rparr>, dns_new)"

definition dns_service_start :: "dns_service \<Rightarrow> dns_service outcome" where
  "dns_service_start srv = (if has_commands srv then Returns (srv\<lparr>has_commands := False\<rparr>) else Panic)"

section \<open>Operations\<close>

definition updating :: "nat \<Rightarrow> dns_loop \<Rightarrow> bool" where
  "updating hid l \<longleftrightarrow> l_pc l = UpdatingRR hid \<or> l_pc l = UpdatingCons hid"

text \<open>\<open>Weak::strong_count\<close>: the references of clients and of loops that upgraded theirs.\<close>

definition strong_count :: "'lb dns_state \<Rightarrow> nat \<Rightarrow> nat" where
  "strong_count st hid = clients (handles st ! hid) + length (filter (updating hid) (loops st))"

definition upd_handle :: "nat \<Rightarrow> ('lb handle \<Rightarrow> 'lb handle) \<Rightarrow> 'lb dns_state \<Rightarrow> 'lb dns_state" where
  "upd_handle hid f st = st\<lparr>handles := (handles st)[hid := f (handles st ! hid)]\<rparr>"

definition set_pc :: "nat \<Rightarrow> loop_pc \<Rightarrow> 'lb dns_state \<Rightarrow> 'lb dns_state" where
  "set_pc i pc st = st\<lparr>loops := (loops st)[i := (loops st ! i)\<lparr>l_pc := pc\<rparr>]\<rparr>"

definition upgrade :: "'lb dns_state \<Rightarrow> nat \<Rightarrow> nat option" where
  "upgrade st hid = (if strong_count st hid > 0 then Some hid else None)"

definition add_client :: "'lb handle \<Rightarrow> 'lb handle" where
  "add_client h = h\<lparr>clients := Suc (clients h)\<rparr>"

definition remove_client :: "'lb handle \<Rightarrow> 'lb handle" where
  "remove_client h = h\<lparr>clients := clients h - 1\<rparr>"

definition new_handle :: "'lb load_balancing \<Rightarrow> host_port \<Rightarrow> 'lb handle" where
  "new_handle LB hp = \<lparr>h_host_port = hp, clients = 1, backends = {}, round_robin = lb_new LB,
     consistent = lb_new LB, h_ready = False\<rparr>"

definition backends_for_hostname ::
    "'lb load_balancing \<Rightarrow> string \<Rightarrow> u16 \<Rightarrow> 'lb dns_state \<Rightarrow> nat \<times> 'lb dns_state" where
  "backends_for_hostname LB hostname prt st =
     (let host_port = (hostname, prt) in
      case Option.bind (service_backends st host_port) (upgrade st) of
        Some lb \<Rightarrow> (lb, upd_handle lb add_client st)
      | None \<Rightarrow>
          (let data = length (handles st)
           in (data, st\<lparr>handles := handles st @ [new_handle LB host_port],
                service_backends := (service_backends st)(host_port \<mapsto> data),
                service_commands := service_commands st @ [StartDiscoveryLoop host_port data]\<rparr>)))"

text \<open>\<open>ServiceDiscovery::discover\<close> of \<open>WatchServiceDiscovery\<close>: the watched set, no health overrides.\<close>

definition discover :: "'lb handle \<Rightarrow> Backend set \<times> (u64 \<rightharpoonup> bool)" where
  "discover h = (backends h, Map.empty)"

text \<open>One turn of the service's command loop: spawn the refresh loop of the next command.\<close>

definition service_recv :: "'lb dns_state \<Rightarrow> 'lb dns_state option" where
  "service_recv st =
     (case service_commands st of
        [] \<Rightarrow> None
      | StartDiscoveryLoop hp ch # cs \<Rightarrow>
          Some (st\<lparr>service_commands := cs,
            loops := loops st @ [\<lparr>l_host_port = hp, l_chan = ch, l_pc = Starting\<rparr>]\<rparr>))"

text \<open>The refresh loop \<open>dns_discovery_loop\<close>, cut at its suspension points.\<close>

definition loop_begin :: "nat \<Rightarrow> 'lb dns_state \<Rightarrow> 'lb dns_state outcome" where
  "loop_begin i st =
     bind_outcome (unwrap (service_backends st (l_host_port (loops st ! i))))
       (\<lambda>w. Returns (set_pc i (Resolving w) st))"

definition loop_lookup_failed :: "nat \<Rightarrow> nat \<Rightarrow> 'lb dns_state \<Rightarrow> 'lb dns_state" where
  "loop_lookup_failed i w st = set_pc i (if strong_count st w = 0 then Stopped else Resolving w) st"

definition resolved :: "u16 \<Rightarrow> u32 list \<Rightarrow> Backend set" where
  "resolved prt addrs = set (map (\<lambda>a. Backend (Inet a prt) 1) addrs)"

definition loop_publish :: "nat \<Rightarrow> nat \<Rightarrow> u32 list \<Rightarrow> 'lb dns_state \<Rightarrow> 'lb dns_state" where
  "loop_publish i w addrs st =
     (let l = loops st ! i;
          bs = resolved (snd (l_host_port l)) addrs;
          has_changed = (backends (handles st ! l_chan l) \<noteq> bs);
          st' = (if has_changed then upd_handle (l_chan l) (\<lambda>h. h\<lparr>backends := bs\<rparr>) st else st)
      in set_pc i (if has_changed \<and> upgrade st' w \<noteq> None then UpdatingRR w else Checking w) st')"

definition loop_update_rr :: "'lb load_balancing \<Rightarrow> nat \<Rightarrow> nat \<Rightarrow> 'lb dns_state \<Rightarrow> 'lb dns_state" where
  "loop_update_rr LB i w st =
     set_pc i (UpdatingCons w)
       (upd_handle w (\<lambda>h. h\<lparr>round_robin := lb_update LB (round_robin h) (discover h)\<rparr>) st)"

definition loop_update_cons :: "'lb load_balancing \<Rightarrow> nat \<Rightarrow> nat \<Rightarrow> 'lb dns_state \<Rightarrow> 'lb dns_state" where
  "loop_update_cons LB i w st =
     set_pc i (Checking w)
       (upd_handle w (\<lambda>h. h\<lparr>consistent := lb_update LB (consistent h) (discover h)\<rparr>) st)"

definition loop_check :: "nat \<Rightarrow> nat \<Rightarrow> 'lb dns_state \<Rightarrow> 'lb dns_state" where
  "loop_check i w st =
     (if strong_count st w = 0 then set_pc i Stopped st
      else set_pc i (Resolving w) (upd_handle (l_chan (loops st ! i)) (\<lambda>h. h\<lparr>h_ready := True\<rparr>) st))"

section \<open>Interleavings\<close>

inductive dns_step :: "'lb load_balancing \<Rightarrow> 'lb dns_state \<Rightarrow> 'lb dns_state \<Rightarrow> bool"
  for LB :: "'lb load_balancing" where
  get: "dns_step LB st (snd (backends_for_hostname LB hostname prt st))"
| clone: "hid < length (handles st) \<Longrightarrow> clients (handles st ! hid) > 0 \<Longrightarrow>
     dns_step LB st (upd_handle hid add_client st)"
| drop: "hid < length (handles st) \<Longrightarrow> clients (handles st ! hid) > 0 \<Longrightarrow>
     dns_step LB st (upd_handle hid remove_client st)"
| recv: "service_recv st = Some st' \<Longrightarrow> dns_step LB st st'"
| start: "i < length (loops st) \<Longrightarrow> l_pc (loops st ! i) = Starting \<Longrightarrow>
     loop_begin i st = Returns st' \<Longrightarrow> dns_step LB st st'"
| lookup_failed: "i < length (loops st) \<Longrightarrow> l_pc (loops st ! i) = Resolving w \<Longrightarrow>
     dns_step LB st (loop_lookup_failed i w st)"
| publish: "i < length (loops st) \<Longrightarrow> l_pc (loops st ! i) = Resolving w \<Longrightarrow>
     dns_step LB st (loop_publish i w addrs st)"
| update_rr: "i < length (loops st) \<Longrightarrow> l_pc (loops st ! i) = UpdatingRR w \<Longrightarrow>
     dns_step LB st (loop_update_rr LB i w st)"
| update_cons: "i < length (loops st) \<Longrightarrow> l_pc (loops st ! i) = UpdatingCons w \<Longrightarrow>
     dns_step LB st (loop_update_cons LB i w st)"
| check: "i < length (loops st) \<Longrightarrow> l_pc (loops st ! i) = Checking w \<Longrightarrow>
     dns_step LB st (loop_check i w st)"

inductive_cases dns_stepE: "dns_step LB st st'"

section \<open>Frame lemmas\<close>

lemma upd_handle_frame [simp]:
  "loops (upd_handle h f st) = loops st"
  "service_backends (upd_handle h f st) = service_backends st"
  "service_commands (upd_handle h f st) = service_commands st"
  "length (handles (upd_handle h f st)) = length (handles st)"
  by (simp_all add: upd_handle_def)

lemma set_pc_frame [simp]:
  "handles (set_pc i pc st) = handles st"
  "service_backends (set_pc i pc st) = service_backends st"
  "service_commands (set_pc i pc st) = service_commands st"
  "length (loops (set_pc i pc st)) = length (loops st)"
  by (simp_all add: set_pc_def)

lemma handles_upd_handle:
  "h < length (handles st) \<Longrightarrow>
     handles (upd_handle h f st) ! k = (if k = h then f (handles st ! h) else handles st ! k)"
  by (simp add: upd_handle_def)

lemma loops_set_pc:
  "i < length (loops st) \<Longrightarrow>
     loops (set_pc i pc st) ! j = (if j = i then (loops st ! i)\<lparr>l_pc := pc\<rparr> else loops st ! j)"
  by (simp add: set_pc_def)

lemma strong_upd_handle:
  "h < length (handles st) \<Longrightarrow> clients (f (handles st ! h)) = clients (handles st ! h) \<Longrightarrow>
     strong_count (upd_handle h f st) k = strong_count st k"
  by (simp add: strong_count_def handles_upd_handle)

lemma strong_set_pc:
  "i < length (loops st) \<Longrightarrow>
     strong_count (set_pc i pc st) h + (if updating h (loops st ! i) then 1 else 0)
       = strong_count st h + (if pc = UpdatingRR h \<or> pc = UpdatingCons h then 1 else 0)"
  using length_filter_update [of i "loops st" "updating h" "(loops st ! i)\<lparr>l_pc := pc\<rparr>"]
  by (simp add: strong_count_def set_pc_def updating_def)

definition live :: "'lb dns_state \<Rightarrow> nat \<Rightarrow> bool" where
  "live st h \<longleftrightarrow> h < length (handles st) \<and> strong_count st h > 0"

lemma live_set_pc:
  "i < length (loops st) \<Longrightarrow> live (set_pc i pc st) h \<Longrightarrow>
     live st h \<or> ((pc = UpdatingRR h \<or> pc = UpdatingCons h) \<and> \<not> updating h (loops st ! i))"
  using strong_set_pc [of i st pc h] by (auto simp: live_def split: if_splits)

lemma live_upd_handle:
  "k < length (handles st) \<Longrightarrow> clients (f (handles st ! k)) = clients (handles st ! k) \<Longrightarrow>
     live (upd_handle k f st) h \<longleftrightarrow> live st h"
  by (simp add: live_def strong_upd_handle)

lemma updating_live: "i < length (loops st) \<Longrightarrow> updating h (loops st ! i) \<Longrightarrow> strong_count st h > 0"
  by (auto simp: strong_count_def filter_empty_conv intro!: nth_mem)

section \<open>The invariant\<close>

fun pc_weak :: "loop_pc \<Rightarrow> nat option" where
  "pc_weak (Resolving w) = Some w"
| "pc_weak (UpdatingRR w) = Some w"
| "pc_weak (UpdatingCons w) = Some w"
| "pc_weak (Checking w) = Some w"
| "pc_weak _ = None"

text \<open>The loop that has the senders of handle \<open>h\<close>, running and watching \<open>h\<close> itself.\<close>

definition attached :: "nat \<Rightarrow> dns_loop \<Rightarrow> bool" where
  "attached h l \<longleftrightarrow> l_chan l = h \<and> (l_pc l = Starting \<or> pc_weak (l_pc l) = Some h)"

definition tended :: "'lb dns_state \<Rightarrow> nat \<Rightarrow> bool" where
  "tended st h \<longleftrightarrow>
     (\<exists>c \<in> set (service_commands st). cmd_chan c = h)
     \<or> (\<exists>i < length (loops st). attached h (loops st ! i))"

text \<open>The senders of a handle's watch channels still exist: in the command, or in a loop that has not ended.\<close>

definition sender_alive :: "'lb dns_state \<Rightarrow> nat \<Rightarrow> bool" where
  "sender_alive st h \<longleftrightarrow>
     (\<exists>c \<in> set (service_commands st). cmd_chan c = h) \<or> (\<exists>l \<in> set (loops st). l_chan l = h \<and> l_pc l \<noteq> Stopped)"

lemma tended_sender_alive: "tended st h \<Longrightarrow> sender_alive st h"
  by (auto simp: tended_def sender_alive_def attached_def dest: nth_mem)

definition dns_shape :: "'lb dns_state \<Rightarrow> bool" where
  "dns_shape st \<longleftrightarrow>
     (\<forall>hp h. service_backends st hp = Some h \<longrightarrow> h < length (handles st) \<and> h_host_port (handles st ! h) = hp)
     \<and> (\<forall>c \<in> set (service_commands st). cmd_chan c < length (handles st)
           \<and> cmd_host_port c = h_host_port (handles st ! cmd_chan c))
     \<and> (\<forall>l \<in> set (loops st). l_chan l < length (handles st)
           \<and> l_host_port l = h_host_port (handles st ! l_chan l)
           \<and> (\<forall>w. pc_weak (l_pc l) = Some w \<longrightarrow> w < length (handles st)))
     \<and> (\<forall>h < length (handles st). service_backends st (h_host_port (handles st ! h)) \<noteq> None)
     \<and> distinct (map cmd_chan (service_commands st) @ map l_chan (loops st))"

definition dns_live :: "'lb dns_state \<Rightarrow> bool" where
  "dns_live st \<longleftrightarrow>
     (\<forall>h. live st h \<longrightarrow> service_backends st (h_host_port (handles st ! h)) = Some h \<and> tended st h)"

subsection \<open>Shape\<close>

lemma map_set_pc [simp]:
  "i < length (loops st) \<Longrightarrow> map l_chan (loops (set_pc i pc st)) = map l_chan (loops st)"
  by (simp add: set_pc_def map_update list_update_same_conv)

lemma shape_set_pc:
  assumes "dns_shape st" and "i < length (loops st)"
    and "\<And>w. pc_weak pc = Some w \<Longrightarrow> w < length (handles st)"
  shows "dns_shape (set_pc i pc st)"
proof -
  have "l \<in> set (loops st) \<or> l = (loops st ! i)\<lparr>l_pc := pc\<rparr>" if "l \<in> set (loops (set_pc i pc st))" for l
    using that set_update_subset_insert by (fastforce simp: set_pc_def)
  moreover have "loops st ! i \<in> set (loops st)" using assms(2) by simp
  ultimately show ?thesis
    using assms unfolding dns_shape_def by (auto simp: distinct_append) fastforce+
qed

lemma shape_upd_handle:
  assumes "dns_shape st" and "k < length (handles st)"
    and "h_host_port (f (handles st ! k)) = h_host_port (handles st ! k)"
  shows "dns_shape (upd_handle k f st)"
proof -
  have "h_host_port (handles (upd_handle k f st) ! h) = h_host_port (handles st ! h)" for h
    using assms(2,3) by (simp add: handles_upd_handle)
  with assms(1) show ?thesis by (simp add: dns_shape_def)
qed

lemma shape_table:
  "dns_shape st \<Longrightarrow> service_backends st hp = Some h \<Longrightarrow>
     h < length (handles st) \<and> h_host_port (handles st ! h) = hp"
  unfolding dns_shape_def by blast

lemma shape_loop:
  assumes "dns_shape st" and "i < length (loops st)"
  shows "l_chan (loops st ! i) < length (handles st)"
    and "l_host_port (loops st ! i) = h_host_port (handles st ! l_chan (loops st ! i))"
    and "pc_weak (l_pc (loops st ! i)) = Some w \<Longrightarrow> w < length (handles st)"
  using assms nth_mem [OF assms(2)] unfolding dns_shape_def by auto

definition with_new :: "'lb load_balancing \<Rightarrow> host_port \<Rightarrow> 'lb dns_state \<Rightarrow> 'lb dns_state" where
  "with_new LB hp st = st\<lparr>handles := handles st @ [new_handle LB hp],
     service_backends := (service_backends st)(hp \<mapsto> length (handles st)),
     service_commands := service_commands st @ [StartDiscoveryLoop hp (length (handles st))]\<rparr>"

lemma get_cases:
  obtains (reuse) h where "service_backends st (hostname, prt) = Some h" "strong_count st h > 0"
      "backends_for_hostname LB hostname prt st = (h, upd_handle h add_client st)"
  | (fresh) "\<And>h. service_backends st (hostname, prt) = Some h \<Longrightarrow> strong_count st h = 0"
      "backends_for_hostname LB hostname prt st = (length (handles st), with_new LB (hostname, prt) st)"
proof (cases "Option.bind (service_backends st (hostname, prt)) (upgrade st)")
  case None
  then have "\<And>h. service_backends st (hostname, prt) = Some h \<Longrightarrow> strong_count st h = 0"
    by (auto simp: upgrade_def split: if_splits)
  with None show ?thesis
    by (intro fresh) (auto simp: backends_for_hostname_def with_new_def Let_def)
next
  case (Some h)
  then have "service_backends st (hostname, prt) = Some h" "strong_count st h > 0"
    by (auto simp: bind_eq_Some_conv upgrade_def split: if_splits)
  with Some show ?thesis by (intro reuse) (auto simp: backends_for_hostname_def Let_def)
qed

lemma shape_with_new:
  assumes sh: "dns_shape st"
  shows "dns_shape (with_new LB hp st)"
proof -
  let ?n = "length (handles st)"
  have nth: "(handles st @ [new_handle LB hp]) ! h = (if h < ?n then handles st ! h else new_handle LB hp)"
    if "h < Suc ?n" for h
    using that by (auto simp: nth_append less_Suc_eq)
  have fresh: "?n \<notin> set (map cmd_chan (service_commands st) @ map l_chan (loops st))"
    using sh unfolding dns_shape_def by fastforce
  show ?thesis
    using sh fresh unfolding dns_shape_def with_new_def
    by (auto simp: nth new_handle_def less_Suc_eq nth_append)
qed

lemma recv_cases:
  assumes "service_recv st = Some st'"
  obtains hp ch cs where "service_commands st = StartDiscoveryLoop hp ch # cs"
    "st' = st\<lparr>service_commands := cs, loops := loops st @ [\<lparr>l_host_port = hp, l_chan = ch, l_pc = Starting\<rparr>]\<rparr>"
  using assms by (auto simp: service_recv_def split: list.splits Command.splits)

lemma shape_recv: "dns_shape st \<Longrightarrow> service_recv st = Some st' \<Longrightarrow> dns_shape st'"
  by (erule recv_cases) (auto simp: dns_shape_def)

lemmas loop_ops = loop_begin_def loop_lookup_failed_def loop_publish_def loop_update_rr_def
  loop_update_cons_def loop_check_def

subsection \<open>The steps by what they change\<close>

text \<open>Where a turn may take loop \<open>i\<close>: it points to a handle, to a live one while it updates, and it goes on watching
  its own handle as long as that is live.\<close>

definition turns_to :: "'lb dns_state \<Rightarrow> nat \<Rightarrow> loop_pc \<Rightarrow> bool" where
  "turns_to st i pc \<longleftrightarrow> i < length (loops st)
     \<and> (\<forall>h. pc_weak pc = Some h \<longrightarrow> h < length (handles st))
     \<and> (\<forall>h. pc = UpdatingRR h \<or> pc = UpdatingCons h \<longrightarrow> live st h)
     \<and> (dns_live st \<longrightarrow> (\<forall>h. attached h (loops st ! i) \<and> live st h \<longrightarrow> pc = Starting \<or> pc_weak pc = Some h))"

text \<open>A turn changes neither the references to a handle nor its name.\<close>

definition keeps_refs :: "('lb handle \<Rightarrow> 'lb handle) \<Rightarrow> bool" where
  "keeps_refs f \<longleftrightarrow> (\<forall>h. clients (f h) = clients h \<and> h_host_port (f h) = h_host_port h)"

lemma upd_handle_id [simp]: "upd_handle k (\<lambda>h. h) st = st"
  by (simp add: upd_handle_def)

lemma turns_to_weak:
  assumes "dns_shape st" and "i < length (loops st)" and "pc_weak (l_pc (loops st ! i)) = Some w"
    and "pc \<in> {Resolving w, Checking w} \<or> pc \<in> {UpdatingRR w, UpdatingCons w} \<and> strong_count st w > 0
      \<or> pc = Stopped \<and> strong_count st w = 0"
  shows "turns_to st i pc"
  using assms shape_loop(3) [OF assms(1-3)] by (auto simp: turns_to_def live_def attached_def)

lemma turns_to_begin:
  assumes "dns_shape st" and "i < length (loops st)" and "service_backends st (l_host_port (loops st ! i)) = Some w"
  shows "turns_to st i (Resolving w)"
  using assms shape_loop(2) [OF assms(1,2)]
  by (auto simp: turns_to_def attached_def dns_live_def dest: shape_table)

lemma publish_cases:
  obtains (same) "loop_publish i w addrs st = set_pc i (Checking w) st"
  | (changed) bs pc where "bs = resolved (snd (l_host_port (loops st ! i))) addrs"
      "pc = (if strong_count (upd_handle (l_chan (loops st ! i)) (\<lambda>h. h\<lparr>backends := bs\<rparr>) st) w > 0 then UpdatingRR w else Checking w)"
      "loop_publish i w addrs st = set_pc i pc (upd_handle (l_chan (loops st ! i)) (\<lambda>h. h\<lparr>backends := bs\<rparr>) st)"
proof (cases "backends (handles st ! l_chan (loops st ! i)) = resolved (snd (l_host_port (loops st ! i))) addrs")
  case False
  then show thesis by (intro changed [OF refl refl]) (simp add: loop_publish_def Let_def upgrade_def)
qed (simp add: same loop_publish_def Let_def)

lemma step_kinds:
  assumes sh: "dns_shape st" and "dns_step LB st st'"
  obtains (client) k f where "live st k" "f = add_client \<or> f = remove_client" "st' = upd_handle k f st"
  | (fresh) hp where "\<And>h. service_backends st hp = Some h \<Longrightarrow> strong_count st h = 0" "st' = with_new LB hp st"
  | (recv) "service_recv st = Some st'"
  | (turn) i pc k f where "turns_to st i pc" "k < length (handles st)" "keeps_refs f"
      "st' = set_pc i pc (upd_handle k f st)"
proof -
  note chan = shape_loop(1) [OF sh] and weak = shape_loop(3) [OF sh] and to = turns_to_weak [OF sh]
  have quiet: thesis if "turns_to st i pc" "st' = set_pc i pc st" for i pc
    using turn [of i pc "l_chan (loops st ! i)" "\<lambda>h. h"] that chan [of i] by (simp add: keeps_refs_def turns_to_def)
  from assms(2) show thesis
  proof cases
    case (get hostname prt)
    show thesis
    proof (cases rule: get_cases [of st hostname prt LB])
      case (reuse h)
      with sh have "live st h" by (auto simp: live_def dest: shape_table)
      then show thesis by (rule client [of h add_client]) (simp_all add: get reuse)
    qed (use get fresh [of "(hostname, prt)"] in simp)
  next
    case (start i)
    then show thesis by (auto simp: loop_begin_def intro: quiet turns_to_begin [OF sh])
  next
    case (lookup_failed i w)
    then show thesis by (intro quiet [OF to]) (auto simp: loop_lookup_failed_def)
  next
    case (publish i w addrs)
    then show thesis
    proof (cases rule: publish_cases [of i w addrs st])
      case (changed bs pc)
      then show thesis using publish chan [of i]
        by (intro turn [OF to [of i w pc]]) (auto simp: keeps_refs_def strong_upd_handle)
    qed (use publish in \<open>simp add: quiet [OF to [of i w "Checking w"]]\<close>)
  next
    case (update_rr i w)
    then show thesis using updating_live [of i st w] weak [of i w] unfolding loop_update_rr_def
      by (intro turn [OF to [of i w "UpdatingCons w"]]) (auto simp: keeps_refs_def updating_def)
  next
    case (update_cons i w)
    then show thesis using weak [of i w] unfolding loop_update_cons_def
      by (intro turn [OF to [of i w "Checking w"]]) (auto simp: keeps_refs_def)
  next
    case (check i w)
    then show thesis using chan [of i] quiet [OF to [of i w Stopped]] 
        turn [OF to [of i w "Resolving w"], of "l_chan (loops st ! i)" "\<lambda>h. h\<lparr>h_ready := True\<rparr>"]
      by (auto simp: loop_check_def keeps_refs_def split: if_splits)
  qed (auto simp: live_def strong_count_def intro: client recv)
qed

lemma dns_shape_step:
  assumes "dns_shape st" and "dns_step LB st st'"
  shows "dns_shape st'"
  using assms
proof (cases rule: step_kinds)
  case (client k f)
  with assms(1) show ?thesis by (auto simp: live_def add_client_def remove_client_def intro!: shape_upd_handle)
next
  case (turn i pc k f)
  with assms(1) show ?thesis by (auto simp: turns_to_def keeps_refs_def intro!: shape_set_pc shape_upd_handle)
qed (use assms(1) in \<open>auto intro: shape_with_new shape_recv\<close>)

subsection \<open>Live handles are tended\<close>

lemma live_upd_client:
  assumes "live st k" and "h_host_port (f (handles st ! k)) = h_host_port (handles st ! k)"
    and "dns_live st"
  shows "dns_live (upd_handle k f st)"
proof -
  have k: "k < length (handles st)" using assms(1) by (simp add: live_def)
  have "live st h" if "live (upd_handle k f st) h" for h
    using that assms(1) k by (cases "h = k") (auto simp: live_def strong_count_def handles_upd_handle)
  moreover have "h_host_port (handles (upd_handle k f st) ! h) = h_host_port (handles st ! h)" for h
    using assms(2) k by (simp add: handles_upd_handle)
  moreover have "tended (upd_handle k f st) h = tended st h" for h by (simp add: tended_def)
  ultimately show ?thesis using assms(3) by (simp add: dns_live_def)
qed

lemma dns_live_upd_handle:
  assumes "k < length (handles st)" and "clients (f (handles st ! k)) = clients (handles st ! k)"
    and "h_host_port (f (handles st ! k)) = h_host_port (handles st ! k)" and "dns_live st"
  shows "dns_live (upd_handle k f st)"
  using assms by (auto simp: dns_live_def live_upd_handle handles_upd_handle tended_def)

lemma dns_live_set_pc:
  assumes lv: "dns_live st" and i: "i < length (loops st)"
    and up: "\<And>h. pc = UpdatingRR h \<or> pc = UpdatingCons h \<Longrightarrow> live st h"
    and att: "\<And>h. attached h (loops st ! i) \<Longrightarrow> live st h \<Longrightarrow> pc = Starting \<or> pc_weak pc = Some h"
  shows "dns_live (set_pc i pc st)"
proof -
  have l: "live st h" if "live (set_pc i pc st) h" for h
    using live_set_pc [OF i that] up by blast
  have "tended (set_pc i pc st) h" if "live st h" "tended st h" for h
    using that(2) unfolding tended_def
  proof
    assume "\<exists>j < length (loops st). attached h (loops st ! j)"
    then obtain j where j: "j < length (loops st)" "attached h (loops st ! j)" by blast
    then have "attached h (loops (set_pc i pc st) ! j)"
      using att [of h] that(1) i by (auto simp: loops_set_pc attached_def)
    with j show "(\<exists>c \<in> set (service_commands (set_pc i pc st)). cmd_chan c = h)
      \<or> (\<exists>j < length (loops (set_pc i pc st)). attached h (loops (set_pc i pc st) ! j))"
      by auto
  qed simp
  with l lv show ?thesis by (simp add: dns_live_def)
qed

lemma dns_live_with_new:
  assumes sh: "dns_shape st" and lv: "dns_live st"
    and dead: "\<And>h. service_backends st hp = Some h \<Longrightarrow> strong_count st h = 0"
  shows "dns_live (with_new LB hp st)"
  unfolding dns_live_def
proof (intro allI impI)
  fix h
  assume "live (with_new LB hp st) h"
  then consider (new) "h = length (handles st)" | (old) "h < length (handles st)" "live st h"
    by (auto simp: live_def with_new_def strong_count_def nth_append less_Suc_eq split: if_splits)
  then show "service_backends (with_new LB hp st) (h_host_port (handles (with_new LB hp st) ! h)) = Some h
    \<and> tended (with_new LB hp st) h"
  proof cases
    case new
    then show ?thesis by (auto simp: with_new_def new_handle_def tended_def)
  next
    case old
    then have "service_backends st (h_host_port (handles st ! h)) = Some h" "tended st h"
      using lv by (auto simp: dns_live_def)
    moreover have "h_host_port (handles st ! h) \<noteq> hp"
      using dead old(2) calculation(1) by (auto simp: live_def)
    ultimately show ?thesis
      using old(1) by (auto simp: with_new_def nth_append tended_def)
  qed
qed

lemma dns_live_recv:
  assumes "dns_live st" and "service_recv st = Some st'"
  shows "dns_live st'"
  using assms(2)
proof (rule recv_cases)
  fix hp ch cs
  assume c: "service_commands st = StartDiscoveryLoop hp ch # cs"
    and st': "st' = st\<lparr>service_commands := cs,
      loops := loops st @ [\<lparr>l_host_port = hp, l_chan = ch, l_pc = Starting\<rparr>]\<rparr>"
  have "live st h" if "live st' h" for h
    using that st' by (auto simp: live_def strong_count_def updating_def)
  moreover have "tended st' h" if "tended st h" for h
    using that c st' unfolding tended_def
    by (fastforce simp: nth_append attached_def less_Suc_eq)
  ultimately show ?thesis using assms(1) st' by (simp add: dns_live_def)
qed

lemma dns_live_step:
  assumes sh: "dns_shape st" and lv: "dns_live st" and "dns_step LB st st'"
  shows "dns_live st'"
  using sh assms(3)
proof (cases rule: step_kinds)
  case (client k f)
  with lv show ?thesis by (auto simp: add_client_def remove_client_def intro!: live_upd_client)
next
  case (turn i pc k f)
  then have "dns_live (upd_handle k f st)" using lv by (auto simp: keeps_refs_def intro: dns_live_upd_handle)
  with turn lv show ?thesis
    by (auto simp: turns_to_def keeps_refs_def live_upd_handle intro!: dns_live_set_pc)
qed (use sh lv in \<open>auto intro: dns_live_with_new dns_live_recv\<close>)

text \<open>Nobody brings back a handle whose last reference is gone.\<close>

lemma live_turn:
  "turns_to st i pc \<Longrightarrow> live (set_pc i pc st) h \<Longrightarrow> live st h"
  using live_set_pc [of i st pc h] by (auto simp: turns_to_def)

lemma live_client:
  assumes "live st k" and "live (upd_handle k f st) h"
  shows "live st h"
  using assms by (cases "h = k") (auto simp: live_def strong_count_def handles_upd_handle)

lemma live_step:
  assumes sh: "dns_shape st" and "dns_step LB st st'" and h: "h < length (handles st)" and lv: "live st' h"
  shows "live st h"
  using sh assms(2)
proof (cases rule: step_kinds)
  case (client k f)
  with lv live_client show ?thesis by blast
next
  case (fresh hp)
  with lv h show ?thesis by (auto simp: with_new_def live_def strong_count_def nth_append)
next
  case recv
  then show ?thesis by (rule recv_cases) (use lv in \<open>auto simp: live_def strong_count_def updating_def\<close>)
next
  case (turn i pc k f)
  with lv live_set_pc [of i "upd_handle k f st" pc h] show ?thesis
    by (auto simp: turns_to_def keeps_refs_def live_upd_handle)
qed

definition dns_invar :: "'lb dns_state \<Rightarrow> bool" where
  "dns_invar st \<longleftrightarrow> dns_shape st \<and> dns_live st"

lemma dns_invar_new: "dns_invar dns_new"
  by (simp add: dns_invar_def dns_new_def dns_shape_def dns_live_def live_def)

lemma dns_invar_step: "dns_invar st \<Longrightarrow> dns_step LB st st' \<Longrightarrow> dns_invar st'"
  by (auto simp: dns_invar_def intro: dns_shape_step dns_live_step)

subsection \<open>Load balancers are in step with the watched set\<close>

text \<open>The documented effect of \<open>LoadBalancer::update\<close>: afterwards it selects among the discovered
  backends; a new one has none. \<open>view\<close> is the set it selects from.\<close>

definition lb_law :: "'lb load_balancing \<Rightarrow> ('lb \<Rightarrow> Backend set) \<Rightarrow> bool" where
  "lb_law LB view \<longleftrightarrow>
     view (lb_new LB) = {} \<and> (\<forall>lb bs en. view (lb_update LB lb (bs, en)) = bs)"

definition in_step :: "('lb \<Rightarrow> Backend set) \<Rightarrow> 'lb handle \<Rightarrow> bool" where
  "in_step view H \<longleftrightarrow> view (round_robin H) = backends H \<and> view (consistent H) = backends H"

definition passing_on :: "('lb \<Rightarrow> Backend set) \<Rightarrow> 'lb handle \<Rightarrow> nat \<Rightarrow> dns_loop \<Rightarrow> bool" where
  "passing_on view H h l \<longleftrightarrow> l_chan l = h
     \<and> (l_pc l = UpdatingRR h \<or> l_pc l = UpdatingCons h \<and> view (round_robin H) = backends H)"

definition dns_sync :: "('lb \<Rightarrow> Backend set) \<Rightarrow> 'lb dns_state \<Rightarrow> bool" where
  "dns_sync view st \<longleftrightarrow>
     (\<forall>h. live st h \<longrightarrow> in_step view (handles st ! h)
        \<or> (\<exists>i < length (loops st). passing_on view (handles st ! h) h (loops st ! i)))"

lemma sync_transfer:
  assumes sy: "dns_sync view st" and lv: "\<And>h. live st' h \<Longrightarrow> live st h"
    and len: "length (loops st) \<le> length (loops st')"
    and stay: "\<And>h. live st h \<Longrightarrow> in_step view (handles st ! h) \<Longrightarrow> in_step view (handles st' ! h)
      \<or> (\<exists>j < length (loops st'). passing_on view (handles st' ! h) h (loops st' ! j))"
    and pass: "\<And>h j. live st h \<Longrightarrow> j < length (loops st) \<Longrightarrow> passing_on view (handles st ! h) h (loops st ! j)
      \<Longrightarrow> passing_on view (handles st' ! h) h (loops st' ! j) \<or> in_step view (handles st' ! h)"
  shows "dns_sync view st'"
  unfolding dns_sync_def
proof (intro allI impI)
  fix h
  assume "live st' h"
  then have l: "live st h" by (rule lv)
  with sy consider "in_step view (handles st ! h)"
    | j where "j < length (loops st)" "passing_on view (handles st ! h) h (loops st ! j)"
    by (auto simp: dns_sync_def)
  then show "in_step view (handles st' ! h)
    \<or> (\<exists>j < length (loops st'). passing_on view (handles st' ! h) h (loops st' ! j))"
  proof cases
    case (2 j)
    with pass [OF l 2] len show ?thesis by (meson order_less_le_trans)
  qed (rule stay [OF l])
qed

lemma sync_upd_handle:
  assumes "dns_sync view st" and "k < length (handles st)"
    and "\<And>h. live (upd_handle k f st) h \<Longrightarrow> live st h"
    and "round_robin (f (handles st ! k)) = round_robin (handles st ! k)"
      "consistent (f (handles st ! k)) = consistent (handles st ! k)"
      "backends (f (handles st ! k)) = backends (handles st ! k)"
  shows "dns_sync view (upd_handle k f st)"
  by (rule sync_transfer [OF assms(1)])
    (use assms in \<open>auto simp: handles_upd_handle in_step_def passing_on_def\<close>)

lemma sync_set_pc:
  assumes "dns_sync view st" and to: "turns_to st i pc" and nu: "\<And>h. \<not> updating h (loops st ! i)"
  shows "dns_sync view (set_pc i pc st)"
proof (rule sync_transfer [OF assms(1) live_turn [OF to]])
  have i: "i < length (loops st)" using to by (simp add: turns_to_def)
  fix h j
  assume "passing_on view (handles st ! h) h (loops st ! j)"
  then show "passing_on view (handles (set_pc i pc st) ! h) h (loops (set_pc i pc st) ! j)
    \<or> in_step view (handles (set_pc i pc st) ! h)"
    using nu [of h] i by (cases "j = i") (auto simp: passing_on_def updating_def loops_set_pc)
qed simp_all

lemma unique_chan:
  assumes "dns_shape st" and "i < length (loops st)" and "j < length (loops st)"
    and "l_chan (loops st ! i) = l_chan (loops st ! j)"
  shows "i = j"
  using assms nth_eq_iff_index_eq [of "map l_chan (loops st)" i j] by (simp add: dns_shape_def)

lemma live_loop_attached:
  assumes "dns_invar st" and "i < length (loops st)" and "live st (l_chan (loops st ! i))"
  shows "attached (l_chan (loops st ! i)) (loops st ! i)"
proof -
  let ?c = "l_chan (loops st ! i)"
  have sh: "dns_shape st" using assms(1) by (simp add: dns_invar_def)
  have "cmd_chan c \<noteq> ?c" if "c \<in> set (service_commands st)" for c
  proof -
    have "?c \<in> l_chan ` set (loops st)" using assms(2) by simp
    with sh that show ?thesis unfolding dns_shape_def by fastforce
  qed
  moreover have "tended st ?c" using assms by (auto simp: dns_invar_def dns_live_def)
  ultimately obtain j where "j < length (loops st)" "attached ?c (loops st ! j)"
    by (auto simp: tended_def)
  with unique_chan [OF sh assms(2), of j] show ?thesis by (auto simp: attached_def)
qed

lemma sync_with_new:
  assumes "lb_law LB view" and "dns_sync view st"
  shows "dns_sync view (with_new LB hp st)"
  unfolding dns_sync_def
proof (intro allI impI)
  fix h
  assume lv: "live (with_new LB hp st) h"
  show "in_step view (handles (with_new LB hp st) ! h)
      \<or> (\<exists>i < length (loops (with_new LB hp st)).
            passing_on view (handles (with_new LB hp st) ! h) h (loops (with_new LB hp st) ! i))"
  proof (cases "h < length (handles st)")
    case True
    with lv have "live st h"
      by (auto simp: live_def with_new_def strong_count_def nth_append split: if_splits)
    with True assms(2) show ?thesis by (simp add: dns_sync_def with_new_def nth_append)
  next
    case False
    with lv have "h = length (handles st)" by (simp add: live_def with_new_def)
    with assms(1) show ?thesis by (simp add: with_new_def in_step_def new_handle_def lb_law_def)
  qed
qed

lemma sync_recv:
  assumes "dns_sync view st" and "service_recv st = Some st'"
  shows "dns_sync view st'"
  using assms(2)
proof (rule recv_cases)
  fix hp ch cs
  assume st': "st' = st\<lparr>service_commands := cs,
      loops := loops st @ [\<lparr>l_host_port = hp, l_chan = ch, l_pc = Starting\<rparr>]\<rparr>"
  show ?thesis
    by (rule sync_transfer [OF assms(1)])
      (auto simp: st' live_def strong_count_def updating_def nth_append)
qed

text \<open>The turns of a loop that touch the load balancers or the watched set.\<close>

lemma sync_changed:
  fixes st :: "'lb dns_state"
  defines "ch \<equiv> \<lambda>i bs. upd_handle (l_chan (loops st ! i)) (\<lambda>h. h\<lparr>backends := bs\<rparr>) st"
  assumes inv: "dns_invar st" and sy: "dns_sync view st"
    and i: "i < length (loops st)" and pc: "l_pc (loops st ! i) = Resolving w"
    and pc': "pc' = (if strong_count (ch i bs) w > 0 then UpdatingRR w else Checking w)"
  shows "dns_sync view (set_pc i pc' (ch i bs))"
proof (rule sync_transfer [OF sy])
  let ?c = "l_chan (loops st ! i)"
  have sh: "dns_shape st" and c: "?c < length (handles st)" and w: "w < length (handles st)"
    using inv shape_loop [OF _ i] pc by (auto simp: dns_invar_def)
  have same: "strong_count (ch i bs) h = strong_count st h" for h using c by (simp add: ch_def strong_upd_handle)
  fix h
  show "live st h" if "live (set_pc i pc' (ch i bs)) h"
    using live_set_pc [of i "ch i bs" pc' h, OF _ that] i w pc'
    by (auto simp: live_def same split: if_splits) (auto simp: ch_def)
  assume lv: "live st h"
  show "in_step view (handles (set_pc i pc' (ch i bs)) ! h) \<or> (\<exists>j < length (loops (set_pc i pc' (ch i bs))).
      passing_on view (handles (set_pc i pc' (ch i bs)) ! h) h (loops (set_pc i pc' (ch i bs)) ! j))"
    if "in_step view (handles st ! h)"
  proof (cases "h = ?c")
    case True
    with lv live_loop_attached [OF inv i] pc have "w = h" by (auto simp: attached_def)
    with lv same have "pc' = UpdatingRR h" by (simp add: pc' live_def)
    with True i show ?thesis by (auto simp: passing_on_def loops_set_pc ch_def intro!: exI [of _ i])
  qed (use that c in \<open>simp add: ch_def handles_upd_handle\<close>)
  fix j
  assume j: "j < length (loops st)" "passing_on view (handles st ! h) h (loops st ! j)"
  then have "j \<noteq> i" using pc by (auto simp: passing_on_def)
  moreover from this have "h \<noteq> ?c" using unique_chan [OF sh i j(1)] j(2) by (auto simp: passing_on_def)
  ultimately show "passing_on view (handles (set_pc i pc' (ch i bs)) ! h) h (loops (set_pc i pc' (ch i bs)) ! j)
      \<or> in_step view (handles (set_pc i pc' (ch i bs)) ! h)"
    using i c j(2) by (simp add: ch_def loops_set_pc handles_upd_handle)
qed (simp add: ch_def)

lemma sync_update_rr:
  assumes law: "lb_law LB view" and sy: "dns_sync view st"
    and i: "i < length (loops st)" and w: "w < length (handles st)"
    and pc: "l_pc (loops st ! i) = UpdatingRR w"
  shows "dns_sync view (loop_update_rr LB i w st)"
proof (rule sync_transfer [OF sy])
  fix h
  assume "live (loop_update_rr LB i w st) h"
  then show "live st h"
    using live_set_pc [of i "upd_handle w _ st"] i w pc
    by (fastforce simp: loop_update_rr_def updating_def live_upd_handle)
next
  fix h
  assume "in_step view (handles st ! h)"
  then have "in_step view (handles (loop_update_rr LB i w st) ! h)"
    using law w by (auto simp: loop_update_rr_def handles_upd_handle in_step_def lb_law_def discover_def)
  then show "in_step view (handles (loop_update_rr LB i w st) ! h)
    \<or> (\<exists>j < length (loops (loop_update_rr LB i w st)).
          passing_on view (handles (loop_update_rr LB i w st) ! h) h (loops (loop_update_rr LB i w st) ! j))" ..
next
  fix h j
  assume "passing_on view (handles st ! h) h (loops st ! j)"
  then have "passing_on view (handles (loop_update_rr LB i w st) ! h) h (loops (loop_update_rr LB i w st) ! j)"
    using law i w pc
    by (cases "j = i") (auto simp: loop_update_rr_def handles_upd_handle loops_set_pc
        passing_on_def lb_law_def discover_def)
  then show "passing_on view (handles (loop_update_rr LB i w st) ! h) h (loops (loop_update_rr LB i w st) ! j)
    \<or> in_step view (handles (loop_update_rr LB i w st) ! h)" ..
qed (simp add: loop_update_rr_def)

lemma sync_update_cons:
  assumes law: "lb_law LB view" and sy: "dns_sync view st"
    and i: "i < length (loops st)" and w: "w < length (handles st)"
    and pc: "l_pc (loops st ! i) = UpdatingCons w"
  shows "dns_sync view (loop_update_cons LB i w st)"
proof (rule sync_transfer [OF sy])
  fix h
  assume "live (loop_update_cons LB i w st) h"
  then show "live st h"
    using live_set_pc [of i "upd_handle w _ st"] i w
    by (fastforce simp: loop_update_cons_def live_upd_handle)
next
  fix h
  assume "in_step view (handles st ! h)"
  then have "in_step view (handles (loop_update_cons LB i w st) ! h)"
    using law w by (auto simp: loop_update_cons_def handles_upd_handle in_step_def lb_law_def discover_def)
  then show "in_step view (handles (loop_update_cons LB i w st) ! h)
    \<or> (\<exists>j < length (loops (loop_update_cons LB i w st)).
          passing_on view (handles (loop_update_cons LB i w st) ! h) h (loops (loop_update_cons LB i w st) ! j))" ..
next
  fix h j
  assume "passing_on view (handles st ! h) h (loops st ! j)"
  then show "passing_on view (handles (loop_update_cons LB i w st) ! h) h (loops (loop_update_cons LB i w st) ! j)
    \<or> in_step view (handles (loop_update_cons LB i w st) ! h)"
    using law i w pc
    by (cases "j = i") (auto simp: loop_update_cons_def handles_upd_handle loops_set_pc
        passing_on_def in_step_def lb_law_def discover_def)
qed (simp add: loop_update_cons_def)

lemma sync_client:
  assumes "dns_sync view st" and "live st k" and "f = add_client \<or> f = remove_client"
  shows "dns_sync view (upd_handle k f st)"
  using assms live_client [OF assms(2), of f]
  by (intro sync_upd_handle) (auto simp: live_def add_client_def remove_client_def)

lemma sync_check:
  assumes "dns_shape st" and sy: "dns_sync view st" and i: "i < length (loops st)" and pc: "l_pc (loops st ! i) = Checking w"
  shows "dns_sync view (loop_check i w st)"
proof (cases "strong_count st w = 0")
  case True
  with assms show ?thesis by (auto simp: loop_check_def updating_def intro!: sync_set_pc turns_to_weak)
next
  case False
  let ?st = "upd_handle (l_chan (loops st ! i)) (\<lambda>h. h\<lparr>h_ready := True\<rparr>) st"
  have c: "l_chan (loops st ! i) < length (handles st)" using shape_loop(1) [OF assms(1) i] .
  have "dns_sync view ?st" by (rule sync_upd_handle [OF sy c]) (use c in \<open>auto simp: live_upd_handle\<close>)
  moreover have "dns_shape ?st" using assms(1) c by (simp add: shape_upd_handle)
  ultimately have "dns_sync view (set_pc i (Resolving w) ?st)"
    by (intro sync_set_pc turns_to_weak [of _ _ w]) (use i pc in \<open>auto simp: updating_def\<close>)
  with False show ?thesis by (simp add: loop_check_def)
qed

lemma dns_sync_step:
  assumes law: "lb_law LB view" and inv: "dns_invar st" and sy: "dns_sync view st"
    and "dns_step LB st st'"
  shows "dns_sync view st'"
proof -
  have sh: "dns_shape st" using inv by (simp add: dns_invar_def)
  from assms(4) show ?thesis
  proof cases
    case (get hostname prt)
    show ?thesis
      by (cases rule: get_cases [of st hostname prt LB])
        (use get law sy sh in \<open>auto simp: live_def dest: shape_table intro!: sync_client sync_with_new\<close>)
  next
    case (start i)
    with sh sy show ?thesis by (auto simp: loop_begin_def updating_def intro!: sync_set_pc turns_to_begin)
  next
    case (lookup_failed i w)
    with sh sy show ?thesis
      by (auto simp: loop_lookup_failed_def updating_def intro!: sync_set_pc turns_to_weak [of _ _ w])
  next
    case (publish i w addrs)
    show ?thesis
    proof (cases rule: publish_cases [of i w addrs st])
      case same
      with publish sh sy show ?thesis by (auto simp: updating_def intro!: sync_set_pc turns_to_weak [of _ _ w])
    next
      case (changed bs pc)
      show ?thesis unfolding publish(1) changed(3) by (rule sync_changed [OF inv sy publish(2,3) changed(2)])
    qed
  qed (use sh law sy shape_loop(3) [OF sh] in \<open>auto simp: live_def strong_count_def
      intro: sync_client sync_recv sync_update_rr sync_update_cons sync_check\<close>)
qed

interpretation dns: invariant_system "\<lambda>st. st = dns_new" "dns_step LB"
  "\<lambda>st. dns_invar st \<and> (lb_law LB view \<longrightarrow> dns_sync view st)" for LB view
proof
  fix st :: "'a dns_state"
  assume "st = dns_new"
  then show "dns_invar st \<and> (lb_law LB view \<longrightarrow> dns_sync view st)"
    using dns_invar_new by (simp add: dns_sync_def live_def dns_new_def)
next
  fix st st' :: "'a dns_state"
  assume "dns_invar st \<and> (lb_law LB view \<longrightarrow> dns_sync view st)" and "dns_step LB st st'"
  then show "dns_invar st' \<and> (lb_law LB view \<longrightarrow> dns_sync view st')"
    using dns_invar_step dns_sync_step by blast
qed

subsection \<open>Addresses\<close>

text \<open>What a handle watches and selects from are DNS answers for its own port.\<close>

definition from_dns :: "('lb \<Rightarrow> Backend set) \<Rightarrow> 'lb handle \<Rightarrow> bool" where
  "from_dns view h \<longleftrightarrow> (\<forall>b \<in> backends h \<union> view (round_robin h) \<union> view (consistent h).
     \<exists>ip. b = Backend (Inet ip (snd (h_host_port h))) 1)"

definition dns_addrs :: "('lb \<Rightarrow> Backend set) \<Rightarrow> 'lb dns_state \<Rightarrow> bool" where
  "dns_addrs view st \<longleftrightarrow> (\<forall>h \<in> set (handles st). from_dns view h)"

text \<open>What a step does to the handles: nothing, or a new one, or one operation on one of them.\<close>

definition handle_op :: "'lb load_balancing \<Rightarrow> 'lb handle \<Rightarrow> 'lb handle \<Rightarrow> bool" where
  "handle_op LB h h' \<longleftrightarrow> h' = add_client h \<or> h' = remove_client h \<or> h' = h\<lparr>h_ready := True\<rparr>
     \<or> h' = h\<lparr>round_robin := lb_update LB (round_robin h) (discover h)\<rparr>
     \<or> h' = h\<lparr>consistent := lb_update LB (consistent h) (discover h)\<rparr>
     \<or> (\<exists>addrs. h' = h\<lparr>backends := resolved (snd (h_host_port h)) addrs\<rparr>)"

lemma step_handles:
  assumes sh: "dns_shape st" and "dns_step LB st st'"
  obtains (same) "handles st' = handles st"
  | (new) hp where "handles st' = handles st @ [new_handle LB hp]"
  | (op) k h' where "k < length (handles st)" "handle_op LB (handles st ! k) h'" "handles st' = (handles st)[k := h']"
proof -
  have upd: thesis if "k < length (handles st)" "handles st' = handles (upd_handle k f st)"
    "handle_op LB (handles st ! k) (f (handles st ! k))" for k f
    using op [OF that(1,3)] that(2) by (simp add: upd_handle_def)
  from assms(2) show thesis
  proof cases
    case (get hostname prt)
    show thesis
      by (cases rule: get_cases [of st hostname prt LB])
        (use get sh in \<open>auto simp: with_new_def upd_handle_def handle_op_def dest: shape_table intro: new op\<close>)
  next
    case recv
    then show thesis by (rule recv_cases) (simp add: same)
  next
    case (publish i w addrs)
    then show thesis
      using shape_loop(1,2) [OF sh, of i]
      by (cases rule: publish_cases [of i w addrs st])
        (simp add: same, rule op [of "l_chan (loops st ! i)"], auto simp: upd_handle_def handle_op_def)
  next
    case (update_rr i w)
    with shape_loop(3) [OF sh] show thesis by (intro upd [of w]) (auto simp: loop_update_rr_def handle_op_def)
  next
    case (update_cons i w)
    with shape_loop(3) [OF sh] show thesis by (intro upd [of w]) (auto simp: loop_update_cons_def handle_op_def)
  next
    case (check i w)
    with shape_loop(1) [OF sh] show thesis
      by (cases "strong_count st w = 0")
        (simp add: same loop_check_def, intro upd [of "l_chan (loops st ! i)"], auto simp: loop_check_def handle_op_def)
  qed (auto simp: loop_begin_def loop_lookup_failed_def handle_op_def intro: same upd)
qed

lemma dns_addrs_step:
  assumes "dns_step LB st st'" and law: "lb_law LB view" and "dns_shape st" and a: "dns_addrs view st"
  shows "dns_addrs view st'"
  using assms(3,1)
proof (cases rule: step_handles)
  case (new hp)
  with a law show ?thesis by (simp add: dns_addrs_def from_dns_def new_handle_def lb_law_def)
next
  case (op k h')
  then have "from_dns view (handles st ! k)" using a by (simp add: dns_addrs_def)
  with op(2) law have "from_dns view h'"
    by (auto simp: handle_op_def from_dns_def add_client_def remove_client_def lb_law_def discover_def resolved_def)
  with a op(3) show ?thesis using set_update_subset_insert unfolding dns_addrs_def by fastforce
qed (use a in \<open>simp add: dns_addrs_def\<close>)

interpretation addrs: invariant_system "\<lambda>st. st = dns_new" "dns_step LB"
  "\<lambda>st. dns_invar st \<and> (lb_law LB view \<longrightarrow> dns_addrs view st)" for LB view
proof
  fix st :: "'a dns_state"
  assume "st = dns_new"
  then show "dns_invar st \<and> (lb_law LB view \<longrightarrow> dns_addrs view st)"
    using dns_invar_new by (simp add: dns_addrs_def dns_new_def)
next
  fix st st' :: "'a dns_state"
  assume "dns_invar st \<and> (lb_law LB view \<longrightarrow> dns_addrs view st)" and "dns_step LB st st'"
  then show "dns_invar st' \<and> (lb_law LB view \<longrightarrow> dns_addrs view st')"
    using dns_invar_step dns_addrs_step unfolding dns_invar_def by blast
qed

lemma dns_address:
  assumes "(dns_step LB)\<^sup>*\<^sup>* dns_new st" and "lb_law LB view" and "h < length (handles st)"
    and "b \<in> backends (handles st ! h) \<union> view (round_robin (handles st ! h)) \<union> view (consistent (handles st ! h))"
  shows "\<exists>ip. b = Backend (Inet ip (snd (h_host_port (handles st ! h)))) 1"
proof -
  have "dns_addrs view st" using addrs.invar_reachable [OF refl assms(1), of view] assms(2) by blast
  then have "from_dns view (handles st ! h)" using assms(3) by (simp add: dns_addrs_def)
  with assms(4) show ?thesis unfolding from_dns_def by blast
qed

section \<open>Properties\<close>

text \<open>A run: one client gets a handle, its loop is spawned, resolves one address, passes it on and
  reports readiness. The load balancers of this instance are the sets they select from.\<close>

definition demo_lb :: "Backend set load_balancing" where
  "demo_lb = \<lparr>lb_new = {}, lb_update = (\<lambda>_ d. fst d)\<rparr>"

definition demo_spawned :: "Backend set dns_state" where
  "demo_spawned = \<lparr>handles = [new_handle demo_lb (''redis'', 6379)],
     service_backends = [(''redis'', 6379) \<mapsto> 0], service_commands = [],
     loops = [\<lparr>l_host_port = (''redis'', 6379), l_chan = 0, l_pc = Resolving 0\<rparr>]\<rparr>"

definition demo_passed_on :: "Backend set dns_state" where
  "demo_passed_on = loop_update_cons demo_lb 0 0 (loop_update_rr demo_lb 0 0 (loop_publish 0 0 [42] demo_spawned))"

text \<open>The steps of the run; the client's reference is there in every state of it.\<close>

lemma demo_spawned_steps:
  defines "s1 \<equiv> snd (backends_for_hostname demo_lb ''redis'' 6379 dns_new)"
  defines "s2 \<equiv> s1\<lparr>service_commands := [], loops := [\<lparr>l_host_port = (''redis'', 6379), l_chan = 0, l_pc = Starting\<rparr>]\<rparr>"
  shows "dns_step demo_lb s1 s2" and "clients (handles s2 ! 0) > 0"
    and "dns_step demo_lb s2 demo_spawned" and "clients (handles demo_spawned ! 0) > 0"
proof -
  note d = s1_def s2_def backends_for_hostname_def dns_new_def new_handle_def Let_def
  show "dns_step demo_lb s1 s2" by (rule dns_step.recv) (simp add: d service_recv_def)
  show "dns_step demo_lb s2 demo_spawned"
    by (rule dns_step.start [of 0]) (simp_all add: d loop_begin_def set_pc_def demo_spawned_def)
qed (simp_all add: s1_def s2_def backends_for_hostname_def dns_new_def demo_spawned_def new_handle_def Let_def)

lemma demo_spawned_run:
  "(dns_step demo_lb)\<^sup>*\<^sup>* (snd (backends_for_hostname demo_lb ''redis'' 6379 dns_new)) demo_spawned"
  using demo_spawned_steps(1,3) by (meson converse_rtranclp_into_rtranclp r_into_rtranclp)

lemma demo_spawned_reachable: "(dns_step demo_lb)\<^sup>*\<^sup>* dns_new demo_spawned"
  using dns_step.get demo_spawned_run by (rule converse_rtranclp_into_rtranclp)

lemma demo_passed_on_steps:
  defines "p \<equiv> loop_publish 0 0 [42] demo_spawned"
  shows "dns_step demo_lb demo_spawned p" and "clients (handles p ! 0) > 0"
    and "dns_step demo_lb p (loop_update_rr demo_lb 0 0 p)" and "clients (handles (loop_update_rr demo_lb 0 0 p) ! 0) > 0"
    and "dns_step demo_lb (loop_update_rr demo_lb 0 0 p) demo_passed_on" and "clients (handles demo_passed_on ! 0) > 0"
proof -
  note d = p_def loop_publish_def demo_spawned_def new_handle_def resolved_def set_pc_def
    upd_handle_def upgrade_def strong_count_def Let_def
  have p: "l_pc (loops p ! 0) = UpdatingRR 0" "length (loops p) = 1" by (simp_all add: d)
  show "dns_step demo_lb demo_spawned p"
    unfolding p_def by (rule dns_step.publish) (simp_all add: demo_spawned_def)
  show "dns_step demo_lb p (loop_update_rr demo_lb 0 0 p)"
    by (rule dns_step.update_rr) (simp_all add: p)
  show "dns_step demo_lb (loop_update_rr demo_lb 0 0 p) demo_passed_on"
    unfolding demo_passed_on_def p_def [symmetric]
    by (rule dns_step.update_cons) (simp_all add: loop_update_rr_def set_pc_def p)
  show "clients (handles p ! 0) > 0" "clients (handles (loop_update_rr demo_lb 0 0 p) ! 0) > 0"
    "clients (handles demo_passed_on ! 0) > 0"
    by (simp_all add: d demo_passed_on_def loop_update_rr_def loop_update_cons_def)
qed

lemma demo_passed_on_run: "(dns_step demo_lb)\<^sup>*\<^sup>* demo_spawned demo_passed_on"
  by (rule three_steps [of "dns_step demo_lb", OF demo_passed_on_steps(1,3,5)])

text \<open>A step in which a handle keeps a client.\<close>

definition kept_step :: "'lb load_balancing \<Rightarrow> nat \<Rightarrow> 'lb dns_state \<Rightarrow> 'lb dns_state \<Rightarrow> bool" where
  "kept_step LB h st st' \<longleftrightarrow> dns_step LB st st' \<and> clients (handles st' ! h) > 0"

lemma demo_passed_on_handle:
  "handles demo_passed_on \<noteq> []" "round_robin (handles demo_passed_on ! 0) = {Backend (Inet 42 6379) 1}"
  by (simp_all add: demo_passed_on_def loop_update_cons_def loop_update_rr_def loop_publish_def demo_spawned_def
      upd_handle_def set_pc_def new_handle_def demo_lb_def discover_def resolved_def upgrade_def strong_count_def updating_def Let_def)

lemma demo_passed_on_reachable: "(dns_step demo_lb)\<^sup>*\<^sup>* dns_new demo_passed_on"
  using demo_spawned_reachable demo_passed_on_run by (rule rtranclp_trans)

lemma demo_lb_law: "lb_law demo_lb (\<lambda>b. b)"
  by (simp add: lb_law_def demo_lb_def)

lemma demo_ready_run:
  "dns_step demo_lb demo_passed_on (loop_check 0 0 demo_passed_on)"
  "h_ready (handles (loop_check 0 0 demo_passed_on) ! 0)"
  "backends (handles (loop_check 0 0 demo_passed_on) ! 0) = {Backend (Inet 42 6379) 1}"
  "clients (handles (loop_check 0 0 demo_passed_on) ! 0) > 0"
  "\<forall>l \<in> set (loops (loop_check 0 0 demo_passed_on)). \<not> updating 0 l"
proof -
  note d = demo_passed_on_def loop_update_cons_def loop_update_rr_def loop_publish_def demo_spawned_def
    new_handle_def resolved_def set_pc_def upd_handle_def upgrade_def strong_count_def Let_def
  have p: "l_pc (loops demo_passed_on ! 0) = Checking 0" "length (loops demo_passed_on) = 1" by (simp_all add: d)
  show "dns_step demo_lb demo_passed_on (loop_check 0 0 demo_passed_on)"
    by (rule dns_step.check) (simp_all add: p)
  show "h_ready (handles (loop_check 0 0 demo_passed_on) ! 0)"
    "backends (handles (loop_check 0 0 demo_passed_on) ! 0) = {Backend (Inet 42 6379) 1}"
    "clients (handles (loop_check 0 0 demo_passed_on) ! 0) > 0"
    "\<forall>l \<in> set (loops (loop_check 0 0 demo_passed_on)). \<not> updating 0 l"
    by (simp_all add: loop_check_def d updating_def)
qed

lemma demo_kept_run:
  "(kept_step demo_lb 0)\<^sup>*\<^sup>* (snd (backends_for_hostname demo_lb ''redis'' 6379 dns_new)) (loop_check 0 0 demo_passed_on)"
proof -
  have "(kept_step demo_lb 0)\<^sup>*\<^sup>* (snd (backends_for_hostname demo_lb ''redis'' 6379 dns_new)) demo_spawned"
    using demo_spawned_steps unfolding kept_step_def [symmetric]
    by (meson converse_rtranclp_into_rtranclp kept_step_def r_into_rtranclp)
  moreover have "(kept_step demo_lb 0)\<^sup>*\<^sup>* demo_spawned demo_passed_on"
    by (rule three_steps [of "kept_step demo_lb 0"]) (unfold kept_step_def, rule conjI [OF demo_passed_on_steps(1,2)],
        rule conjI [OF demo_passed_on_steps(3,4)], rule conjI [OF demo_passed_on_steps(5,6)])
  moreover have "kept_step demo_lb 0 demo_passed_on (loop_check 0 0 demo_passed_on)"
    using demo_ready_run by (simp add: kept_step_def)
  ultimately show ?thesis by (meson rtranclp.rtrancl_into_rtrancl rtranclp_trans)
qed

text \<open>C10. Every handle that somebody holds is being looked after: in every interleaving it is the
  handle that the table returns for its host and port, and the command that spawns its refresh loop
  is still queued, or that loop is running and watches this very handle.\<close>

theorem live_handle_is_refreshed:
  assumes "(dns_step LB)\<^sup>*\<^sup>* dns_new st" and "live st h"
  shows "service_backends st (h_host_port (handles st ! h)) = Some h
    \<and> ((\<exists>c \<in> set (service_commands st). cmd_chan c = h)
       \<or> (\<exists>i < length (loops st). attached h (loops st ! i)))"
  using dns.invar_reachable [OF refl assms(1)] assms(2)
  by (auto simp: dns_invar_def dns_live_def tended_def)

theorem live_handle_is_refreshed_witness:
  "live demo_spawned 0 \<and> service_backends demo_spawned (''redis'', 6379) = Some 0
   \<and> attached 0 (loops demo_spawned ! 0)"
proof -
  have l: "live demo_spawned 0"
    by (simp add: live_def demo_spawned_def new_handle_def strong_count_def)
  show ?thesis
    using live_handle_is_refreshed [OF demo_spawned_reachable l] l
    by (simp add: demo_spawned_def new_handle_def)
qed

lemma balancers_in_step:
  assumes "(dns_step LB)\<^sup>*\<^sup>* dns_new st" and "lb_law LB view" and "live st h"
    and "\<And>l. l \<in> set (loops st) \<Longrightarrow> l_chan l = h \<Longrightarrow> \<not> updating h l"
  shows "view (round_robin (handles st ! h)) = backends (handles st ! h)
    \<and> view (consistent (handles st ! h)) = backends (handles st ! h)"
proof -
  have "dns_sync view st" using dns.invar_reachable [OF refl assms(1), of view] assms(2) by simp
  with assms(3) consider "in_step view (handles st ! h)"
    | i where "i < length (loops st)" "passing_on view (handles st ! h) h (loops st ! i)"
    by (auto simp: dns_sync_def)
  then show ?thesis
  proof cases
    case 1
    then show ?thesis by (simp add: in_step_def)
  next
    case (2 i)
    then show ?thesis using assms(4) [of "loops st ! i"] by (auto simp: passing_on_def updating_def)
  qed
qed

text \<open>C12. Load balancing follows DNS: in every interleaving, both load balancers of a held handle
  select from exactly the watched set of backends, unless that handle's own loop is at this moment
  between publishing a new set and passing it on.\<close>

theorem load_balancers_follow_watch:
  assumes "(dns_step LB)\<^sup>*\<^sup>* dns_new st" and "lb_law LB view" and "live st h"
    and "\<And>l. l \<in> set (loops st) \<Longrightarrow> l_chan l = h \<Longrightarrow> \<not> updating h l"
  shows "view (round_robin (handles st ! h)) = backends (handles st ! h)
    \<and> view (consistent (handles st ! h)) = backends (handles st ! h)"
  using assms by (rule balancers_in_step)

theorem load_balancers_follow_watch_witness:
  "round_robin (handles demo_passed_on ! 0) = {Backend (Inet 42 6379) 1}
   \<and> consistent (handles demo_passed_on ! 0) = {Backend (Inet 42 6379) 1}"
proof -
  note d = demo_passed_on_def loop_update_cons_def loop_update_rr_def loop_publish_def demo_spawned_def
    new_handle_def resolved_def set_pc_def upd_handle_def upgrade_def strong_count_def Let_def
  have "live demo_passed_on 0" by (simp add: live_def d)
  moreover have "lb_law demo_lb (\<lambda>b. b)" by (simp add: lb_law_def demo_lb_def)
  moreover have "\<not> updating 0 l" if "l \<in> set (loops demo_passed_on)" for l
    using that by (simp add: updating_def d)
  moreover have "backends (handles demo_passed_on ! 0) = {Backend (Inet 42 6379) 1}" by (simp add: d)
  ultimately show ?thesis
    using load_balancers_follow_watch [OF demo_passed_on_reachable, of "\<lambda>b. b" 0] by simp
qed

subsection \<open>Readiness and the end of a loop\<close>

lemma upd_handle_ready:
  "(h_ready (handles st ! k) \<Longrightarrow> h_ready (f (handles st ! k))) \<Longrightarrow> h < length (handles st) \<Longrightarrow>
     h_ready (handles st ! h) \<Longrightarrow> h_ready (handles (upd_handle k f st) ! h)"
  by (cases "h = k") (simp_all add: upd_handle_def)

lemma ready_step:
  assumes "dns_step LB st st'" and "h < length (handles st)" and "h_ready (handles st ! h)"
  shows "h < length (handles st') \<and> h_ready (handles st' ! h)"
  using assms(1)
proof cases
  case (get hostname prt)
  show ?thesis
    by (cases rule: get_cases [of st hostname prt LB])
      (use get assms(2,3) in \<open>auto simp: with_new_def nth_append add_client_def intro!: upd_handle_ready\<close>)
next
  case recv
  then show ?thesis by (rule recv_cases) (use assms(2,3) in simp)
qed (use assms(2,3) in \<open>auto simp: loop_ops add_client_def remove_client_def Let_def
      intro!: upd_handle_ready\<close>)

text \<open>The watched sets are finite.\<close>

lemma finite_backends_step:
  assumes "dns_shape st" and "dns_step LB st st'" and fin: "\<forall>h \<in> set (handles st). finite (backends h)"
  shows "\<forall>h \<in> set (handles st'). finite (backends h)"
  using assms(1,2)
proof (cases rule: step_handles)
  case (op k h')
  then have "finite (backends (handles st ! k))" using fin by simp
  with op(2) have "finite (backends h')"
    by (auto simp: handle_op_def add_client_def remove_client_def resolved_def)
  with fin op(3) show ?thesis using set_update_subset_insert by fastforce
qed (use fin in \<open>simp_all add: new_handle_def\<close>)

interpretation fin: invariant_system "\<lambda>st. st = dns_new" "dns_step LB"
  "\<lambda>st. dns_shape st \<and> (\<forall>h \<in> set (handles st). finite (backends h))" for LB
  using dns_invar_new
  by unfold_locales (auto simp: dns_invar_def dns_new_def intro: dns_shape_step dest: finite_backends_step)

lemma finite_backends:
  assumes "(dns_step LB)\<^sup>*\<^sup>* dns_new st" and "h < length (handles st)"
  shows "finite (backends (handles st ! h))"
  using fin.invar_reachable [OF refl assms(1)] assms(2) by simp

lemma handles_grow: "dns_step LB st st' \<Longrightarrow> length (handles st) \<le> length (handles st')"
  by (cases rule: dns_step.cases) (auto simp: loop_ops Let_def backends_for_hostname_def
      split: option.splits elim!: recv_cases)

lemma ready_run:
  "(dns_step LB)\<^sup>*\<^sup>* st st' \<Longrightarrow> h < length (handles st) \<and> h_ready (handles st ! h) \<Longrightarrow>
     h < length (handles st') \<and> h_ready (handles st' ! h)"
  by (induction rule: rtranclp_induct) (auto dest: ready_step)

lemma dead_run:
  assumes "(dns_step LB)\<^sup>*\<^sup>* st st'" and "dns_invar st" and "h < length (handles st)" and "\<not> live st h"
  shows "h < length (handles st') \<and> \<not> live st' h"
proof -
  have "dns_invar st' \<and> h < length (handles st') \<and> \<not> live st' h"
    using assms(1)
  proof (induction rule: rtranclp_induct)
    case (step u v)
    then have "dns_invar u" "h < length (handles u)" "\<not> live u h" by auto
    moreover have "length (handles u) \<le> length (handles v)" using step.hyps(2) by (rule handles_grow)
    ultimately show ?case
      using step.hyps(2) live_step [of u LB v h] dns_invar_step [of u LB v]
      by (auto simp: dns_invar_def)
  qed (use assms in simp)
  then show ?thesis by simp
qed

text \<open>A fresh handle is dropped by its only client while its loop awaits the resolver.\<close>

definition demo_dropped :: "Backend set dns_state" where
  "demo_dropped = upd_handle 0 remove_client demo_spawned"

lemma demo_dropped_reachable: "(dns_step demo_lb)\<^sup>*\<^sup>* dns_new demo_dropped"
  unfolding demo_dropped_def
  by (rule rtranclp.rtrancl_into_rtrancl [OF demo_spawned_reachable])
    (rule dns_step.drop, simp_all add: demo_spawned_def new_handle_def)

text \<open>A handle that is ready stays ready, in every interleaving, as the documentation of its
  \<open>ready\<close> watch says.\<close>

lemma ready_is_latched:
  assumes "(dns_step LB)\<^sup>*\<^sup>* st st'" and "h < length (handles st)" and "h_ready (handles st ! h)"
  shows "h_ready (handles st' ! h)"
  using ready_run [OF assms(1)] assms(2,3) by blast

text \<open>C31. A refresh loop ends after its handle: when the last reference to the handle that a loop
  watches is gone, no interleaving brings it back, and the loop stops at its next turn, whether the
  resolver then fails or answers.\<close>

theorem loop_of_dead_handle_stops:
  assumes "(dns_step LB)\<^sup>*\<^sup>* dns_new st" and "h < length (handles st)" and "strong_count st h = 0"
    and "(dns_step LB)\<^sup>*\<^sup>* st st'" and "i < length (loops st')" and "l_pc (loops st' ! i) = Resolving h"
  shows "strong_count st' h = 0
    \<and> l_pc (loops (loop_lookup_failed i h st') ! i) = Stopped
    \<and> l_pc (loops (loop_check i h (loop_publish i h addrs st')) ! i) = Stopped"
proof -
  have inv: "dns_invar st" "dns_invar st'"
    using dns.invar_reachable [OF refl assms(1)]
      dns.invar_reachable [OF refl rtranclp_trans [OF assms(1,4)]] by auto
  have d: "strong_count st' h = 0" "h < length (handles st')"
    using dead_run [OF assms(4) inv(1) assms(2)] assms(3) by (auto simp: live_def)
  have c: "l_chan (loops st' ! i) < length (handles st')"
    using inv(2) shape_loop(1) [OF _ assms(5)] by (simp add: dns_invar_def)
  have "loop_publish i h addrs st' = set_pc i (Checking h)
      (if backends (handles st' ! l_chan (loops st' ! i)) \<noteq> resolved (snd (l_host_port (loops st' ! i))) addrs
       then upd_handle (l_chan (loops st' ! i))
         (\<lambda>h. h\<lparr>backends := resolved (snd (l_host_port (loops st' ! i))) addrs\<rparr>) st' else st')" (is "_ = set_pc i _ ?st")
    using d(1) c by (simp add: loop_publish_def Let_def upgrade_def strong_upd_handle)
  moreover have "strong_count (set_pc i (Checking h) ?st) h = 0"
  proof -
    have "strong_count ?st h = 0" using d(1) c by (simp add: strong_upd_handle)
    then show ?thesis using strong_set_pc [of i ?st "Checking h" h] assms(5) by simp
  qed
  ultimately show ?thesis
    using d(1) assms(5) by (simp add: loop_lookup_failed_def loop_check_def loops_set_pc)
qed

theorem loop_of_dead_handle_stops_witness:
  "strong_count demo_dropped 0 = 0
   \<and> l_pc (loops (loop_lookup_failed 0 0 demo_dropped) ! 0) = Stopped
   \<and> l_pc (loops (loop_check 0 0 (loop_publish 0 0 [42] demo_dropped)) ! 0) = Stopped"
proof -
  note d = demo_dropped_def demo_spawned_def upd_handle_def remove_client_def new_handle_def
    strong_count_def updating_def
  show ?thesis
    using loop_of_dead_handle_stops [OF demo_dropped_reachable _ _ rtranclp.rtrancl_refl, of 0 0]
    by (simp add: d)
qed

end
