(* ===== verification/Service_Store.thy ===== *)
theory Service_Store
  imports Health Resource_Change Service_Spec Descriptor_Set Discovery "HOL-Library.Multiset"
begin

text \<open>
  \<open>grcache-proxy/src/service_store.rs\<close>: the routing table of the proxy and the background service that
  keeps it up to date with the \<open>GrcacheService\<close> resources of the cluster. The state has the service's
  own \<open>ServiceConfigState\<close>, the shared table \<open>ServiceConfigInner\<close> that the proxy reads, the loading
  tasks that were spawned and have not finished, the discovery table the service takes handles from,
  and the readiness world its endpoint reports to. Kubernetes metadata, \<open>ObjectRef::from_obj\<close>, the
  protobuf library and the descriptor sources are parameters.

  The steps are the changes the watch delivers, the completion or the panic of any spawned task, in
  any order, and the activity of discovery. The lemmas show that the reference sets agree with the
  stored resources, that published generations never go back, that the order in which tasks finish
  does not matter, and that without renames every service is routed as its least resource says.
\<close>

section \<open>Data\<close>

record 'md ServiceData =
  generation :: usize
  service_spec :: "'md ServiceSpec option"
  load_balancer :: "nat option"

text \<open>A spawned loading task: what its \<open>async move\<close> block captured.\<close>

record task =
  t_generation :: usize
  t_source :: DescriptorSetSource
  t_services :: "(string \<times> QualifiedService) list"
  t_load_balancer :: nat

record ('m, 'md, 'lb) config_state =
  spec_generation :: usize
  raw_services :: "ObjectRef \<rightharpoonup> 'm GrcacheService"
  ref_by_grpc_service :: "string \<rightharpoonup> ObjectRef set"
  services :: "string \<rightharpoonup> 'md ServiceData"
  config_ready :: bool
  tasks :: "task list"
  discovery :: "'lb dns_state"
  health :: world

definition config_init :: "'lb dns_state \<Rightarrow> world \<Rightarrow> ('m, 'md, 'lb) config_state" where
  "config_init d w = \<lparr>spec_generation = 0, raw_services = Map.empty, ref_by_grpc_service = Map.empty,
     services = Map.empty, config_ready = False, tasks = [], discovery = d, health = w\<rparr>"

text \<open>\<open>K8SConfigService::new\<close>: the number of the readiness endpoint, and the shared \<open>ServiceConfigInner\<close>, not
  ready and without routes.\<close>

record 'md K8SConfigService =
  k_health :: nat
  k_ready :: bool
  k_services :: "string \<rightharpoonup> 'md ServiceData"

definition K8SConfigService_new :: "nat \<Rightarrow> 'md K8SConfigService" where
  "K8SConfigService_new ep = \<lparr>k_health = ep, k_ready = False, k_services = Map.empty\<rparr>"

text \<open>The part of \<open>start\<close> before its loop: the Kubernetes client, then the state. \<open>client\<close> is what
  \<open>Client::try_default\<close> returned.\<close>

definition K8SConfigService_start ::
    "unit option \<Rightarrow> 'md K8SConfigService \<Rightarrow> 'lb dns_state \<Rightarrow> world \<Rightarrow> ('m, 'md, 'lb) config_state outcome" where
  "K8SConfigService_start client k d w =
     bind_outcome (unwrap client) (\<lambda>k8s_client.
       Returns \<lparr>spec_generation = 0, raw_services = Map.empty, ref_by_grpc_service = Map.empty,
         services = k_services k, config_ready = k_ready k, tasks = [], discovery = d, health = w\<rparr>)"

lemma config_start:
  "K8SConfigService_start client (K8SConfigService_new ep) d w = bind_outcome (unwrap client) (\<lambda>_. Returns (config_init d w))"
  by (simp add: K8SConfigService_start_def K8SConfigService_new_def config_init_def)

section \<open>Operations\<close>

text \<open>\<open>update_service_if_newer\<close>: the closure given to \<open>compute\<close>, then the log line, whose argument
  unwraps the specification that was put in; both callers put in one.\<close>

definition compute_newer :: "'md ServiceData \<Rightarrow> 'md ServiceData option \<Rightarrow> 'md ServiceData option" where
  "compute_newer data kv =
     (case kv of
        Some value \<Rightarrow> if generation value < generation data then Some data else None
      | None \<Rightarrow> Some data)"

definition update_service_if_newer ::
    "string \<Rightarrow> 'md ServiceData \<Rightarrow> (string \<rightharpoonup> 'md ServiceData) \<Rightarrow> (string \<rightharpoonup> 'md ServiceData) outcome" where
  "update_service_if_newer nm data svcs =
     (case compute_newer data (svcs nm) of
        Some new \<Rightarrow> bind_outcome (unwrap (service_spec data)) (\<lambda>_. Returns (svcs(nm \<mapsto> new)))
      | None \<Rightarrow> Returns svcs)"

text \<open>\<open>Iterator::min_by_key\<close>: the first of the least elements.\<close>

fun min_by_key :: "('a \<Rightarrow> 'b :: linorder) \<Rightarrow> 'a list \<Rightarrow> 'a option" where
  "min_by_key f [] = None"
| "min_by_key f (x # xs) =
     (case min_by_key f xs of
        None \<Rightarrow> Some x
      | Some y \<Rightarrow> if f y < f x then Some y else Some x)"

abbreviation ref_key :: "ObjectRef \<Rightarrow> string option \<times> string" where
  "ref_key r \<equiv> (ref_namespace r, ref_name r)"

definition update_service ::
    "'lb load_balancing \<Rightarrow> (ObjectRef set \<Rightarrow> ObjectRef list) \<Rightarrow> string
      \<Rightarrow> ('m, 'md, 'lb) config_state \<Rightarrow> ('m, 'md, 'lb) config_state outcome" where
  "update_service LB ord grpc_service st =
     bind_outcome (unwrap (ref_by_grpc_service st grpc_service)) (\<lambda>objects.
       let gen = spec_generation st; st' = st\<lparr>spec_generation := spec_generation st + 1\<rparr> in
       if objects = {} then
         Returns (st'\<lparr>services := (services st)(grpc_service \<mapsto>
           \<lparr>generation = gen, service_spec = None, load_balancer = None\<rparr>)\<rparr>)
       else
         bind_outcome (unwrap (min_by_key ref_key (ord objects))) (\<lambda>object_ref.
         bind_outcome (unwrap (raw_services st object_ref)) (\<lambda>object.
           let nm = service_name (spec object) in
           bind_outcome (unwrap_result (QualifiedService_parse nm)) (\<lambda>q.
             let svcs = [(nm, q)] in
             case upstream (spec object) of Dns u p \<Rightarrow>
               (let (lb, d) = backends_for_hostname LB u p (discovery st) in
                case descriptor_set_source (spec object) of
                  Some source \<Rightarrow>
                    Returns (st'\<lparr>discovery := d, tasks := tasks st @ [\<lparr>t_generation = gen,
                      t_source = source, t_services = svcs, t_load_balancer = lb\<rparr>]\<rparr>)
                | None \<Rightarrow>
                    bind_outcome
                      (fold_outcome (\<lambda>(_, q) m. update_service_if_newer nm
                         \<lparr>generation = gen, service_spec = Some (build_passthrough q),
                          load_balancer = Some lb\<rparr> m) svcs (services st))
                      (\<lambda>m. Returns (st'\<lparr>discovery := d, services := m\<rparr>)))))))"

definition remove_noupdate ::
    "ObjectRef \<Rightarrow> ('m, 'md, 'lb) config_state
      \<Rightarrow> ('m GrcacheService option \<times> ('m, 'md, 'lb) config_state) outcome" where
  "remove_noupdate object_ref st =
     (let previous = raw_services st object_ref;
          st' = st\<lparr>raw_services := (raw_services st)(object_ref := None)\<rparr>
      in case previous of
           None \<Rightarrow> Returns (None, st')
         | Some prev \<Rightarrow>
             (let nm = service_name (spec prev) in
              bind_outcome (unwrap (ref_by_grpc_service st nm)) (\<lambda>refs.
                Returns (Some prev,
                  st'\<lparr>ref_by_grpc_service := (ref_by_grpc_service st)(nm \<mapsto> refs - {object_ref})\<rparr>))))"

definition config_remove ::
    "'lb load_balancing \<Rightarrow> (ObjectRef set \<Rightarrow> ObjectRef list) \<Rightarrow> ObjectRef
      \<Rightarrow> ('m, 'md, 'lb) config_state \<Rightarrow> ('m, 'md, 'lb) config_state outcome" where
  "config_remove LB ord object_ref st =
     bind_outcome (remove_noupdate object_ref st) (\<lambda>(previous, st').
       case previous of
         Some prev \<Rightarrow> update_service LB ord (service_name (spec prev)) st'
       | None \<Rightarrow> Returns st')"

definition config_apply ::
    "('m GrcacheService \<Rightarrow> ObjectRef) \<Rightarrow> 'lb load_balancing \<Rightarrow> (ObjectRef set \<Rightarrow> ObjectRef list)
      \<Rightarrow> 'm GrcacheService \<Rightarrow> ('m, 'md, 'lb) config_state \<Rightarrow> ('m, 'md, 'lb) config_state outcome" where
  "config_apply from_obj LB ord object st =
     (let object_ref = from_obj object in
      bind_outcome (remove_noupdate object_ref st) (\<lambda>(_, st1).
        let nm = service_name (spec object);
            refs = (case ref_by_grpc_service st1 nm of Some s \<Rightarrow> s | None \<Rightarrow> {})
        in update_service LB ord nm
             (st1\<lparr>raw_services := (raw_services st1)(object_ref \<mapsto> object),
                ref_by_grpc_service := (ref_by_grpc_service st1)(nm \<mapsto> insert object_ref refs)\<rparr>)))"

text \<open>One turn of the service's loop. \<open>ep\<close> is the number of its readiness endpoint.\<close>

definition handle_change ::
    "('m GrcacheService \<Rightarrow> ObjectRef) \<Rightarrow> 'lb load_balancing \<Rightarrow> (ObjectRef set \<Rightarrow> ObjectRef list) \<Rightarrow> nat
      \<Rightarrow> 'e + ('m GrcacheService, ObjectRef) ResourceChange
      \<Rightarrow> ('m, 'md, 'lb) config_state \<Rightarrow> ('m, 'md, 'lb) config_state outcome" where
  "handle_change from_obj LB ord ep change st =
     (case change of
        Inr Ready \<Rightarrow> Returns (st\<lparr>config_ready := True, health := world_ready ep (health st)\<rparr>)
      | Inr (Apply object) \<Rightarrow> config_apply from_obj LB ord object st
      | Inr (Delete object_ref) \<Rightarrow> config_remove LB ord object_ref st
      | Inl err \<Rightarrow> Returns st)"

text \<open>What the stream of changes gives next; its end is \<open>unreachable!()\<close>.\<close>

definition handle_next ::
    "('m GrcacheService \<Rightarrow> ObjectRef) \<Rightarrow> 'lb load_balancing \<Rightarrow> (ObjectRef set \<Rightarrow> ObjectRef list) \<Rightarrow> nat
      \<Rightarrow> ('e + ('m GrcacheService, ObjectRef) ResourceChange) option
      \<Rightarrow> ('m, 'md, 'lb) config_state \<Rightarrow> ('m, 'md, 'lb) config_state outcome" where
  "handle_next from_obj LB ord ep change st =
     (case change of Some c \<Rightarrow> handle_change from_obj LB ord ep c st | None \<Rightarrow> Panic)"

text \<open>The body of a loading task: the fetch, and the updates with the fetched descriptors.\<close>

definition publish_task ::
    "('pe, 'fdp, 'fd, 'sd, 'md) protobuf \<Rightarrow> task \<Rightarrow> 'fdp list
      \<Rightarrow> (string \<rightharpoonup> 'md ServiceData) \<Rightarrow> (string \<rightharpoonup> 'md ServiceData) outcome" where
  "publish_task P t descriptor_set svcs =
     fold_outcome (\<lambda>(nm, q) m.
       bind_outcome (unwrap_result (ServiceSpec_build P descriptor_set q)) (\<lambda>(sp, _).
         update_service_if_newer nm \<lparr>generation = t_generation t, service_spec = Some sp,
           load_balancer = Some (t_load_balancer t)\<rparr> m))
       (t_services t) svcs"

definition run_task ::
    "('io, 'b64, 'pf, 'f, 'dig, 'fdp list) fetcher \<Rightarrow> 'any bucket_context
      \<Rightarrow> ('pe, 'fdp, 'fd, 'sd, 'md) protobuf \<Rightarrow> task
      \<Rightarrow> (string \<rightharpoonup> 'md ServiceData) \<Rightarrow> (string \<rightharpoonup> 'md ServiceData) outcome" where
  "run_task F context P t svcs =
     bind_outcome (from_source F context (t_source t)) (\<lambda>fetched.
     bind_outcome (unwrap_result fetched) (\<lambda>descriptor_set. publish_task P t descriptor_set svcs))"

section \<open>Interleavings\<close>

text \<open>What may happen next: the watch delivers a change, the task at some position finishes with the
  descriptors it fetched or panics, discovery takes a step. A task that panics has published
  nothing: its updates come last. An error of the watch is only logged, so its value does not matter.\<close>

datatype 'm config_event =
    Changed "unit + ('m GrcacheService, ObjectRef) ResourceChange"
  | TaskDone nat
  | TaskPanicked nat
  | DiscoveryStep

definition drop_nth :: "nat \<Rightarrow> 'a list \<Rightarrow> 'a list" where
  "drop_nth i xs = take i xs @ drop (Suc i) xs"

text \<open>The handles that the routing table or a loading task has a reference to.\<close>

definition held :: "('m, 'md, 'lb) config_state \<Rightarrow> nat \<Rightarrow> bool" where
  "held st h \<longleftrightarrow> (\<exists>n data. services st n = Some data \<and> load_balancer data = Some h)
     \<or> (\<exists>t \<in> set (tasks st). t_load_balancer t = h)"

text \<open>Discovery moves on, and requests and replaced table entries drop their references to handles; the
  references in the table and in the tasks are counted as long as they are there.\<close>

inductive config_step ::
    "('m GrcacheService \<Rightarrow> ObjectRef) \<Rightarrow> 'lb load_balancing \<Rightarrow> nat \<Rightarrow> ('pe, 'fdp, 'fd, 'sd, 'md) protobuf
      \<Rightarrow> 'm config_event \<Rightarrow> ('m, 'md, 'lb) config_state \<Rightarrow> ('m, 'md, 'lb) config_state \<Rightarrow> bool"
  for from_obj :: "'m GrcacheService \<Rightarrow> ObjectRef" and LB :: "'lb load_balancing" and ep :: nat
    and P :: "('pe, 'fdp, 'fd, 'sd, 'md) protobuf" where
  changed: "hash_order ord \<Longrightarrow> handle_change from_obj LB ord ep c st = Returns st' \<Longrightarrow>
     config_step from_obj LB ep P (Changed c) st st'"
| task_done: "i < length (tasks st) \<Longrightarrow> publish_task P (tasks st ! i) descriptor_set (services st) = Returns m \<Longrightarrow>
     config_step from_obj LB ep P (TaskDone i) st (st\<lparr>services := m, tasks := drop_nth i (tasks st)\<rparr>)"
| task_panicked: "i < length (tasks st) \<Longrightarrow>
     config_step from_obj LB ep P (TaskPanicked i) st (st\<lparr>tasks := drop_nth i (tasks st)\<rparr>)"
| discovery_step: "dns_step LB (discovery st) d \<Longrightarrow> (\<And>h. held st h \<Longrightarrow> clients (handles d ! h) > 0) \<Longrightarrow>
     config_step from_obj LB ep P DiscoveryStep st (st\<lparr>discovery := d\<rparr>)"

inductive_cases config_stepE: "config_step from_obj LB ep P ev st st'"

section \<open>Choosing an object\<close>

lemma min_by_key_None [simp]: "min_by_key f xs = None \<longleftrightarrow> xs = []"
  by (cases xs) (auto split: option.splits)

lemma min_by_key_Some:
  "min_by_key f xs = Some x \<Longrightarrow> x \<in> set xs \<and> (\<forall>y \<in> set xs. f x \<le> f y)"
proof (induction xs arbitrary: x)
  case (Cons a xs)
  show ?case
  proof (cases "min_by_key f xs")
    case None
    with Cons.prems show ?thesis by simp
  next
    case (Some y)
    with Cons.IH [OF Some] Cons.prems show ?thesis by (auto split: if_splits)
  qed
qed simp

lemma ref_key_inj: "ref_key a = ref_key b \<longleftrightarrow> a = b"
  by (cases a; cases b) auto

text \<open>The least reference of a set, by namespace, then name.\<close>

definition least_ref :: "ObjectRef set \<Rightarrow> ObjectRef \<Rightarrow> bool" where
  "least_ref S r \<longleftrightarrow> r \<in> S \<and> (\<forall>r' \<in> S. ref_key r \<le> ref_key r')"

lemma least_ref_unique: "least_ref S r \<Longrightarrow> least_ref S r' \<Longrightarrow> r = r'"
  unfolding least_ref_def by (metis order_antisym ref_key_inj)

lemma min_by_key_enum:
  assumes "hash_order ord" and "finite S" and "S \<noteq> {}"
  shows "min_by_key ref_key (ord S) = Some r \<longleftrightarrow> least_ref S r"
proof -
  have s: "set (ord S) = S" using assms by (simp add: hash_order_def enumerates_def)
  with assms(3) have "ord S \<noteq> []" by auto
  then obtain m where m: "min_by_key ref_key (ord S) = Some m"
    by (cases "min_by_key ref_key (ord S)") auto
  then have "least_ref S m" using min_by_key_Some [OF m] s by (auto simp: least_ref_def)
  with m show ?thesis using least_ref_unique by auto
qed

lemma least_ref_ex:
  assumes "finite S" and "S \<noteq> {}"
  shows "\<exists>r. least_ref S r"
proof -
  obtain xs where xs: "set xs = S" using finite_list [OF assms(1)] by blast
  with assms(2) have "xs \<noteq> []" by auto
  then obtain m where "min_by_key ref_key xs = Some m" by (cases "min_by_key ref_key xs") auto
  then show ?thesis using min_by_key_Some xs by (fastforce simp: least_ref_def)
qed

section \<open>The reference sets\<close>

definition refs_of :: "string \<Rightarrow> (ObjectRef \<rightharpoonup> 'm GrcacheService) \<Rightarrow> ObjectRef set" where
  "refs_of n raw = {r. \<exists>obj. raw r = Some obj \<and> service_name (spec obj) = n}"

definition refs_invar :: "('m, 'md, 'lb) config_state \<Rightarrow> bool" where
  "refs_invar st \<longleftrightarrow>
     finite (dom (raw_services st))
     \<and> (\<forall>n. ref_by_grpc_service st n = Some (refs_of n (raw_services st))
            \<or> ref_by_grpc_service st n = None \<and> refs_of n (raw_services st) = {})"

lemma refs_invar_init [simp]: "refs_invar (config_init d w)"
  by (simp add: refs_invar_def config_init_def refs_of_def)

lemma refs_invarD:
  "refs_invar st \<Longrightarrow> ref_by_grpc_service st n = Some (refs_of n (raw_services st))
     \<or> ref_by_grpc_service st n = None \<and> refs_of n (raw_services st) = {}"
  by (simp add: refs_invar_def)

lemma refs_of_finite: "finite (dom raw) \<Longrightarrow> finite (refs_of n raw)"
  by (rule finite_subset [of _ "dom raw"]) (auto simp: refs_of_def)

lemma refs_of_upd:
  "refs_of n (raw(r \<mapsto> obj)) =
     (if service_name (spec obj) = n then insert r (refs_of n raw) else refs_of n raw - {r})"
  by (auto simp: refs_of_def)

lemma refs_of_del: "refs_of n (raw(r := None)) = refs_of n raw - {r}"
  by (auto simp: refs_of_def)

text \<open>The state after \<open>remove_noupdate\<close>, and after the insertion in \<open>apply\<close>.\<close>

definition without :: "ObjectRef \<Rightarrow> ('m, 'md, 'lb) config_state \<Rightarrow> ('m, 'md, 'lb) config_state" where
  "without r st = st\<lparr>raw_services := (raw_services st)(r := None),
     ref_by_grpc_service := (case raw_services st r of
         None \<Rightarrow> ref_by_grpc_service st
       | Some prev \<Rightarrow> (ref_by_grpc_service st)(service_name (spec prev) \<mapsto>
           refs_of (service_name (spec prev)) (raw_services st) - {r}))\<rparr>"

definition with_object ::
    "ObjectRef \<Rightarrow> 'm GrcacheService \<Rightarrow> ('m, 'md, 'lb) config_state \<Rightarrow> ('m, 'md, 'lb) config_state" where
  "with_object r obj st =
     (let n = service_name (spec obj) in
      (without r st)\<lparr>raw_services := (raw_services st)(r \<mapsto> obj),
        ref_by_grpc_service := (ref_by_grpc_service (without r st))
          (n \<mapsto> refs_of n ((raw_services st)(r \<mapsto> obj)))\<rparr>)"

lemma remove_noupdate_eq:
  assumes "refs_invar st"
  shows "remove_noupdate r st = Returns (raw_services st r, without r st)"
proof (cases "raw_services st r")
  case None
  then show ?thesis by (simp add: remove_noupdate_def without_def Let_def)
next
  case (Some prev)
  then have "r \<in> refs_of (service_name (spec prev)) (raw_services st)" by (simp add: refs_of_def)
  then have "ref_by_grpc_service st (service_name (spec prev))
      = Some (refs_of (service_name (spec prev)) (raw_services st))"
    using refs_invarD [OF assms, of "service_name (spec prev)"] by auto
  with Some show ?thesis by (simp add: remove_noupdate_def without_def Let_def)
qed

lemma refs_of_other:
  "raw r = None \<or> (\<exists>prev. raw r = Some prev \<and> service_name (spec prev) \<noteq> n) \<Longrightarrow> refs_of n raw - {r} = refs_of n raw"
  by (auto simp: refs_of_def)

lemma refs_invar_without: "refs_invar st \<Longrightarrow> refs_invar (without r st)"
  by (cases "raw_services st r") (auto simp: refs_invar_def without_def refs_of_del refs_of_other)

lemma refs_invar_with_object: "refs_invar st \<Longrightarrow> refs_invar (with_object r obj st)"
  by (cases "raw_services st r")
    (auto simp: refs_invar_def with_object_def without_def refs_of_upd refs_of_other Let_def)

lemma config_apply_eq:
  assumes "refs_invar st"
  shows "config_apply from_obj LB ord obj st =
     update_service LB ord (service_name (spec obj)) (with_object (from_obj obj) obj st)"
proof -
  let ?r = "from_obj obj" and ?n = "service_name (spec obj)"
  let ?st1 = "without ?r st"
  have inv: "refs_invar ?st1" using assms by (rule refs_invar_without)
  have "(case ref_by_grpc_service ?st1 ?n of Some s \<Rightarrow> s | None \<Rightarrow> {}) = refs_of ?n (raw_services ?st1)"
  proof (cases "ref_by_grpc_service ?st1 ?n")
    case None
    with refs_invarD [OF inv, of ?n] show ?thesis by simp
  next
    case (Some S)
    with refs_invarD [OF inv, of ?n] show ?thesis by auto
  qed
  moreover have "insert ?r (refs_of ?n (raw_services ?st1)) = refs_of ?n ((raw_services st)(?r \<mapsto> obj))"
    by (auto simp: without_def refs_of_def split: option.splits)
  ultimately show ?thesis
    by (simp add: config_apply_def remove_noupdate_eq [OF assms] with_object_def Let_def)
      (simp add: without_def)
qed

lemma config_remove_eq:
  assumes "refs_invar st"
  shows "config_remove LB ord r st =
     (case raw_services st r of
        None \<Rightarrow> Returns (without r st)
      | Some prev \<Rightarrow> update_service LB ord (service_name (spec prev)) (without r st))"
  by (simp add: config_remove_def remove_noupdate_eq [OF assms] split: option.splits)

section \<open>What an update does\<close>

definition unload :: "string \<Rightarrow> ('m, 'md, 'lb) config_state \<Rightarrow> ('m, 'md, 'lb) config_state" where
  "unload n st = st\<lparr>spec_generation := spec_generation st + 1, services := (services st)(n \<mapsto>
     \<lparr>generation = spec_generation st, service_spec = None, load_balancer = None\<rparr>)\<rparr>"

definition route ::
    "'lb load_balancing \<Rightarrow> QualifiedService \<Rightarrow> GrcacheServiceSpec
      \<Rightarrow> ('m, 'md, 'lb) config_state \<Rightarrow> ('m, 'md, 'lb) config_state" where
  "route LB q sp st =
     (let (lb, d) = backends_for_hostname LB (url (upstream sp)) (port (upstream sp)) (discovery st);
          st' = st\<lparr>spec_generation := spec_generation st + 1, discovery := d\<rparr>;
          data = \<lparr>generation = spec_generation st, service_spec = Some (build_passthrough q),
                  load_balancer = Some lb\<rparr>
      in case descriptor_set_source sp of
           Some source \<Rightarrow> st'\<lparr>tasks := tasks st @ [\<lparr>t_generation = spec_generation st, t_source = source,
             t_services = [(service_name sp, q)], t_load_balancer = lb\<rparr>]\<rparr>
         | None \<Rightarrow> (case compute_newer data (services st (service_name sp)) of
             Some new \<Rightarrow> st'\<lparr>services := (services st)(service_name sp \<mapsto> new)\<rparr>
           | None \<Rightarrow> st'))"

lemma update_service_empty:
  "ref_by_grpc_service st n = Some {} \<Longrightarrow> update_service LB ord n st = Returns (unload n st)"
  by (simp add: update_service_def unload_def Let_def)

lemma update_service_object:
  assumes "ref_by_grpc_service st n = Some S" and "hash_order ord" and "finite S"
    and "least_ref S r" and "raw_services st r = Some obj"
  shows "update_service LB ord n st =
     bind_outcome (unwrap_result (QualifiedService_parse (service_name (spec obj))))
       (\<lambda>q. Returns (route LB q (spec obj) st))"
proof -
  have ne: "S \<noteq> {}" using assms(4) by (auto simp: least_ref_def)
  then have "min_by_key ref_key (ord S) = Some r" using min_by_key_enum assms by blast
  then have *: "update_service LB ord n st =
     (let gen = spec_generation st; st' = st\<lparr>spec_generation := spec_generation st + 1\<rparr> in
      bind_outcome (unwrap_result (QualifiedService_parse (service_name (spec obj)))) (\<lambda>q.
         case upstream (spec obj) of Dns u p \<Rightarrow>
           (let (lb, d) = backends_for_hostname LB u p (discovery st) in
            case descriptor_set_source (spec obj) of
              Some source \<Rightarrow>
                Returns (st'\<lparr>discovery := d, tasks := tasks st @ [\<lparr>t_generation = gen, t_source = source,
                  t_services = [(service_name (spec obj), q)], t_load_balancer = lb\<rparr>]\<rparr>)
            | None \<Rightarrow>
                bind_outcome
                  (fold_outcome (\<lambda>(_, q) m. update_service_if_newer (service_name (spec obj))
                     \<lparr>generation = gen, service_spec = Some (build_passthrough q),
                      load_balancer = Some lb\<rparr> m) [(service_name (spec obj), q)] (services st))
                  (\<lambda>m. Returns (st'\<lparr>discovery := d, services := m\<rparr>)))))"
    using assms(1,5) ne by (simp only: update_service_def Let_def unwrap.simps bind_outcome.simps if_False)
  show ?thesis
  proof (cases "QualifiedService_parse (service_name (spec obj))")
    case (Inr q)
    obtain u p where up: "upstream (spec obj) = Dns u p" by (cases "upstream (spec obj)")
    obtain lb d where b: "backends_for_hostname LB u p (discovery st) = (lb, d)" by (cases "backends_for_hostname LB u p (discovery st)")
    show ?thesis
      unfolding * Inr up route_def
      by (cases "descriptor_set_source (spec obj)")
        (simp_all add: Let_def b up update_service_if_newer_def del: bind_outcome_Returns split: option.split)
  qed (simp add: * Let_def)
qed

lemma update_service_cases:
  assumes inv: "refs_invar st" and ord: "hash_order ord" and n: "ref_by_grpc_service st n \<noteq> None"
  obtains (empty) "refs_of n (raw_services st) = {}" "update_service LB ord n st = Returns (unload n st)"
  | (object) r obj where "least_ref (refs_of n (raw_services st)) r" "raw_services st r = Some obj"
      "service_name (spec obj) = n"
      "update_service LB ord n st =
         bind_outcome (unwrap_result (QualifiedService_parse n)) (\<lambda>q. Returns (route LB q (spec obj) st))"
proof -
  let ?S = "refs_of n (raw_services st)"
  have S: "ref_by_grpc_service st n = Some ?S" using refs_invarD [OF inv, of n] n by auto
  have fin: "finite ?S" using inv by (simp add: refs_invar_def refs_of_finite)
  show ?thesis
  proof (cases "?S = {}")
    case True
    with S empty update_service_empty show ?thesis by metis
  next
    case False
    then obtain r where r: "least_ref ?S r" using least_ref_ex [OF fin] by blast
    then obtain obj where obj: "raw_services st r = Some obj" "service_name (spec obj) = n"
      by (auto simp: least_ref_def refs_of_def)
    with r object update_service_object [OF S ord fin r obj(1)] show ?thesis by simp
  qed
qed

lemma unload_frame [simp]:
  "raw_services (unload n st) = raw_services st"
  "ref_by_grpc_service (unload n st) = ref_by_grpc_service st"
  "spec_generation (unload n st) = spec_generation st + 1"
  "config_ready (unload n st) = config_ready st"
  "tasks (unload n st) = tasks st"
  "discovery (unload n st) = discovery st"
  "health (unload n st) = health st"
  by (simp_all add: unload_def)

lemma route_frame [simp]:
  "raw_services (route LB q sp st) = raw_services st"
  "ref_by_grpc_service (route LB q sp st) = ref_by_grpc_service st"
  "spec_generation (route LB q sp st) = spec_generation st + 1"
  "config_ready (route LB q sp st) = config_ready st"
  "health (route LB q sp st) = health st"
  by (simp_all add: route_def Let_def split: prod.splits option.splits)

lemma route_discovery [simp]:
  "discovery (route LB q sp st) =
     snd (backends_for_hostname LB (url (upstream sp)) (port (upstream sp)) (discovery st))"
  by (simp add: route_def Let_def split: prod.splits option.splits)

lemma without_frame [simp]:
  "raw_services (without r st) = (raw_services st)(r := None)"
  "spec_generation (without r st) = spec_generation st"
  "services (without r st) = services st"
  "config_ready (without r st) = config_ready st"
  "tasks (without r st) = tasks st"
  "discovery (without r st) = discovery st"
  "health (without r st) = health st"
  by (simp_all add: without_def)

lemma without_absent: "raw_services st r = None \<Longrightarrow> without r st = st"
  by (simp add: without_def fun_upd_idem)

lemma with_object_frame [simp]:
  "raw_services (with_object r obj st) = (raw_services st)(r \<mapsto> obj)"
  "spec_generation (with_object r obj st) = spec_generation st"
  "services (with_object r obj st) = services st"
  "config_ready (with_object r obj st) = config_ready st"
  "tasks (with_object r obj st) = tasks st"
  "discovery (with_object r obj st) = discovery st"
  "health (with_object r obj st) = health st"
  by (simp_all add: with_object_def Let_def)

text \<open>What one change does, in terms of the two outcomes of an update.\<close>

inductive updated ::
    "'lb load_balancing \<Rightarrow> string \<Rightarrow> ('m, 'md, 'lb) config_state \<Rightarrow> ('m, 'md, 'lb) config_state \<Rightarrow> bool"
  for LB :: "'lb load_balancing" and n :: string and st :: "('m, 'md, 'lb) config_state" where
  unloaded: "refs_of n (raw_services st) = {} \<Longrightarrow> updated LB n st (unload n st)"
| routed: "least_ref (refs_of n (raw_services st)) r \<Longrightarrow> raw_services st r = Some obj \<Longrightarrow>
     service_name (spec obj) = n \<Longrightarrow> QualifiedService_parse n = Inr q \<Longrightarrow>
     updated LB n st (route LB q (spec obj) st)"

lemma updated_det: "updated LB n st a \<Longrightarrow> updated LB n st b \<Longrightarrow> a = b"
  by (auto elim!: updated.cases dest: least_ref_unique simp: least_ref_def)

lemma update_service_updated:
  assumes "refs_invar st" and "hash_order ord" and "ref_by_grpc_service st n \<noteq> None"
  shows "update_service LB ord n st = Returns st' \<longleftrightarrow> updated LB n st st'"
    and "update_service LB ord n st = Panic \<longleftrightarrow>
      refs_of n (raw_services st) \<noteq> {} \<and> CHR ''.'' \<notin> set n"
proof -
  have p: "(\<exists>e. QualifiedService_parse n = Inl e) \<longleftrightarrow> CHR ''.'' \<notin> set n"
    using rsplit_once_None [of "CHR ''.''" n] by (auto simp: QualifiedService_parse_def split: option.splits)
  show "update_service LB ord n st = Returns st' \<longleftrightarrow> updated LB n st st'"
    using assms
  proof (cases rule: update_service_cases [where LB = LB])
    case empty
    then show ?thesis using updated.unloaded updated_det by (metis outcome.inject)
  next
    case (object r obj)
    then have "refs_of n (raw_services st) \<noteq> {}" by (auto simp: least_ref_def)
    with object show ?thesis
      by (auto intro: updated.routed elim!: updated.cases dest: least_ref_unique)
  qed
  show "update_service LB ord n st = Panic \<longleftrightarrow>
      refs_of n (raw_services st) \<noteq> {} \<and> CHR ''.'' \<notin> set n"
    using assms by (cases rule: update_service_cases [where LB = LB])
      (use p in \<open>auto simp: least_ref_def\<close>)
qed

lemma with_object_ref [simp]: "ref_by_grpc_service (with_object r obj st) (service_name (spec obj)) \<noteq> None"
  by (simp add: with_object_def Let_def)

lemma without_ref:
  "raw_services st r = Some prev \<Longrightarrow> ref_by_grpc_service (without r st) (service_name (spec prev)) \<noteq> None"
  by (simp add: without_def)

text \<open>The three kinds of change as a relation between states.\<close>

lemma handle_change_cases:
  assumes inv: "refs_invar st" and ord: "hash_order ord"
    and h: "handle_change from_obj LB ord ep c st = Returns st'"
  obtains (ready) "c = Inr Ready" "st' = st\<lparr>config_ready := True, health := world_ready ep (health st)\<rparr>"
  | (err) e where "c = Inl e" "st' = st"
  | (absent) r where "c = Inr (Delete r)" "raw_services st r = None" "st' = st"
  | (deleted) r prev where "c = Inr (Delete r)" "raw_services st r = Some prev"
      "updated LB (service_name (spec prev)) (without r st) st'"
  | (applied) obj where "c = Inr (Apply obj)"
      "updated LB (service_name (spec obj)) (with_object (from_obj obj) obj st) st'"
proof (cases c)
  case (Inl e)
  with h err show ?thesis by (simp add: handle_change_def)
next
  case (Inr ch)
  show ?thesis
  proof (cases ch)
    case Ready
    with Inr h ready show ?thesis by (simp add: handle_change_def)
  next
    case (Apply obj)
    with Inr h have "update_service LB ord (service_name (spec obj)) (with_object (from_obj obj) obj st) = Returns st'"
      by (simp add: handle_change_def config_apply_eq [OF inv])
    then have "updated LB (service_name (spec obj)) (with_object (from_obj obj) obj st) st'"
      by (simp add: update_service_updated(1) [OF refs_invar_with_object [OF inv] ord with_object_ref])
    with Inr Apply show ?thesis by (intro applied) simp_all
  next
    case (Delete r)
    show ?thesis
    proof (cases "raw_services st r")
      case None
      then have "handle_change from_obj LB ord ep c st = Returns st"
        using Inr Delete by (simp add: handle_change_def config_remove_eq [OF inv] without_absent)
      with h have "st' = st" by simp
      with Inr Delete None show ?thesis by (intro absent) simp_all
    next
      case (Some prev)
      with Inr Delete h have "update_service LB ord (service_name (spec prev)) (without r st) = Returns st'"
        by (simp add: handle_change_def config_remove_eq [OF inv])
      then have "updated LB (service_name (spec prev)) (without r st) st'"
        by (simp add: update_service_updated(1) [OF refs_invar_without [OF inv] ord without_ref [OF Some]])
      with Inr Delete Some show ?thesis by (intro deleted) simp_all
    qed
  qed
qed

lemma updated_frame:
  assumes "updated LB n st st'"
  shows "raw_services st' = raw_services st" and "ref_by_grpc_service st' = ref_by_grpc_service st"
    and "spec_generation st' = spec_generation st + 1" and "health st' = health st"
    and "config_ready st' = config_ready st"
  using assms by (auto elim!: updated.cases)

lemma updated_refs_invar: "updated LB n st st' \<Longrightarrow> refs_invar st \<Longrightarrow> refs_invar st'"
  using updated_frame [of LB n st st'] by (simp add: refs_invar_def)

lemma handle_change_refs_invar:
  assumes "refs_invar st" and "hash_order ord" and "handle_change from_obj LB ord ep c st = Returns st'"
  shows "refs_invar st'"
  using assms
proof (cases rule: handle_change_cases)
  case ready
  with assms(1) show ?thesis by (simp add: refs_invar_def)
qed (use assms(1) in \<open>auto intro: updated_refs_invar refs_invar_without refs_invar_with_object\<close>)

lemma handle_change_panics:
  assumes inv: "refs_invar st" and ord: "hash_order ord"
  shows "handle_change from_obj LB ord ep c st = Panic \<longleftrightarrow>
    (\<exists>obj. c = Inr (Apply obj) \<and> CHR ''.'' \<notin> set (service_name (spec obj)))
    \<or> (\<exists>r prev. c = Inr (Delete r) \<and> raw_services st r = Some prev
          \<and> refs_of (service_name (spec prev)) (raw_services st) \<noteq> {r} \<and> CHR ''.'' \<notin> set (service_name (spec prev)))"
proof (cases c)
  case (Inr ch)
  show ?thesis
  proof (cases ch)
    case (Apply obj)
    have "from_obj obj \<in> refs_of (service_name (spec obj)) ((raw_services st)(from_obj obj \<mapsto> obj))"
      by (simp add: refs_of_def)
    then have ne: "refs_of (service_name (spec obj)) ((raw_services st)(from_obj obj \<mapsto> obj)) \<noteq> {}"
      by blast
    have "handle_change from_obj LB ord ep c st =
        update_service LB ord (service_name (spec obj)) (with_object (from_obj obj) obj st)"
      using Inr Apply by (simp add: handle_change_def config_apply_eq [OF inv])
    moreover have "update_service LB ord (service_name (spec obj)) (with_object (from_obj obj) obj st) = Panic
        \<longleftrightarrow> CHR ''.'' \<notin> set (service_name (spec obj))"
      using ne by (simp add: update_service_updated(2) [OF refs_invar_with_object [OF inv] ord with_object_ref])
    ultimately show ?thesis using Inr Apply by simp
  next
    case (Delete r)
    show ?thesis
    proof (cases "raw_services st r")
      case (Some prev)
      let ?n = "service_name (spec prev)"
      have r: "r \<in> refs_of ?n (raw_services st)" using Some by (simp add: refs_of_def)
      have "handle_change from_obj LB ord ep c st = update_service LB ord ?n (without r st)"
        using Inr Delete Some by (simp add: handle_change_def config_remove_eq [OF inv])
      moreover have "update_service LB ord ?n (without r st) = Panic
          \<longleftrightarrow> refs_of ?n (raw_services st) - {r} \<noteq> {} \<and> CHR ''.'' \<notin> set ?n"
        by (simp add: update_service_updated(2) [OF refs_invar_without [OF inv] ord without_ref [OF Some]] refs_of_del)
      ultimately show ?thesis using Inr Delete Some r by auto
    qed (use Inr Delete in \<open>simp add: handle_change_def config_remove_eq [OF inv]\<close>)
  qed (use Inr in \<open>simp add: handle_change_def\<close>)
qed (simp add: handle_change_def)

text \<open>The background service consumes the changes of the watch: its table of resources is what they say.\<close>

interpretation k8s: change_consumer from_obj "handle_change from_obj LB ord ep"
  "raw_services :: ('m, 'md, 'lb) config_state \<Rightarrow> ObjectRef \<rightharpoonup> 'm GrcacheService"
  "\<lambda>st. refs_invar st \<and> hash_order ord" "\<lambda>obj. CHR ''.'' \<in> set (service_name (spec obj))"
  for from_obj :: "'m GrcacheService \<Rightarrow> ObjectRef" and LB :: "'lb load_balancing" and ord ep
proof
  fix st st' :: "('m, 'md, 'lb) config_state" and c :: "'a + ('m GrcacheService, ObjectRef) ResourceChange"
  assume i: "refs_invar st \<and> hash_order ord" and h: "handle_change from_obj LB ord ep c st = Returns st'"
  then show "refs_invar st' \<and> hash_order ord" using handle_change_refs_invar by blast
  have "refs_invar st" "hash_order ord" using i by simp_all
  then show "raw_services st' = replay_change from_obj c (raw_services st)"
    using h
  proof (cases rule: handle_change_cases)
    case (absent r)
    then show ?thesis by (simp add: fun_upd_idem)
  qed (use updated_frame(1) in fastforce)+
next
  fix st :: "('m, 'md, 'lb) config_state" and c :: "'a + ('m GrcacheService, ObjectRef) ResourceChange"
  assume i: "refs_invar st \<and> hash_order ord"
    and ok: "\<And>obj. c = Inr (Apply obj) \<Longrightarrow> CHR ''.'' \<in> set (service_name (spec obj))"
      "\<And>k obj. raw_services st k = Some obj \<Longrightarrow> CHR ''.'' \<in> set (service_name (spec obj))"
  have "handle_change from_obj LB ord ep c st \<noteq> Panic"
    using i ok handle_change_panics [of st ord from_obj LB ep c] by blast
  then show "\<exists>st'. handle_change from_obj LB ord ep c st = Returns st'"
    by (cases "handle_change from_obj LB ord ep c st") auto
qed

section \<open>Generations\<close>

definition newer :: "string \<Rightarrow> 'md ServiceData \<Rightarrow> (string \<rightharpoonup> 'md ServiceData) \<Rightarrow> (string \<rightharpoonup> 'md ServiceData)" where
  "newer n data m = (case compute_newer data (m n) of Some new \<Rightarrow> m(n \<mapsto> new) | None \<Rightarrow> m)"

lemma update_service_if_newer_Some [simp]:
  "update_service_if_newer n \<lparr>generation = g, service_spec = Some sp, load_balancer = lb\<rparr> m
     = Returns (newer n \<lparr>generation = g, service_spec = Some sp, load_balancer = lb\<rparr> m)"
  by (simp add: update_service_if_newer_def newer_def split: option.split)

lemma newer_other [simp]: "k \<noteq> n \<Longrightarrow> newer n data m k = m k"
  by (simp add: newer_def split: option.split)

lemma newer_same:
  "newer n data m n = (case m n of
     Some d \<Rightarrow> if generation d < generation data then Some data else Some d | None \<Rightarrow> Some data)"
  by (simp add: newer_def compute_newer_def split: option.split)

lemma newer_keeps: "m k = Some d \<Longrightarrow> \<exists>d'. newer n data m k = Some d' \<and> generation d \<le> generation d'"
  by (cases "k = n") (auto simp: newer_same)

lemma newer_from: "newer n data m k = Some d \<Longrightarrow> m k = Some d \<or> (k = n \<and> d = data)"
  by (cases "k = n") (auto simp: newer_same split: option.splits if_splits)

text \<open>Two updates with different generations commute.\<close>

lemma newer_commute:
  assumes "generation a \<noteq> generation b"
  shows "newer n a (newer n' b m) = newer n' b (newer n a m)"
proof (rule ext)
  fix k
  show "newer n a (newer n' b m) k = newer n' b (newer n a m) k"
    using assms by (cases "k = n"; cases "k = n'") (auto simp: newer_same split: option.splits if_splits)
qed

definition task_data :: "task \<Rightarrow> 'md ServiceSpec \<Rightarrow> 'md ServiceData" where
  "task_data t sp = \<lparr>generation = t_generation t, service_spec = Some sp, load_balancer = Some (t_load_balancer t)\<rparr>"

lemma publish_task_eq:
  assumes "t_services t = [(n, q)]"
  shows "publish_task P t ds m = (case ServiceSpec_build P ds q of
     Inl e \<Rightarrow> Panic | Inr (sp, errs) \<Rightarrow> Returns (newer n (task_data t sp) m))"
  by (cases "ServiceSpec_build P ds q") (auto simp: publish_task_def assms task_data_def)

lemma route_services:
  "services (route LB q sp st) = (case descriptor_set_source sp of
     Some source \<Rightarrow> services st
   | None \<Rightarrow> newer (service_name sp) \<lparr>generation = spec_generation st,
       service_spec = Some (build_passthrough q),
       load_balancer = Some (fst (backends_for_hostname LB (url (upstream sp)) (port (upstream sp)) (discovery st)))\<rparr>
       (services st))"
  by (simp add: route_def newer_def Let_def split: prod.splits option.splits)

lemma route_tasks:
  "tasks (route LB q sp st) = (case descriptor_set_source sp of
     None \<Rightarrow> tasks st
   | Some source \<Rightarrow> tasks st @ [\<lparr>t_generation = spec_generation st, t_source = source,
       t_services = [(service_name sp, q)],
       t_load_balancer = fst (backends_for_hostname LB (url (upstream sp)) (port (upstream sp)) (discovery st))\<rparr>])"
  by (simp add: route_def Let_def split: prod.splits option.splits)

definition task_ok :: "task \<Rightarrow> bool" where
  "task_ok t \<longleftrightarrow> (\<exists>n q. t_services t = [(n, q)] \<and> QualifiedService_parse n = Inr q)"

text \<open>At most \<open>k\<close> generations were given out, all below the next one; the pending tasks have
  different ones.\<close>

definition gen_invar :: "nat \<Rightarrow> ('m, 'md, 'lb) config_state \<Rightarrow> bool" where
  "gen_invar k st \<longleftrightarrow>
     unat (spec_generation st) \<le> k
     \<and> (\<forall>n d. services st n = Some d \<longrightarrow> generation d < spec_generation st)
     \<and> (\<forall>t \<in> set (tasks st). t_generation t < spec_generation st \<and> task_ok t)
     \<and> distinct (map t_generation (tasks st))"

lemma gen_next:
  fixes g :: usize
  assumes "unat g \<le> k" and "Suc k < 2 ^ 64"
  shows "g < g + 1" and "unat (g + 1) \<le> Suc k"
proof -
  have "unat (g + 1) = Suc (unat g)"
    using assms by (simp add: unat_word_ariths)
  with assms show "g < g + 1" "unat (g + 1) \<le> Suc k" by (simp_all add: word_less_nat_alt)
qed

lemma gen_invar_cong:
  "gen_invar k st \<Longrightarrow> spec_generation st' = spec_generation st \<Longrightarrow> services st' = services st \<Longrightarrow>
     tasks st' = tasks st \<Longrightarrow> gen_invar k st'"
  by (simp add: gen_invar_def)

lemma gen_invar_mono: "gen_invar k st \<Longrightarrow> k \<le> k' \<Longrightarrow> gen_invar k' st"
  by (auto simp: gen_invar_def)

text \<open>Spawning a task with the current generation.\<close>

lemma gen_tasks_snoc:
  assumes "gen_invar k st" and n: "spec_generation st < spec_generation st + 1"
    and ts: "ts = tasks st \<or> (\<exists>t. ts = tasks st @ [t] \<and> t_generation t = spec_generation st \<and> task_ok t)"
  shows "distinct (map t_generation ts)" and "\<forall>t \<in> set ts. t_generation t < spec_generation st + 1 \<and> task_ok t"
proof -
  have old: "distinct (map t_generation (tasks st))" "\<forall>t \<in> set (tasks st). t_generation t < spec_generation st \<and> task_ok t"
    using assms(1) by (auto simp: gen_invar_def)
  then show "\<forall>t \<in> set ts. t_generation t < spec_generation st + 1 \<and> task_ok t"
    using ts n by (auto intro: order.strict_trans)
  show "distinct (map t_generation ts)" using old ts by force
qed

lemma gen_invar_updated:
  assumes "updated LB n st st'" and g: "gen_invar k st" and k: "Suc k < 2 ^ 64"
  shows "gen_invar (Suc k) st'"
  using assms(1)
proof cases
  case unloaded
  have "unat (spec_generation st) \<le> k" using g by (simp add: gen_invar_def)
  note n = gen_next [OF this k]
  show ?thesis
    using g n unfolding unloaded gen_invar_def
    by (auto simp: unload_def intro: order.strict_trans)
next
  case (routed r obj q)
  have "unat (spec_generation st) \<le> k" using g by (simp add: gen_invar_def)
  note n = gen_next [OF this k]
  have s: "generation d < spec_generation st + 1" if "services st' x = Some d" for x d
    using that g n unfolding routed(1) route_services gen_invar_def
    by (auto split: option.splits dest!: newer_from intro: order.strict_trans)
  have "tasks st' = tasks st \<or> (\<exists>t. tasks st' = tasks st @ [t] \<and> t_generation t = spec_generation st \<and> task_ok t)"
    using routed(4,5) unfolding routed(1) by (cases "descriptor_set_source (spec obj)") (simp_all add: route_tasks task_ok_def)
  from gen_tasks_snoc [OF g n(1) this]
  show ?thesis using s n unfolding gen_invar_def routed(1) by simp
qed

lemma nth_split: "i < length xs \<Longrightarrow> xs = take i xs @ xs ! i # drop (Suc i) xs"
  by (rule id_take_nth_drop)

lemma drop_nth_props:
  assumes "i < length xs"
  shows "set (drop_nth i xs) \<subseteq> set xs" and "set xs = insert (xs ! i) (set (drop_nth i xs))"
    and "distinct (map f xs) \<Longrightarrow> distinct (map f (drop_nth i xs)) \<and> f (xs ! i) \<notin> f ` set (drop_nth i xs)"
proof -
  obtain us v vs where xs: "xs = us @ v # vs" "length us = i" "xs ! i = v"
    using nth_split [OF assms] assms by (metis length_take min.absorb4)
  have d: "drop_nth i xs = us @ vs" using xs by (simp add: drop_nth_def)
  show "set (drop_nth i xs) \<subseteq> set xs" "set xs = insert (xs ! i) (set (drop_nth i xs))"
    unfolding d xs(3) by (auto simp: xs(1))
  show "distinct (map f (drop_nth i xs)) \<and> f (xs ! i) \<notin> f ` set (drop_nth i xs)" if "distinct (map f xs)"
    using that unfolding d xs(3) by (auto simp: xs(1))
qed

lemma gen_invar_drop_nth:
  assumes "gen_invar k st" and "i < length (tasks st)"
  shows "gen_invar k (st\<lparr>tasks := drop_nth i (tasks st)\<rparr>)"
  using assms drop_nth_props(1) [OF assms(2)] drop_nth_props(3) [OF assms(2), of t_generation]
  by (auto simp: gen_invar_def)

lemma gen_invar_step:
  assumes "config_step from_obj LB ep P ev st st'" and inv: "refs_invar st" and g: "gen_invar k st"
    and k: "Suc k < 2 ^ 64"
  shows "gen_invar (Suc k) st'"
  using assms(1)
proof cases
  case (changed ord c)
  have up: "gen_invar (Suc k) st'" if "updated LB n st1 st'" "gen_invar k st1" for n st1
    using gen_invar_updated [OF that k] .
  from inv changed(2,3) show ?thesis
  proof (cases rule: handle_change_cases)
    case ready
    then have "gen_invar k st'" by (intro gen_invar_cong [OF g]) simp_all
    then show ?thesis by (rule gen_invar_mono) simp
  next
    case (deleted r prev)
    show ?thesis by (rule up [OF deleted(3)], rule gen_invar_cong [OF g]) simp_all
  next
    case (applied obj)
    show ?thesis by (rule up [OF applied(2)], rule gen_invar_cong [OF g]) simp_all
  qed (use gen_invar_mono [OF g, of "Suc k"] in simp_all)
next
  case (task_done i descriptor_set m)
  let ?t = "tasks st ! i"
  have t: "t_generation ?t < spec_generation st" "task_ok ?t"
    using g task_done(3) by (auto simp: gen_invar_def)
  then obtain n q where q: "t_services ?t = [(n, q)]" by (auto simp: task_ok_def)
  obtain sp where m: "m = newer n (task_data ?t sp) (services st)"
    using task_done(4) unfolding publish_task_eq [OF q] by (auto split: sum.splits prod.splits)
  have "generation d < spec_generation st" if "m x = Some d" for x d
    using that g t(1) unfolding m gen_invar_def task_data_def by (auto dest!: newer_from)
  then have "gen_invar k (st\<lparr>services := m\<rparr>)" using g by (simp add: gen_invar_def)
  from gen_invar_mono [OF gen_invar_drop_nth [OF this], of i "Suc k"] show ?thesis
    unfolding task_done using task_done(3) by simp
next
  case (task_panicked i)
  from gen_invar_mono [OF gen_invar_drop_nth [OF g task_panicked(3)], of "Suc k"] show ?thesis
    unfolding task_panicked by simp
next
  case (discovery_step d)
  have "gen_invar k st'" unfolding discovery_step by (rule gen_invar_cong [OF g]) simp_all
  then show ?thesis by (rule gen_invar_mono) simp
qed

section \<open>Runs\<close>

text \<open>A state with the number of steps that led to it, so that statements can speak of runs shorter
  than the generation counter is wide.\<close>

type_synonym ('m, 'md, 'lb) counted = "('m, 'md, 'lb) config_state \<times> nat"

definition counted_init :: "'lb load_balancing \<Rightarrow> ('m, 'md, 'lb) counted \<Rightarrow> bool" where
  "counted_init LB c \<longleftrightarrow> snd c = 0 \<and> (\<exists>d w. fst c = config_init d w \<and> (dns_step LB)\<^sup>*\<^sup>* dns_new d)"

definition counted_step ::
    "('m GrcacheService \<Rightarrow> ObjectRef) \<Rightarrow> 'lb load_balancing \<Rightarrow> nat \<Rightarrow> ('pe, 'fdp, 'fd, 'sd, 'md) protobuf
      \<Rightarrow> ('m, 'md, 'lb) counted \<Rightarrow> ('m, 'md, 'lb) counted \<Rightarrow> bool" where
  "counted_step from_obj LB ep P c c' \<longleftrightarrow>
     snd c' = Suc (snd c) \<and> (\<exists>ev. config_step from_obj LB ep P ev (fst c) (fst c'))"

text \<open>No stored resource has a service name without a dot: applying one panics.\<close>

definition names_ok :: "('m, 'md, 'lb) config_state \<Rightarrow> bool" where
  "names_ok st \<longleftrightarrow> (\<forall>r obj. raw_services st r = Some obj \<longrightarrow> CHR ''.'' \<in> set (service_name (spec obj)))"

definition config_invar :: "('m, 'md, 'lb) counted \<Rightarrow> bool" where
  "config_invar c \<longleftrightarrow> refs_invar (fst c) \<and> names_ok (fst c)
     \<and> (snd c < 2 ^ 64 \<longrightarrow> gen_invar (snd c) (fst c))"

lemma refs_invar_step:
  assumes "config_step from_obj LB ep P ev st st'" and "refs_invar st"
  shows "refs_invar st'"
  using assms(1)
proof cases
  case (changed ord c)
  then show ?thesis using assms(2) handle_change_refs_invar by blast
qed (use assms(2) in \<open>simp_all add: refs_invar_def\<close>)

lemma names_ok_step:
  assumes "config_step from_obj LB ep P ev st st'" and "refs_invar st" and "names_ok st"
  shows "names_ok st'"
  using assms(1)
proof cases
  case (changed ord c)
  have ok: "CHR ''.'' \<in> set (service_name (spec obj))" if "c = Inr (Apply obj)" for obj
    using handle_change_panics [OF assms(2) changed(2), of from_obj LB ep c] changed(3) that by auto
  have "raw_services st' = replay_change from_obj c (raw_services st)"
    using k8s.handle_view changed(2,3) assms(2) by blast
  with assms(3) ok show ?thesis
    by (cases "(from_obj, c, raw_services st)" rule: replay_change.cases) (auto simp: names_ok_def)
qed (use assms(3) in \<open>simp_all add: names_ok_def\<close>)

lemma updated_discovery:
  "updated LB n st st' \<Longrightarrow> discovery st' = discovery st \<or> dns_step LB (discovery st) (discovery st')"
  by (auto elim!: updated.cases intro: dns_step.get)

lemma discovery_of_step:
  assumes "config_step from_obj LB ep P ev st st'" and "refs_invar st"
  shows "discovery st' = discovery st \<or> dns_step LB (discovery st) (discovery st')"
  using assms(1)
proof cases
  case (changed ord c)
  from assms(2) changed(2,3) show ?thesis
    by (cases rule: handle_change_cases) (auto dest: updated_discovery)
qed simp_all

text \<open>Every run of the configuration service, seen on the discovery table, is a run of discovery.\<close>

interpretation cfg: simulation "counted_init LB" "counted_step from_obj LB ep P" config_invar
  "dns_step LB" "\<lambda>c. discovery (fst c)"
  for LB :: "'lb load_balancing" and from_obj :: "'m GrcacheService \<Rightarrow> ObjectRef" and ep
    and P :: "('pe, 'fdp, 'fd, 'sd, 'md) protobuf"
proof
  fix c c' :: "('m, 'md, 'lb) counted"
  show "config_invar c" if "counted_init LB c"
    using that by (auto simp: counted_init_def config_invar_def gen_invar_def names_ok_def)
      (auto simp: config_init_def)
  show "config_invar c'" if "config_invar c" "counted_step from_obj LB ep P c c'"
    using that refs_invar_step names_ok_step gen_invar_step [of from_obj LB ep P _ "fst c" "fst c'" "snd c"]
    by (auto simp: config_invar_def counted_step_def)
  show "discovery (fst c') = discovery (fst c) \<or> dns_step LB (discovery (fst c)) (discovery (fst c'))"
    if "config_invar c" "counted_step from_obj LB ep P c c'"
    using that discovery_of_step unfolding config_invar_def counted_step_def by blast
qed

subsection \<open>References to handles\<close>

definition held_invar :: "('m, 'md, 'lb) config_state \<Rightarrow> bool" where
  "held_invar st \<longleftrightarrow>
     (\<forall>h. held st h \<longrightarrow> h < length (handles (discovery st)) \<and> clients (handles (discovery st) ! h) > 0)"

lemma held_invar_init [simp]: "held_invar (config_init d w)"
  by (simp add: held_invar_def held_def config_init_def)

lemma get_clients:
  fixes d :: "'lb dns_state"
  defines "g \<equiv> (\<lambda>LB u p. backends_for_hostname LB u p d)"
  assumes "dns_shape d"
  shows "fst (g LB u p) < length (handles (snd (g LB u p))) \<and> clients (handles (snd (g LB u p)) ! fst (g LB u p)) > 0
    \<and> (\<forall>h < length (handles d). clients (handles d ! h) > 0 \<longrightarrow>
        h < length (handles (snd (g LB u p))) \<and> clients (handles (snd (g LB u p)) ! h) > 0)"
proof (cases rule: get_cases [of d u p LB])
  case (reuse k)
  then have "k < length (handles d)" using shape_table [OF assms(2)] by blast
  with reuse(3) show ?thesis by (simp add: g_def handles_upd_handle add_client_def)
next
  case fresh
  from fresh(2) show ?thesis by (simp add: g_def with_new_def new_handle_def nth_append)
qed

lemma publish_task_from:
  assumes "publish_task P t ds m = Returns m'" and "m' n = Some d"
  shows "m n = Some d \<or> load_balancer d = Some (t_load_balancer t)"
proof -
  have "m n = Some d \<or> load_balancer d = Some (t_load_balancer t)"
    if "fold_outcome (\<lambda>(nm, q) m. bind_outcome (unwrap_result (ServiceSpec_build P ds q)) (\<lambda>(sp, _).
         update_service_if_newer nm \<lparr>generation = t_generation t, service_spec = Some sp,
           load_balancer = Some (t_load_balancer t)\<rparr> m)) ss m = Returns m'" for ss m
    using that assms(2)
  proof (induction ss arbitrary: m)
    case (Cons a ss)
    obtain nm q where a: "a = (nm, q)" by (cases a)
    then obtain sp where "m' n = Some d \<Longrightarrow> newer nm \<lparr>generation = t_generation t, service_spec = Some sp,
        load_balancer = Some (t_load_balancer t)\<rparr> m n = Some d \<or> load_balancer d = Some (t_load_balancer t)"
      using Cons.prems(1) Cons.IH by (auto split: prod.splits)
    with Cons.prems(2) show ?case by (auto dest!: newer_from)
  qed simp
  with assms(1) show ?thesis unfolding publish_task_def by blast
qed

lemma held_updated:
  assumes "updated LB n st st'" and "held_invar st" and "dns_shape (discovery st)"
  shows "held_invar st'"
  using assms(1)
proof cases
  case unloaded
  have "held st h" if "held st' h" for h
    using that unfolding unloaded by (auto simp: held_def unload_def split: if_splits)
  with assms(2) show ?thesis unfolding unloaded by (simp add: held_invar_def)
next
  case (routed r obj q)
  let ?b = "backends_for_hostname LB (url (upstream (spec obj))) (port (upstream (spec obj))) (discovery st)"
  have "held st h \<or> h = fst ?b" if "held st' h" for h
    using that unfolding routed held_def route_services route_tasks
    by (auto split: option.splits dest!: newer_from)
  then show ?thesis
    using assms(2) get_clients [OF assms(3), of LB "url (upstream (spec obj))" "port (upstream (spec obj))"]
    unfolding routed held_invar_def route_discovery by blast
qed

lemma held_cong:
  "held_invar st \<Longrightarrow> services st' = services st \<Longrightarrow> tasks st' = tasks st \<Longrightarrow> discovery st' = discovery st \<Longrightarrow> held_invar st'"
  by (simp add: held_invar_def held_def)

lemma held_step:
  assumes "config_step from_obj LB ep P ev st st'" and "refs_invar st" and sh: "dns_shape (discovery st)"
    and inv: "held_invar st"
  shows "held_invar st'"
  using assms(1)
proof cases
  case (changed ord c)
  from assms(2) changed(2,3) show ?thesis
  proof (cases rule: handle_change_cases)
    case (deleted r prev)
    show ?thesis by (rule held_updated [OF deleted(3) held_cong [OF inv]]) (simp_all add: sh)
  next
    case (applied obj)
    show ?thesis by (rule held_updated [OF applied(2) held_cong [OF inv]]) (simp_all add: sh)
  qed (use inv in \<open>simp_all add: held_cong\<close>)
next
  case (task_done i ds m)
  have "held st h" if "held st' h" for h
    using that drop_nth_props(1) [OF task_done(3)] nth_mem [OF task_done(3)] publish_task_from [OF task_done(4)]
    unfolding task_done held_def by fastforce
  with inv show ?thesis unfolding task_done by (simp add: held_invar_def)
next
  case (task_panicked i)
  have "held st h" if "held st' h" for h
    using that drop_nth_props(1) [OF task_panicked(3)] unfolding task_panicked held_def by auto
  with inv show ?thesis unfolding task_panicked by (simp add: held_invar_def)
next
  case (discovery_step d)
  have "held st' h \<longleftrightarrow> held st h" for h unfolding discovery_step by (simp add: held_def)
  then show ?thesis
    using inv discovery_step handles_grow [OF discovery_step(3)] unfolding held_invar_def by fastforce
qed

subsection \<open>Generations never go back\<close>

lemma updated_keeps:
  assumes "updated LB n st st'" and "gen_invar k st" and "services st x = Some d"
  shows "\<exists>d'. services st' x = Some d' \<and> generation d \<le> generation d'"
  using assms(1)
proof cases
  case unloaded
  have "generation d < spec_generation st" using assms(2,3) by (simp add: gen_invar_def)
  then show ?thesis unfolding unloaded using assms(3) by (auto simp: unload_def)
next
  case (routed r obj q)
  then show ?thesis
    using assms(3) newer_keeps unfolding routed(1) route_services by (fastforce split: option.splits)
qed

lemma step_keeps:
  assumes "config_step from_obj LB ep P ev st st'" and "refs_invar st" and g: "gen_invar k st"
    and d: "services st x = Some d"
  shows "\<exists>d'. services st' x = Some d' \<and> generation d \<le> generation d'"
  using assms(1)
proof cases
  case (changed ord c)
  from assms(2) changed(2,3) show ?thesis
  proof (cases rule: handle_change_cases)
    case (deleted r prev)
    show ?thesis
      by (rule updated_keeps [OF deleted(3) gen_invar_cong [OF g]]) (simp_all add: d)
  next
    case (applied obj)
    show ?thesis
      by (rule updated_keeps [OF applied(2) gen_invar_cong [OF g]]) (simp_all add: d)
  qed (use d in auto)
next
  case (task_done i ds m)
  have "task_ok (tasks st ! i)" using g task_done(3) by (auto simp: gen_invar_def)
  then obtain n q where q: "t_services (tasks st ! i) = [(n, q)]" by (auto simp: task_ok_def)
  from task_done(4) obtain sp where "m = newer n (task_data (tasks st ! i) sp) (services st)"
    unfolding publish_task_eq [OF q] by (auto split: sum.splits prod.splits)
  with d newer_keeps show ?thesis unfolding task_done by fastforce
qed (use d in auto)

subsection \<open>The order in which tasks finish\<close>

text \<open>A task that finishes with what it fetched, if anything, on the shared table; a task that panics
  leaves the table as it is.\<close>

definition settle ::
    "('pe, 'fdp, 'fd, 'sd, 'md) protobuf \<Rightarrow> (task \<Rightarrow> 'fdp list option) \<Rightarrow> task
      \<Rightarrow> (string \<rightharpoonup> 'md ServiceData) \<Rightarrow> (string \<rightharpoonup> 'md ServiceData)" where
  "settle P fetched t m =
     (case fetched t of
        None \<Rightarrow> m
      | Some ds \<Rightarrow> (case publish_task P t ds m of Returns m' \<Rightarrow> m' | Panic \<Rightarrow> m))"

lemma settle_commute:
  assumes "task_ok t" and "task_ok t'" and "t_generation t \<noteq> t_generation t'"
  shows "settle P fetched t (settle P fetched t' m) = settle P fetched t' (settle P fetched t m)"
proof -
  obtain n q n' q' where "t_services t = [(n, q)]" "t_services t' = [(n', q')]"
    using assms(1,2) by (auto simp: task_ok_def)
  note e = publish_task_eq [OF this(1)] publish_task_eq [OF this(2)]
  show ?thesis
    using assms(3) by (auto simp: settle_def e task_data_def newer_commute split: option.splits sum.splits)
qed

lemma settle_permuted:
  assumes g: "gen_invar k st" and "mset ts = mset (tasks st)"
  shows "fold (settle P fetched) ts m = fold (settle P fetched) (tasks st) m"
proof -
  have "settle P fetched a \<circ> settle P fetched b = settle P fetched b \<circ> settle P fetched a"
    if "a \<in> set ts" "b \<in> set ts" for a b
  proof (cases "a = b")
    case False
    have ab: "a \<in> set (tasks st)" "b \<in> set (tasks st)" using that mset_eq_setD [OF assms(2)] by auto
    with g False have "t_generation a \<noteq> t_generation b"
      by (auto simp: gen_invar_def distinct_map dest: inj_onD)
    moreover have "task_ok a" "task_ok b" using ab g by (auto simp: gen_invar_def)
    ultimately show ?thesis using settle_commute by fastforce
  qed simp
  from fold_multiset_equiv [OF this assms(2)] show ?thesis by simp
qed

end
