(* ===== verification/Service_Routes.thy ===== *)
theory Service_Routes
  imports Service_Store
begin

text \<open>
  The properties of the service store over runs: generations, the order of task completion, the
  independence of hash order, renames, and the main one, that in every run without renames and
  failed loads the routing table serves each gRPC service as its least resource says.
\<close>

section \<open>Routes in agreement with the resources\<close>

definition task_for :: "string \<Rightarrow> task \<Rightarrow> bool" where
  "task_for n t \<longleftrightarrow> n \<in> fst ` set (t_services t)"

text \<open>All these tasks that are for service \<open>n\<close> are older than generation \<open>g\<close>.\<close>

definition outdated :: "string \<Rightarrow> usize \<Rightarrow> task set \<Rightarrow> bool" where
  "outdated n g ts \<longleftrightarrow> (\<forall>t \<in> ts. task_for n t \<longrightarrow> t_generation t < g)"

definition serves :: "'lb dns_state \<Rightarrow> nat \<Rightarrow> Upstream \<Rightarrow> bool" where
  "serves d lb up \<longleftrightarrow> lb < length (handles d) \<and> h_host_port (handles d ! lb) = (url up, port up)"

text \<open>The table has the outcome of generation \<open>g\<close> for service \<open>n\<close>, or that outcome is the newest still
  to come.\<close>

definition published ::
    "('m, 'md, 'lb) config_state \<Rightarrow> string \<Rightarrow> usize \<Rightarrow> 'md ServiceSpec option \<Rightarrow> nat option \<Rightarrow> bool" where
  "published st n g sp lb \<longleftrightarrow>
     services st n = Some \<lparr>generation = g, service_spec = sp, load_balancer = lb\<rparr>
     \<and> outdated n g (set (tasks st))"

definition pending ::
    "('m, 'md, 'lb) config_state \<Rightarrow> string \<Rightarrow> task \<Rightarrow> bool" where
  "pending st n t \<longleftrightarrow> t \<in> set (tasks st) \<and> task_for n t \<and> outdated n (t_generation t) (set (tasks st) - {t})
     \<and> (\<forall>d. services st n = Some d \<longrightarrow> generation d < t_generation t)"

definition routed_as ::
    "('pe, 'fdp, 'fd, 'sd, 'md) protobuf \<Rightarrow> ('m, 'md, 'lb) config_state \<Rightarrow> GrcacheServiceSpec
      \<Rightarrow> QualifiedService \<Rightarrow> bool" where
  "routed_as P st sp q \<longleftrightarrow>
     (\<exists>g lb. serves (discovery st) lb (upstream sp) \<and>
       (case descriptor_set_source sp of
          None \<Rightarrow> published st (service_name sp) g (Some (build_passthrough q)) (Some lb)
        | Some source \<Rightarrow>
            pending st (service_name sp) \<lparr>t_generation = g, t_source = source,
              t_services = [(service_name sp, q)], t_load_balancer = lb\<rparr>
            \<or> (\<exists>ds built errs. ServiceSpec_build P ds q = Inr (built, errs)
                 \<and> published st (service_name sp) g (Some built) (Some lb))))"

definition unrouted :: "('m, 'md, 'lb) config_state \<Rightarrow> string \<Rightarrow> bool" where
  "unrouted st n \<longleftrightarrow>
     services st n = None \<and> (\<forall>t \<in> set (tasks st). \<not> task_for n t)
     \<or> (\<exists>g. published st n g None None)"

definition routes_agree ::
    "('pe, 'fdp, 'fd, 'sd, 'md) protobuf \<Rightarrow> ('m, 'md, 'lb) config_state \<Rightarrow> string \<Rightarrow> bool" where
  "routes_agree P st n \<longleftrightarrow>
     (refs_of n (raw_services st) = {} \<longrightarrow> unrouted st n)
     \<and> (\<forall>r obj q. least_ref (refs_of n (raw_services st)) r \<longrightarrow> raw_services st r = Some obj \<longrightarrow>
          QualifiedService_parse n = Inr q \<longrightarrow> routed_as P st (spec obj) q)"

text \<open>A change that renames no service, and no task that panics.\<close>

fun clean :: "('m GrcacheService \<Rightarrow> ObjectRef) \<Rightarrow> ('m, 'md, 'lb) config_state \<Rightarrow> 'm config_event \<Rightarrow> bool" where
  "clean from_obj st (Changed (Inr (Apply obj))) =
     (case raw_services st (from_obj obj) of
        Some prev \<Rightarrow> service_name (spec prev) = service_name (spec obj) | None \<Rightarrow> True)"
| "clean from_obj st (TaskPanicked i) = False"
| "clean from_obj st _ = True"

section \<open>Preservation\<close>

lemma handles_host_port:
  assumes "dns_step LB d d'" and "h < length (handles d)"
  shows "h < length (handles d') \<and> h_host_port (handles d' ! h) = h_host_port (handles d ! h)"
proof -
  have u: "h_host_port (handles (upd_handle k f d1) ! h) = h_host_port (handles d1 ! h)"
    if "\<And>x. h_host_port (f x) = h_host_port x" for k f and d1 :: "'a dns_state"
    using that by (cases "h = k"; cases "k < length (handles d1)") (simp_all add: upd_handle_def list_update_beyond)
  show ?thesis
    using assms(1)
  proof cases
    case (get hostname prt)
    show ?thesis
      by (cases rule: get_cases [of d hostname prt LB])
        (use get assms(2) in \<open>auto simp: with_new_def nth_append add_client_def u\<close>)
  next
    case recv
    then show ?thesis by (rule recv_cases) (use assms(2) in simp)
  qed (use assms(2) in \<open>auto simp: loop_ops add_client_def remove_client_def Let_def u\<close>)
qed

lemma serves_step: "dns_step LB d d' \<Longrightarrow> serves d lb up \<Longrightarrow> serves d' lb up"
  using handles_host_port by (auto simp: serves_def)

lemma backends_for_hostname_serves:
  assumes "dns_shape d"
  shows "serves (snd (backends_for_hostname LB (url up) (port up) d))
    (fst (backends_for_hostname LB (url up) (port up) d)) up"
proof (cases rule: get_cases [of d "url up" "port up" LB])
  case (reuse h)
  then show ?thesis
    using shape_table [OF assms reuse(1)]
    by (simp add: serves_def handles_upd_handle add_client_def)
next
  case fresh
  then show ?thesis by (simp add: serves_def with_new_def new_handle_def nth_append)
qed

text \<open>Agreement for a service depends only on its resources, its entry, its tasks, and the handles.\<close>

definition tasks_for :: "string \<Rightarrow> ('m, 'md, 'lb) config_state \<Rightarrow> task set" where
  "tasks_for n st = {t \<in> set (tasks st). task_for n t}"

lemma outdated_tasks_for: "outdated n g (set (tasks st)) \<longleftrightarrow> (\<forall>t \<in> tasks_for n st. t_generation t < g)"
  by (auto simp: outdated_def tasks_for_def)

lemma pending_tasks_for:
  "pending st n t \<longleftrightarrow> t \<in> tasks_for n st \<and> (\<forall>t' \<in> tasks_for n st - {t}. t_generation t' < t_generation t)
     \<and> (\<forall>d. services st n = Some d \<longrightarrow> generation d < t_generation t)"
  by (auto simp: pending_def outdated_def tasks_for_def)

lemma published_tasks_for:
  "published st n g sp lb \<longleftrightarrow>
     services st n = Some \<lparr>generation = g, service_spec = sp, load_balancer = lb\<rparr>
     \<and> (\<forall>t \<in> tasks_for n st. t_generation t < g)"
  by (simp add: published_def outdated_tasks_for)

lemma unrouted_tasks_for:
  "unrouted st n \<longleftrightarrow> services st n = None \<and> tasks_for n st = {} \<or> (\<exists>g. published st n g None None)"
  by (auto simp: unrouted_def tasks_for_def)

lemma unrouted_frame:
  "unrouted st n \<Longrightarrow> services st' n = services st n \<Longrightarrow> tasks_for n st' = tasks_for n st \<Longrightarrow> unrouted st' n"
  by (simp add: unrouted_tasks_for published_tasks_for)

lemma routed_as_frame:
  assumes "routed_as P st sp q" and "service_name sp = n"
    and "services st' n = services st n" and "tasks_for n st' = tasks_for n st"
    and "\<And>lb up. serves (discovery st) lb up \<Longrightarrow> serves (discovery st') lb up"
  shows "routed_as P st' sp q"
proof -
  have same: "published st' n = published st n" "pending st' n = pending st n"
    using assms(3,4) by (auto simp: fun_eq_iff published_tasks_for pending_tasks_for)
  obtain g lb where "serves (discovery st) lb (upstream sp)"
    and b: "case descriptor_set_source sp of
       None \<Rightarrow> published st n g (Some (build_passthrough q)) (Some lb)
     | Some source \<Rightarrow>
         pending st n \<lparr>t_generation = g, t_source = source, t_services = [(n, q)], t_load_balancer = lb\<rparr>
         \<or> (\<exists>ds built errs. ServiceSpec_build P ds q = Inr (built, errs) \<and> published st n g (Some built) (Some lb))"
    using assms(1) unfolding routed_as_def assms(2) by blast
  then have "serves (discovery st') lb (upstream sp)" using assms(5) by blast
  then show ?thesis
    using b unfolding routed_as_def assms(2) same by blast
qed

lemma agree_frame:
  assumes "routes_agree P st n" and "refs_of n (raw_services st') = refs_of n (raw_services st)"
    and raw: "\<And>r. r \<in> refs_of n (raw_services st) \<Longrightarrow> raw_services st' r = raw_services st r"
    and fr: "services st' n = services st n" "tasks_for n st' = tasks_for n st"
      "\<And>lb up. serves (discovery st) lb up \<Longrightarrow> serves (discovery st') lb up"
  shows "routes_agree P st' n"
  unfolding routes_agree_def assms(2)
proof (intro conjI allI impI)
  assume "refs_of n (raw_services st) = {}"
  then show "unrouted st' n" using assms(1) fr unrouted_frame unfolding routes_agree_def by blast
next
  fix r obj q
  assume l: "least_ref (refs_of n (raw_services st)) r" and o: "raw_services st' r = Some obj"
    and q: "QualifiedService_parse n = Inr q"
  have "r \<in> refs_of n (raw_services st)" using l by (simp add: least_ref_def)
  with o have obj: "raw_services st r = Some obj" "service_name (spec obj) = n"
    using raw by (auto simp: refs_of_def)
  then have "routed_as P st (spec obj) q" using assms(1) l q unfolding routes_agree_def by blast
  then show "routed_as P st' (spec obj) q" using obj(2) fr by (rule routed_as_frame)
qed

text \<open>An update brings its own service into agreement and leaves the others alone.\<close>

lemma newer_at_next:
  assumes "gen_invar k st" and "generation data = spec_generation st"
  shows "newer n data (services st) n = Some data"
  using assms by (auto simp: newer_same gen_invar_def split: option.splits)

lemma route_routed_as:
  assumes g: "gen_invar k st" and sh: "dns_shape (discovery st)"
  shows "routed_as P (route LB q sp st) sp q"
proof -
  let ?st = "route LB q sp st" and ?n = "service_name sp"
  let ?lb = "fst (backends_for_hostname LB (url (upstream sp)) (port (upstream sp)) (discovery st))"
  have old: "t_generation t < spec_generation st" if "t \<in> set (tasks st)" for t
    using that g by (simp add: gen_invar_def)
  have sv: "serves (discovery ?st) ?lb (upstream sp)" using backends_for_hostname_serves [OF sh] by simp
  show ?thesis
  proof (cases "descriptor_set_source sp")
    case None
    with old have "published ?st ?n (spec_generation st) (Some (build_passthrough q)) (Some ?lb)"
      by (simp add: published_def outdated_def route_tasks route_services newer_at_next [OF g])
    then show ?thesis using sv None unfolding routed_as_def by auto
  next
    case (Some source)
    with old g have "pending ?st ?n \<lparr>t_generation = spec_generation st, t_source = source,
        t_services = [(?n, q)], t_load_balancer = ?lb\<rparr>"
      by (auto simp: pending_def route_tasks route_services task_for_def outdated_def gen_invar_def)
    then show ?thesis using sv Some unfolding routed_as_def by auto
  qed
qed

lemma updated_own:
  assumes "updated LB n st st'" and g: "gen_invar k st" and sh: "dns_shape (discovery st)"
  shows "routes_agree P st' n"
  using assms(1)
proof cases
  case unloaded
  have "t_generation t < spec_generation st" if "t \<in> set (tasks st)" for t
    using that g by (simp add: gen_invar_def)
  then have "published st' n (spec_generation st) None None"
    unfolding unloaded published_def outdated_def by (simp add: unload_def)
  then show ?thesis
    using unloaded unfolding routes_agree_def unrouted_def by (auto simp: least_ref_def)
next
  case (routed r obj q)
  have "r' = r" if "least_ref (refs_of n (raw_services st)) r'" for r'
    using that routed(2) by (rule least_ref_unique)
  then have "routed_as P st' (spec obj') q'"
    if "least_ref (refs_of n (raw_services st)) r'" "raw_services st r' = Some obj'"
      "QualifiedService_parse n = Inr q'" for r' obj' q'
    using that routed route_routed_as [OF g sh] by force
  moreover have "refs_of n (raw_services st) \<noteq> {}" using routed(2) by (auto simp: least_ref_def)
  moreover have "raw_services st' = raw_services st" unfolding routed(1) by simp
  ultimately show ?thesis unfolding routes_agree_def by simp
qed

lemma updated_other:
  assumes "updated LB m st st'" and "m \<noteq> n"
  shows "services st' n = services st n" and "tasks_for n st' = tasks_for n st"
    and "serves (discovery st) lb up \<Longrightarrow> serves (discovery st') lb up"
proof -
  show "services st' n = services st n" "tasks_for n st' = tasks_for n st"
    using assms
    by (auto elim!: updated.cases simp: unload_def route_services route_tasks tasks_for_def task_for_def
        split: option.splits)
  show "serves (discovery st') lb up" if "serves (discovery st) lb up"
    using updated_discovery [OF assms(1)] that serves_step by metis
qed

text \<open>A task that finishes.\<close>

lemma tasks_for_drop_nth:
  assumes "gen_invar k st" and "i < length (tasks st)" and "tasks st' = drop_nth i (tasks st)"
  shows "tasks_for n st' = tasks_for n st - {tasks st ! i}"
proof -
  have "distinct (map t_generation (tasks st))" using assms(1) by (simp add: gen_invar_def)
  then have "t_generation (tasks st ! i) \<notin> t_generation ` set (drop_nth i (tasks st))"
    using drop_nth_props(3) [OF assms(2)] by blast
  then have "set (drop_nth i (tasks st)) = set (tasks st) - {tasks st ! i}"
    using drop_nth_props(2) [OF assms(2)] by auto
  then show ?thesis using assms(3) by (auto simp: tasks_for_def)
qed

lemma published_task_done:
  assumes "published st n g sp lb" and "t \<in> tasks_for n st"
    and "services st' = newer n (task_data t built) (services st)" and "tasks_for n st' = tasks_for n st - {t}"
  shows "published st' n g sp lb"
proof -
  have "t_generation t < g" using assms(1,2) by (simp add: published_tasks_for)
  then show ?thesis
    using assms by (auto simp: published_tasks_for newer_same task_data_def)
qed

text \<open>When a task ends while another one is pending, that one stays pending; a pending task that ends is published.\<close>

lemma pending_task_done:
  assumes p: "pending st n t0" and t: "t \<in> tasks_for n st"
    and s: "services st' = newer n (task_data t built) (services st)" and ts: "tasks_for n st' = tasks_for n st - {t}"
  shows "t = t0 \<and> published st' n (t_generation t0) (Some built) (Some (t_load_balancer t0)) \<or> pending st' n t0"
proof (cases "t = t0")
  case True
  with p have "services st' n = Some (task_data t0 built)"
    unfolding s by (auto simp: pending_tasks_for newer_same task_data_def split: option.splits)
  with p True show ?thesis by (simp add: pending_tasks_for published_tasks_for task_data_def ts)
next
  case False
  then have less: "t_generation t < t_generation t0" using p t by (simp add: pending_tasks_for)
  have "generation x < t_generation t0" if "services st' n = Some x" for x
    using that p less unfolding s by (auto simp: pending_tasks_for task_data_def dest!: newer_from)
  then show ?thesis using p False by (auto simp: pending_tasks_for ts)
qed

lemma routed_as_task_done:
  assumes "routed_as P st sp q" and n: "service_name sp = n" and t: "t \<in> tasks_for n st"
    and tq: "t_services t = [(n, q')]" and b: "ServiceSpec_build P ds q' = Inr (built, errs)"
    and s: "services st' = newer n (task_data t built) (services st)"
    and ts: "tasks_for n st' = tasks_for n st - {t}" and d: "discovery st' = discovery st"
  shows "routed_as P st' sp q"
proof -
  note pub = published_task_done [OF _ t s ts]
  from assms(1) obtain g lb where sv: "serves (discovery st) lb (upstream sp)"
    and cs: "case descriptor_set_source sp of
       None \<Rightarrow> published st n g (Some (build_passthrough q)) (Some lb)
     | Some source \<Rightarrow>
         pending st n \<lparr>t_generation = g, t_source = source, t_services = [(n, q)], t_load_balancer = lb\<rparr>
         \<or> (\<exists>ds built errs. ServiceSpec_build P ds q = Inr (built, errs) \<and> published st n g (Some built) (Some lb))"
    unfolding routed_as_def n by blast
  show ?thesis
  proof (cases "descriptor_set_source sp")
    case None
    then have "published st' n g (Some (build_passthrough q)) (Some lb)" using cs pub by simp
    with None sv show ?thesis unfolding routed_as_def n d by auto
  next
    case (Some source)
    let ?t = "\<lparr>t_generation = g, t_source = source, t_services = [(n, q)], t_load_balancer = lb\<rparr>"
    have "pending st' n ?t \<or> (\<exists>ds built errs. ServiceSpec_build P ds q = Inr (built, errs)
        \<and> published st' n g (Some built) (Some lb))" (is ?goal)
    proof (cases "pending st n ?t")
      case True
      from pending_task_done [OF True t s ts] show ?goal
      proof
        assume own: "t = ?t \<and> published st' n (t_generation ?t) (Some built) (Some (t_load_balancer ?t))"
        then have "q' = q" using tq by simp
        with own b show ?goal by auto
      qed simp
    qed (use cs Some in \<open>auto dest: pub\<close>)
    with Some sv show ?thesis unfolding routed_as_def n d by (intro exI [of _ g] exI [of _ lb]) simp
  qed
qed

lemma agree_task_done:
  assumes agree: "routes_agree P st n" and g: "gen_invar k st" and i: "i < length (tasks st)"
    and p: "publish_task P (tasks st ! i) ds (services st) = Returns m"
  shows "routes_agree P (st\<lparr>services := m, tasks := drop_nth i (tasks st)\<rparr>) n" (is "routes_agree P ?st n")
proof -
  let ?t = "tasks st ! i"
  have "task_ok ?t" using g i by (auto simp: gen_invar_def)
  then obtain n' q' where tq: "t_services ?t = [(n', q')]" by (auto simp: task_ok_def)
  obtain built errs where b: "ServiceSpec_build P ds q' = Inr (built, errs)"
    and m: "m = newer n' (task_data ?t built) (services st)"
    using p unfolding publish_task_eq [OF tq] by (auto split: sum.splits prod.splits)
  have ts: "tasks_for n ?st = tasks_for n st - {?t}" by (rule tasks_for_drop_nth [OF g i]) simp
  show ?thesis
  proof (cases "n' = n")
    case False
    then have "?t \<notin> tasks_for n st" using tq by (simp add: tasks_for_def task_for_def)
    with ts have "tasks_for n ?st = tasks_for n st" by simp
    with False show ?thesis by (intro agree_frame [OF agree]) (auto simp: m)
  next
    case True
    have t: "?t \<in> tasks_for n st" using tq True i by (simp add: tasks_for_def task_for_def)
    have s: "services ?st = newer n (task_data ?t built) (services st)" using m True by simp
    have "unrouted ?st n" if "unrouted st n"
      using that t published_task_done [OF _ t s ts] unfolding unrouted_tasks_for by blast
    moreover have "routed_as P ?st (spec obj) q"
      if "routed_as P st (spec obj) q" "service_name (spec obj) = n" for obj q
      using routed_as_task_done [OF that t _ b s ts] tq True by simp
    moreover have "service_name (spec obj) = n"
      if "least_ref (refs_of n (raw_services st)) r" "raw_services st r = Some obj" for r obj
      using that by (auto simp: least_ref_def refs_of_def)
    moreover have "raw_services ?st = raw_services st" by simp
    ultimately show ?thesis using agree unfolding routes_agree_def by metis
  qed
qed

lemma agree_deleted:
  assumes "routes_agree P st n" and "raw_services st r = Some prev" and "service_name (spec prev) \<noteq> n"
  shows "routes_agree P (without r st) n"
proof -
  have r: "r \<notin> refs_of n (raw_services st)" using assms(2,3) by (simp add: refs_of_def)
  show ?thesis
    by (rule agree_frame [OF assms(1)]) (use r in \<open>auto simp: refs_of_del tasks_for_def\<close>)
qed

lemma agree_applied:
  assumes "routes_agree P st n" and "clean from_obj st (Changed (Inr (Apply obj)))"
    and "service_name (spec obj) \<noteq> n"
  shows "routes_agree P (with_object (from_obj obj) obj st) n"
proof -
  have r: "from_obj obj \<notin> refs_of n (raw_services st)"
    using assms(2,3) by (auto simp: refs_of_def split: option.splits)
  show ?thesis
    by (rule agree_frame [OF assms(1)]) (use r assms(3) in \<open>auto simp: refs_of_upd tasks_for_def\<close>)
qed

lemma agree_updated:
  assumes "updated LB m st st'" and "m \<noteq> n" and "routes_agree P st n"
  shows "routes_agree P st' n"
  using updated_frame(1) [OF assms(1)] updated_other [OF assms(1,2)]
  by (intro agree_frame [OF assms(3)]) auto

lemma routes_agree_step:
  assumes "config_step from_obj LB ep P ev st st'" and "clean from_obj st ev"
    and inv: "refs_invar st" and g: "gen_invar k st" and sh: "dns_shape (discovery st)"
    and agree: "routes_agree P st n"
  shows "routes_agree P st' n"
  using assms(1)
proof cases
  case (changed ord c)
  from inv changed(2,3) show ?thesis
  proof (cases rule: handle_change_cases)
    case ready
    then show ?thesis by (intro agree_frame [OF agree]) (auto simp: tasks_for_def)
  next
    case (deleted r prev)
    show ?thesis
    proof (cases "service_name (spec prev) = n")
      case True
      have "gen_invar k (without r st)" by (rule gen_invar_cong [OF g]) simp_all
      from updated_own [OF _ this] deleted(3) True sh show ?thesis by simp
    next
      case False
      show ?thesis by (rule agree_updated [OF deleted(3) False agree_deleted [OF agree deleted(2) False]])
    qed
  next
    case (applied obj)
    show ?thesis
    proof (cases "service_name (spec obj) = n")
      case True
      have "gen_invar k (with_object (from_obj obj) obj st)" by (rule gen_invar_cong [OF g]) simp_all
      from updated_own [OF _ this] applied(2) True sh show ?thesis by simp
    next
      case False
      have "clean from_obj st (Changed (Inr (Apply obj)))" using assms(2) changed(1) applied(1) by simp
      from agree_updated [OF applied(2) False agree_applied [OF agree this False]] show ?thesis .
    qed
  qed (use agree in simp_all)
next
  case (task_done i ds m)
  show ?thesis unfolding task_done(2) by (rule agree_task_done [OF agree g task_done(3,4)])
next
  case (task_panicked i)
  with assms(2) show ?thesis by simp
next
  case (discovery_step d)
  show ?thesis
    unfolding discovery_step(2)
    by (rule agree_frame [OF agree]) (use serves_step [OF discovery_step(3)] in \<open>auto simp: tasks_for_def\<close>)
qed

section \<open>Clean runs\<close>

definition clean_step ::
    "('m GrcacheService \<Rightarrow> ObjectRef) \<Rightarrow> 'lb load_balancing \<Rightarrow> nat \<Rightarrow> ('pe, 'fdp, 'fd, 'sd, 'md) protobuf
      \<Rightarrow> ('m, 'md, 'lb) counted \<Rightarrow> ('m, 'md, 'lb) counted \<Rightarrow> bool" where
  "clean_step from_obj LB ep P c c' \<longleftrightarrow>
     snd c' = Suc (snd c)
     \<and> (\<exists>ev. clean from_obj (fst c) ev \<and> config_step from_obj LB ep P ev (fst c) (fst c'))"

definition clean_invar :: "('pe, 'fdp, 'fd, 'sd, 'md) protobuf \<Rightarrow> ('m, 'md, 'lb) counted \<Rightarrow> bool" where
  "clean_invar P c \<longleftrightarrow> config_invar c \<and> dns_shape (discovery (fst c)) \<and> held_invar (fst c)
     \<and> (snd c < 2 ^ 64 \<longrightarrow> (\<forall>n. routes_agree P (fst c) n))"

lemma routes_agree_init: "routes_agree P (config_init d w) n"
  by (simp add: routes_agree_def refs_of_def config_init_def unrouted_def least_ref_def)

interpretation clean: invariant_system "counted_init LB" "clean_step from_obj LB ep P" "clean_invar P"
  for LB :: "'lb load_balancing" and from_obj :: "'m GrcacheService \<Rightarrow> ObjectRef" and ep
    and P :: "('pe, 'fdp, 'fd, 'sd, 'md) protobuf"
proof
  fix c :: "('m, 'md, 'lb) counted"
  assume i: "counted_init LB c"
  then obtain d w where c: "fst c = config_init d w" "(dns_step LB)\<^sup>*\<^sup>* dns_new d"
    by (auto simp: counted_init_def)
  have "dns_shape d" using dns.invar_reachable [OF refl c(2)] by (simp add: dns_invar_def)
  then show "clean_invar P c"
    using cfg.invar_init [OF i] by (simp add: clean_invar_def c(1) routes_agree_init)
      (simp add: config_init_def)
next
  fix c c' :: "('m, 'md, 'lb) counted"
  assume inv: "clean_invar P c" and step: "clean_step from_obj LB ep P c c'"
  then obtain ev where ev: "clean from_obj (fst c) ev" "config_step from_obj LB ep P ev (fst c) (fst c')"
    and k: "snd c' = Suc (snd c)" by (auto simp: clean_step_def)
  have ci: "config_invar c" and sh: "dns_shape (discovery (fst c))" and held: "held_invar (fst c)"
    using inv by (auto simp: clean_invar_def)
  have "counted_step from_obj LB ep P c c'" using ev k by (auto simp: counted_step_def)
  with ci have ci': "config_invar c'" by (rule cfg.invar_step)
  have refs: "refs_invar (fst c)" using ci by (simp add: config_invar_def)
  have sh': "dns_shape (discovery (fst c'))"
    using discovery_of_step [OF ev(2) refs] sh dns_shape_step by metis
  have "routes_agree P (fst c') n" if "snd c' < 2 ^ 64" for n
  proof -
    have "gen_invar (snd c) (fst c)" "routes_agree P (fst c) n"
      using ci inv that k by (simp_all add: config_invar_def clean_invar_def)
    from routes_agree_step [OF ev(2,1) refs this(1) sh this(2)] show ?thesis .
  qed
  with ci' sh' held_step [OF ev(2) refs sh held] show "clean_invar P c'" by (simp add: clean_invar_def)
qed

section \<open>Properties\<close>

lemma least_ref_Min: "finite S \<Longrightarrow> S \<noteq> {} \<Longrightarrow> least_ref S (Min S)"
  using Min_in [of S] Min_le [of S] unfolding least_ref_def less_eq_ObjectRef_def by blast

lemma counted_initI: "(dns_step LB)\<^sup>*\<^sup>* dns_new d \<Longrightarrow> counted_init LB (config_init d w, 0)"
  by (auto simp: counted_init_def)

subsection \<open>A concrete run\<close>

abbreviation demo_from_obj :: "string GrcacheService \<Rightarrow> ObjectRef" where
  "demo_from_obj obj \<equiv> ObjectRef None (metadata obj)"

definition demo_object :: "string \<Rightarrow> string \<Rightarrow> string \<Rightarrow> DescriptorSetSource option \<Rightarrow> string GrcacheService" where
  "demo_object nm svc host source = \<lparr>metadata = nm, spec = \<lparr>cluster = default_string, upstream_name = None,
     upstream = Dns host default_grpc_port, service_name = svc, descriptor_set_source = source\<rparr>\<rparr>"

type_synonym demo_state = "(string, string \<times> i32 option, Backend set) config_state"

definition demo_config :: demo_state where
  "demo_config = config_init dns_new world_new"

text \<open>One passthrough resource, applied to the empty configuration.\<close>

definition demo_routed :: demo_state where
  "demo_routed = route demo_lb demo_service (spec (demo_object ''a'' ''example.TestService'' ''up'' None))
     (with_object (ObjectRef None ''a'') (demo_object ''a'' ''example.TestService'' ''up'' None) demo_config)"

lemma sorted_hash_order: "hash_order (sorted_list_of_set :: ObjectRef set \<Rightarrow> ObjectRef list)"
  by (simp add: hash_order_def enumerates_def)

lemma demo_refs: "refs_invar demo_config"
  by (simp add: demo_config_def)

lemma demo_parse: "QualifiedService_parse ''example.TestService'' = Inr demo_service"
  by (simp add: QualifiedService_parse_def)

definition demo_route_in :: "Backend set dns_state \<Rightarrow> world \<Rightarrow> demo_state" where
  "demo_route_in d w = route demo_lb demo_service (spec (demo_object ''a'' ''example.TestService'' ''up'' None))
     (with_object (ObjectRef None ''a'') (demo_object ''a'' ''example.TestService'' ''up'' None) (config_init d w))"

lemma demo_routed_in: "demo_routed = demo_route_in dns_new world_new"
  by (simp add: demo_routed_def demo_route_in_def demo_config_def)

lemma demo_applied_in:
  assumes "hash_order ord"
  shows "handle_change demo_from_obj demo_lb ord 1
     (Inr (Apply (demo_object ''a'' ''example.TestService'' ''up'' None))) (config_init d w) = Returns (demo_route_in d w)"
proof -
  let ?obj = "demo_object ''a'' ''example.TestService'' ''up'' None"
  let ?st = "with_object (ObjectRef None ''a'') ?obj (config_init d w :: demo_state)"
  have n: "service_name (spec ?obj) = ''example.TestService''" "metadata ?obj = ''a''"
    by (simp_all add: demo_object_def)
  have raw: "raw_services ?st = [ObjectRef None ''a'' \<mapsto> ?obj]" by (simp add: config_init_def)
  have "refs_of ''example.TestService'' (raw_services ?st) = {ObjectRef None ''a''}"
    unfolding raw using n by (auto simp: refs_of_def split: if_splits)
  then have "updated demo_lb ''example.TestService'' ?st (demo_route_in d w)"
    unfolding demo_route_in_def
    by (intro updated.routed [of _ _ "ObjectRef None ''a''" ?obj]) (simp_all add: raw n least_ref_def demo_parse)
  moreover have "ref_by_grpc_service ?st ''example.TestService'' \<noteq> None"
    using with_object_ref [of "ObjectRef None ''a''" ?obj "config_init d w :: demo_state"] unfolding n .
  ultimately have "update_service demo_lb ord ''example.TestService'' ?st = Returns (demo_route_in d w)"
    using update_service_updated(1) [OF refs_invar_with_object [OF refs_invar_init] assms] by blast
  then show ?thesis
    by (simp add: handle_change_def config_apply_eq [OF refs_invar_init] n)
qed

lemma demo_applied:
  "hash_order ord \<Longrightarrow> handle_change demo_from_obj demo_lb ord 1
     (Inr (Apply (demo_object ''a'' ''example.TestService'' ''up'' None))) demo_config = Returns demo_routed"
  unfolding demo_config_def demo_routed_in by (rule demo_applied_in)

lemma demo_clean_run: "(clean_step demo_from_obj demo_lb 1 demo_protobuf)\<^sup>*\<^sup>* (demo_config, 0) (demo_routed, 1)"
proof -
  let ?ev = "Changed (Inr (Apply (demo_object ''a'' ''example.TestService'' ''up'' None)))"
  have "config_step demo_from_obj demo_lb 1 demo_protobuf ?ev demo_config demo_routed"
    by (rule config_step.changed [OF sorted_hash_order demo_applied [OF sorted_hash_order]])
  moreover have "clean demo_from_obj demo_config ?ev" by (simp add: demo_config_def config_init_def)
  ultimately have "clean_step demo_from_obj demo_lb 1 demo_protobuf (demo_config, 0) (demo_routed, 1)"
    unfolding clean_step_def fst_conv snd_conv One_nat_def [symmetric] by (intro conjI exI [of _ ?ev]) simp_all
  then show ?thesis by (rule r_into_rtranclp)
qed

subsection \<open>Routing\<close>

lemma routed_as_quiet:
  assumes "routed_as P st sp q" and "tasks st = []"
  shows "\<exists>data built lb. services st (service_name sp) = Some data \<and> service_spec data = Some built
    \<and> load_balancer data = Some lb \<and> serves (discovery st) lb (upstream sp) \<and> service built = q
    \<and> (passthrough built \<longleftrightarrow> descriptor_set_source sp = None) \<and> (passthrough built \<longrightarrow> methods built = Map.empty)"
proof -
  have built: "service built = q \<and> \<not> passthrough built" if "ServiceSpec_build P ds q = Inr (built, errs)"
    for ds built errs
    using that by (auto simp: ServiceSpec_build_def Let_def split: sum.splits)
  show ?thesis
    using assms built
    by (fastforce simp: routed_as_def published_def pending_def build_passthrough_def split: option.splits)
qed

lemma quiet_routes:
  assumes "(dns_step LB)\<^sup>*\<^sup>* dns_new d"
    and "(clean_step from_obj LB ep P)\<^sup>*\<^sup>* (config_init d w, 0) (st, k)" and "k < 2 ^ 64"
    and "tasks st = []"
  shows "(refs_of n (raw_services st) = {} \<longrightarrow>
      (\<forall>data. services st n = Some data \<longrightarrow> service_spec data = None \<and> load_balancer data = None))
    \<and> (refs_of n (raw_services st) \<noteq> {} \<longrightarrow>
        (\<exists>obj data sp lb. raw_services st (Min (refs_of n (raw_services st))) = Some obj
           \<and> services st n = Some data \<and> service_spec data = Some sp \<and> load_balancer data = Some lb
           \<and> serves (discovery st) lb (upstream (spec obj)) \<and> QualifiedService_display (service sp) = n
           \<and> (passthrough sp \<longleftrightarrow> descriptor_set_source (spec obj) = None)
           \<and> (passthrough sp \<longrightarrow> methods sp = Map.empty)))"
proof -
  have inv: "clean_invar P (st, k)"
    by (rule clean.invar_reachable [OF counted_initI [OF assms(1)] assms(2)])
  then have agree: "routes_agree P st n" using assms(3) by (simp add: clean_invar_def)
  have fin: "finite (refs_of n (raw_services st))" and ok: "names_ok st"
    using inv by (simp_all add: clean_invar_def config_invar_def refs_invar_def refs_of_finite)
  have "\<exists>obj data sp lb. raw_services st (Min (refs_of n (raw_services st))) = Some obj
      \<and> services st n = Some data \<and> service_spec data = Some sp \<and> load_balancer data = Some lb
      \<and> serves (discovery st) lb (upstream (spec obj)) \<and> QualifiedService_display (service sp) = n
      \<and> (passthrough sp \<longleftrightarrow> descriptor_set_source (spec obj) = None) \<and> (passthrough sp \<longrightarrow> methods sp = Map.empty)"
    if ne: "refs_of n (raw_services st) \<noteq> {}"
  proof -
    have l: "least_ref (refs_of n (raw_services st)) (Min (refs_of n (raw_services st)))"
      by (rule least_ref_Min [OF fin ne])
    then obtain obj where obj: "raw_services st (Min (refs_of n (raw_services st))) = Some obj"
      and nm: "service_name (spec obj) = n" by (auto simp: least_ref_def refs_of_def)
    obtain q where q: "QualifiedService_parse n = Inr q" using ok obj nm parse_dotted by (metis names_ok_def)
    have "routed_as P st (spec obj) q" using agree l obj q unfolding routes_agree_def by blast
    from routed_as_quiet [OF this assms(4)] nm obj q show ?thesis
      by (auto simp: QualifiedService_parse_Inr)
  qed
  moreover have "service_spec data = None \<and> load_balancer data = None"
    if "refs_of n (raw_services st) = {}" "services st n = Some data" for data
    using that agree by (auto simp: routes_agree_def unrouted_def published_def)
  ultimately show ?thesis by blast
qed

text \<open>C1. Requests go where the resources say. In every run in which no resource is renamed to another
  service and no loading task panics, with changes, task completions and discovery in any order:
  once no task is pending, a gRPC service without resources is not routed, and one with resources is
  served by a handle for the upstream of its least resource, with a specification of that service
  that is a passthrough, without methods, exactly when this resource names no descriptor set.\<close>

theorem routes_follow_resources:
  assumes "(dns_step LB)\<^sup>*\<^sup>* dns_new d"
    and "(clean_step from_obj LB ep P)\<^sup>*\<^sup>* (config_init d w, 0) (st, k)" and "k < 2 ^ 64"
    and "tasks st = []"
  shows "(refs_of n (raw_services st) = {} \<longrightarrow>
      (\<forall>data. services st n = Some data \<longrightarrow> service_spec data = None \<and> load_balancer data = None))
    \<and> (refs_of n (raw_services st) \<noteq> {} \<longrightarrow>
        (\<exists>obj data sp lb. raw_services st (Min (refs_of n (raw_services st))) = Some obj
           \<and> services st n = Some data \<and> service_spec data = Some sp \<and> load_balancer data = Some lb
           \<and> serves (discovery st) lb (upstream (spec obj)) \<and> QualifiedService_display (service sp) = n
           \<and> (passthrough sp \<longleftrightarrow> descriptor_set_source (spec obj) = None)
           \<and> (passthrough sp \<longrightarrow> methods sp = Map.empty)))"
  using assms by (rule quiet_routes)

theorem routes_follow_resources_witness:
  "\<exists>data sp lb. services demo_routed ''example.TestService'' = Some data \<and> service_spec data = Some sp
     \<and> load_balancer data = Some lb \<and> serves (discovery demo_routed) lb (Dns ''up'' default_grpc_port)
     \<and> passthrough sp"
proof -
  let ?obj = "demo_object ''a'' ''example.TestService'' ''up'' None"
  have "raw_services demo_routed = [ObjectRef None ''a'' \<mapsto> ?obj]" "tasks demo_routed = []"
    by (simp_all add: demo_routed_def route_tasks demo_config_def config_init_def) (simp add: demo_object_def)
  moreover from this have "refs_of ''example.TestService'' (raw_services demo_routed) = {ObjectRef None ''a''}"
    by (auto simp: refs_of_def demo_object_def)
  ultimately show ?thesis
    using routes_follow_resources [OF rtranclp.rtrancl_refl demo_clean_run [unfolded demo_config_def],
        of "''example.TestService''"]
    by (auto simp: demo_object_def)
qed

subsection \<open>Generations\<close>

lemma keeps_run:
  assumes "(counted_step from_obj LB ep P)\<^sup>*\<^sup>* c c'" and "config_invar c" and "snd c' < 2 ^ 64"
    and "services (fst c) n = Some data"
  shows "\<exists>data'. services (fst c') n = Some data' \<and> generation data \<le> generation data'"
  using assms
proof (induction rule: rtranclp_induct)
  case (step c1 c2)
  then obtain ev where k: "snd c2 = Suc (snd c1)" and st: "config_step from_obj LB ep P ev (fst c1) (fst c2)"
    by (auto simp: counted_step_def)
  with step obtain d1 where d1: "services (fst c1) n = Some d1" "generation data \<le> generation d1" by auto
  have "config_invar c1" by (rule cfg.invar_run [OF step.hyps(1) step.prems(1)])
  then have "refs_invar (fst c1)" "gen_invar (snd c1) (fst c1)"
    using k step.prems(2) by (auto simp: config_invar_def)
  from step_keeps [OF st this d1(1)] d1(2) show ?case by (auto intro: order.trans)
qed auto

text \<open>C13. The routing table never goes back: in every interleaving of changes, task completions and task
  panics, a service that has an entry keeps one, and its generation never decreases.\<close>

theorem generations_never_go_back:
  assumes "(dns_step LB)\<^sup>*\<^sup>* dns_new d"
    and "(counted_step from_obj LB ep P)\<^sup>*\<^sup>* (config_init d w, 0) (st, k)"
    and "(counted_step from_obj LB ep P)\<^sup>*\<^sup>* (st, k) (st', k')" and "k' < 2 ^ 64"
    and "services st n = Some data"
  shows "\<exists>data'. services st' n = Some data' \<and> generation data \<le> generation data'"
  using keeps_run [OF assms(3) cfg.invar_reachable [OF counted_initI [OF assms(1)] assms(2)]] assms(4,5)
  by simp

lemma clean_counted: "(clean_step from_obj LB ep P)\<^sup>*\<^sup>* c c' \<Longrightarrow> (counted_step from_obj LB ep P)\<^sup>*\<^sup>* c c'"
  by (rule rtranclp_mono [THEN predicate2D]) (auto simp: clean_step_def counted_step_def)

lemmas demo_run = demo_clean_run [THEN clean_counted]

text \<open>The same service unloaded again: its only resource is deleted.\<close>

definition demo_unloaded :: demo_state where
  "demo_unloaded = unload ''example.TestService'' (without (ObjectRef None ''a'') demo_routed)"

lemma demo_routed_raw:
  "raw_services demo_routed = [ObjectRef None ''a'' \<mapsto> demo_object ''a'' ''example.TestService'' ''up'' None]"
  by (simp add: demo_routed_def demo_config_def config_init_def)

lemma demo_routed_refs: "refs_invar demo_routed"
  using cfg.invar_reachable [OF counted_initI [OF rtranclp.rtrancl_refl] demo_run [unfolded demo_config_def]]
  by (simp add: config_invar_def)

lemma demo_deleted:
  assumes "hash_order ord"
  shows "handle_change demo_from_obj demo_lb ord 1 (Inr (Delete (ObjectRef None ''a''))) demo_routed
    = Returns demo_unloaded"
proof -
  let ?st = "without (ObjectRef None ''a'') demo_routed"
  let ?obj = "demo_object ''a'' ''example.TestService'' ''up'' None"
  have "refs_of ''example.TestService'' (raw_services ?st) = {}"
    by (simp add: refs_of_def demo_routed_raw)
  then have "updated demo_lb ''example.TestService'' ?st demo_unloaded"
    unfolding demo_unloaded_def by (rule updated.unloaded)
  moreover have "ref_by_grpc_service ?st ''example.TestService'' \<noteq> None"
    using without_ref [of demo_routed "ObjectRef None ''a''" ?obj] by (simp add: demo_routed_raw demo_object_def)
  ultimately have "update_service demo_lb ord ''example.TestService'' ?st = Returns demo_unloaded"
    using update_service_updated(1) [OF refs_invar_without [OF demo_routed_refs] assms] by metis
  then show ?thesis
    by (simp add: handle_change_def config_remove_eq [OF demo_routed_refs] demo_routed_raw demo_object_def)
qed

lemma demo_unload_step:
  "counted_step demo_from_obj demo_lb 1 demo_protobuf (demo_routed, 1) (demo_unloaded, 2)"
  using config_step.changed [OF sorted_hash_order demo_deleted [OF sorted_hash_order], of demo_protobuf]
  unfolding counted_step_def fst_conv snd_conv by auto

theorem generations_never_go_back_witness:
  "\<exists>data data'. services demo_routed ''example.TestService'' = Some data
     \<and> services demo_unloaded ''example.TestService'' = Some data' \<and> generation data \<le> generation data'"
proof -
  have "services demo_routed ''example.TestService'' \<noteq> None"
    by (simp add: demo_routed_def route_services demo_object_def newer_same demo_config_def config_init_def)
  then obtain data where d: "services demo_routed ''example.TestService'' = Some data" by auto
  show ?thesis
    using generations_never_go_back [OF rtranclp.rtrancl_refl demo_run [unfolded demo_config_def]
        r_into_rtranclp [of "counted_step demo_from_obj demo_lb 1 demo_protobuf", OF demo_unload_step] _ d] d by auto
qed

subsection \<open>Loading tasks\<close>

text \<open>C14. The order in which loading tasks finish does not matter: from every reachable state, running the
  pending tasks to their end in any order, each with what it fetched, or to its panic, leaves the same
  routing table.\<close>

theorem completion_order_irrelevant:
  assumes "(dns_step LB)\<^sup>*\<^sup>* dns_new d"
    and "(counted_step from_obj LB ep P)\<^sup>*\<^sup>* (config_init d w, 0) (st, k)" and "k < 2 ^ 64"
    and "mset ts = mset (tasks st)"
  shows "fold (settle P fetched) ts (services st) = fold (settle P fetched) (tasks st) (services st)"
proof -
  have "config_invar (st, k)" by (rule cfg.invar_reachable [OF counted_initI [OF assms(1)] assms(2)])
  then have "gen_invar k st" using assms(3) by (simp add: config_invar_def)
  then show ?thesis using assms(4) by (rule settle_permuted)
qed

text \<open>Two loading tasks of the same service: the second version of the resource came before the first
  was loaded.\<close>

definition demo_source :: "string \<Rightarrow> string GrcacheService" where
  "demo_source host = demo_object ''a'' ''example.TestService'' host (Some (Inline ''''))"

definition demo_loading1 :: demo_state where
  "demo_loading1 = route demo_lb demo_service (spec (demo_source ''one''))
     (with_object (ObjectRef None ''a'') (demo_source ''one'') demo_config)"

definition demo_loading2 :: demo_state where
  "demo_loading2 = route demo_lb demo_service (spec (demo_source ''two''))
     (with_object (ObjectRef None ''a'') (demo_source ''two'') demo_loading1)"

lemma demo_source_sel [simp]:
  "service_name (spec (demo_source h)) = ''example.TestService''" "metadata (demo_source h) = ''a''"
  "descriptor_set_source (spec (demo_source h)) = Some (Inline '''')"
  by (simp_all add: demo_source_def demo_object_def)

lemma demo_source_step:
  assumes inv: "refs_invar st" and raw: "raw_services st |` (- {ObjectRef None ''a''}) = Map.empty"
  shows "config_step demo_from_obj demo_lb 1 P (Changed (Inr (Apply (demo_source h)))) st
    (route demo_lb demo_service (spec (demo_source h)) (with_object (ObjectRef None ''a'') (demo_source h) st))"
    (is "config_step _ _ _ _ _ _ ?st'")
proof -
  let ?st = "with_object (ObjectRef None ''a'') (demo_source h) st"
  have r: "raw_services ?st = [ObjectRef None ''a'' \<mapsto> demo_source h]"
  proof (rule ext)
    fix r
    show "raw_services ?st r = [ObjectRef None ''a'' \<mapsto> demo_source h] r"
      using fun_cong [OF raw, of r] by (auto simp: restrict_map_def split: if_splits)
  qed
  have "refs_of ''example.TestService'' (raw_services ?st) = {ObjectRef None ''a''}"
    unfolding r by (auto simp: refs_of_def split: if_splits)
  then have "updated demo_lb ''example.TestService'' ?st ?st'"
    by (intro updated.routed [of _ _ "ObjectRef None ''a''" "demo_source h"])
      (simp_all add: least_ref_def demo_parse)
  moreover have "ref_by_grpc_service ?st ''example.TestService'' \<noteq> None"
    using with_object_ref [of "ObjectRef None ''a''" "demo_source h" st] by simp
  ultimately have "update_service demo_lb sorted_list_of_set ''example.TestService'' ?st = Returns ?st'"
    using update_service_updated(1) [OF refs_invar_with_object [OF inv] sorted_hash_order] by metis
  then show ?thesis
    by (intro config_step.changed [OF sorted_hash_order])
      (simp add: handle_change_def config_apply_eq [OF inv])
qed

lemma demo_loading_run:
  "(counted_step demo_from_obj demo_lb 1 demo_protobuf)\<^sup>*\<^sup>* (demo_config, 0) (demo_loading2, 2)"
proof -
  have 1: "config_step demo_from_obj demo_lb 1 demo_protobuf
      (Changed (Inr (Apply (demo_source ''one'')))) demo_config demo_loading1"
    unfolding demo_loading1_def
    by (rule demo_source_step [OF demo_refs]) (simp add: demo_config_def config_init_def)
  then have inv1: "refs_invar demo_loading1" by (rule refs_invar_step [OF _ demo_refs])
  have 2: "config_step demo_from_obj demo_lb 1 demo_protobuf
      (Changed (Inr (Apply (demo_source ''two'')))) demo_loading1 demo_loading2"
    unfolding demo_loading2_def
    by (rule demo_source_step [OF inv1])
      (simp add: demo_loading1_def demo_config_def config_init_def fun_eq_iff restrict_map_def)
  have "counted_step demo_from_obj demo_lb 1 demo_protobuf (demo_config, 0) (demo_loading1, 1)"
    "counted_step demo_from_obj demo_lb 1 demo_protobuf (demo_loading1, 1) (demo_loading2, 2)"
    unfolding counted_step_def fst_conv snd_conv using 1 2 by auto
  then show ?thesis by (meson converse_rtranclp_into_rtranclp r_into_rtranclp)
qed

theorem completion_order_irrelevant_witness:
  "length (tasks demo_loading2) = 2
   \<and> fold (settle demo_protobuf (\<lambda>_. Some demo_files)) (rev (tasks demo_loading2)) (services demo_loading2)
     = fold (settle demo_protobuf (\<lambda>_. Some demo_files)) (tasks demo_loading2) (services demo_loading2)"
proof
  show "length (tasks demo_loading2) = 2"
    by (simp add: demo_loading2_def demo_loading1_def route_tasks demo_config_def config_init_def)
  show "fold (settle demo_protobuf (\<lambda>_. Some demo_files)) (rev (tasks demo_loading2)) (services demo_loading2)
     = fold (settle demo_protobuf (\<lambda>_. Some demo_files)) (tasks demo_loading2) (services demo_loading2)"
    by (rule completion_order_irrelevant [OF rtranclp.rtrancl_refl demo_loading_run [unfolded demo_config_def]])
      simp_all
qed

subsection \<open>One change\<close>

lemma reachable_refs:
  assumes "(dns_step LB)\<^sup>*\<^sup>* dns_new d"
    and "(counted_step from_obj LB ep P)\<^sup>*\<^sup>* (config_init d w, 0) (st, k)"
  shows "refs_invar st"
  using cfg.invar_reachable [OF counted_initI [OF assms(1)] assms(2)] by (simp add: config_invar_def)

text \<open>C33. Replicas behave identically: what a change does, its panic included, does not depend on the hash
  order in which the resources of a service are visited.\<close>

theorem hash_order_irrelevant:
  assumes "(dns_step LB)\<^sup>*\<^sup>* dns_new d"
    and "(counted_step from_obj LB ep P)\<^sup>*\<^sup>* (config_init d w, 0) (st, k)"
    and "hash_order ord" and "hash_order ord'"
  shows "handle_change from_obj LB ord ep c st = handle_change from_obj LB ord' ep c st"
proof -
  have inv: "refs_invar st" by (rule reachable_refs [OF assms(1,2)])
  have u: "update_service LB ord n s = update_service LB ord' n s"
    if "refs_invar s" "ref_by_grpc_service s n \<noteq> None" for n s
    using update_service_updated [OF that(1) assms(3) that(2), of LB]
      update_service_updated [OF that(1) assms(4) that(2), of LB]
    by (cases "update_service LB ord n s"; cases "update_service LB ord' n s") auto
  show ?thesis
  proof (cases "\<exists>r. c = Inr (Delete r)")
    case True
    then obtain r where c: "c = Inr (Delete r)" by blast
    show ?thesis
      using u [OF refs_invar_without [OF inv] without_ref]
      by (cases "raw_services st r") (simp_all add: c handle_change_def config_remove_eq [OF inv])
  next
    case False
    then show ?thesis
      using u [OF refs_invar_with_object [OF inv] with_object_ref]
      by (auto simp: handle_change_def config_apply_eq [OF inv] split: sum.split ResourceChange.split)
  qed
qed

abbreviation demo_delete :: "unit + (string GrcacheService, ObjectRef) ResourceChange" where
  "demo_delete \<equiv> Inr (Delete (ObjectRef None ''a''))"

theorem hash_order_irrelevant_witness:
  "handle_change demo_from_obj demo_lb (\<lambda>S. rev (sorted_list_of_set S)) 1 demo_delete demo_routed
   = handle_change demo_from_obj demo_lb sorted_list_of_set 1 demo_delete demo_routed"
  by (rule hash_order_irrelevant [OF rtranclp.rtrancl_refl demo_run [unfolded demo_config_def] _ sorted_hash_order])
    (simp add: hash_order_def enumerates_def)

text \<open>The configuration service panics exactly when a resource is applied whose service name has no
  dot; no other change, in no reachable state, makes it panic.\<close>

lemma config_panics_iff:
  assumes "(dns_step LB)\<^sup>*\<^sup>* dns_new d"
    and "(counted_step from_obj LB ep P)\<^sup>*\<^sup>* (config_init d w, 0) (st, k)" and "hash_order ord"
  shows "handle_change from_obj LB ord ep c st = Panic \<longleftrightarrow>
    (\<exists>obj. c = Inr (Apply obj) \<and> CHR ''.'' \<notin> set (service_name (spec obj)))"
proof -
  have "names_ok st"
    using cfg.invar_reachable [OF counted_initI [OF assms(1)] assms(2)] by (simp add: config_invar_def)
  then show ?thesis
    using handle_change_panics [OF reachable_refs [OF assms(1,2)] assms(3), of from_obj LB ep c]
    by (auto simp: names_ok_def)
qed

abbreviation demo_bad :: "unit + (string GrcacheService, ObjectRef) ResourceChange" where
  "demo_bad \<equiv> Inr (Apply (demo_object ''b'' ''nodot'' ''up'' None))"

text \<open>The cluster and the upstream name of a resource play no part: what an update does and the requests it routes
  are the same whatever they are.\<close>

lemma route_ignores_cluster: "route LB q (sp\<lparr>cluster := c, upstream_name := u\<rparr>) st = route LB q sp st"
  by (simp add: route_def Let_def split: prod.split option.split)

text \<open>C37. Renaming a resource to another service leaves the route of the old service as it was, although
  the resource no longer belongs to it: whatever entry the old name had, it still has.\<close>

theorem rename_keeps_old_route:
  assumes "(dns_step LB)\<^sup>*\<^sup>* dns_new d"
    and "(counted_step from_obj LB ep P)\<^sup>*\<^sup>* (config_init d w, 0) (st, k)" and "hash_order ord"
    and "raw_services st (from_obj obj) = Some prev" and "service_name (spec prev) \<noteq> service_name (spec obj)"
    and "handle_change from_obj LB ord ep (Inr (Apply obj)) st = Returns st'"
  shows "services st' (service_name (spec prev)) = services st (service_name (spec prev))
    \<and> from_obj obj \<in> refs_of (service_name (spec prev)) (raw_services st)
    \<and> from_obj obj \<notin> refs_of (service_name (spec prev)) (raw_services st')"
proof -
  have inv: "refs_invar st" by (rule reachable_refs [OF assms(1,2)])
  have up: "updated LB (service_name (spec obj)) (with_object (from_obj obj) obj st) st'"
    using inv assms(3,6) by (cases rule: handle_change_cases) auto
  have "raw_services st' = (raw_services st)(from_obj obj \<mapsto> obj)" using updated_frame(1) [OF up] by simp
  moreover have "services st' (service_name (spec prev)) = services st (service_name (spec prev))"
    using updated_other(1) [OF up assms(5) [symmetric]] by simp
  ultimately show ?thesis using assms(4,5) by (simp add: refs_of_def)
qed

definition demo_renamed :: "string GrcacheService" where
  "demo_renamed = demo_object ''a'' ''example.Other'' ''up'' None"

theorem rename_keeps_old_route_witness:
  "\<exists>st'. handle_change demo_from_obj demo_lb sorted_list_of_set 1
       (Inr (Apply demo_renamed) :: unit + (string GrcacheService, ObjectRef) ResourceChange) demo_routed = Returns st'
     \<and> services st' ''example.TestService'' = services demo_routed ''example.TestService''
     \<and> services st' ''example.TestService'' \<noteq> None"
proof -
  let ?c = "Inr (Apply demo_renamed) :: unit + (string GrcacheService, ObjectRef) ResourceChange"
  let ?h = "handle_change demo_from_obj demo_lb sorted_list_of_set 1 ?c demo_routed"
  have n: "service_name (spec demo_renamed) = ''example.Other''" "metadata demo_renamed = ''a''"
    by (simp_all add: demo_renamed_def demo_object_def)
  have "?h \<noteq> Panic"
    using handle_change_panics [OF demo_routed_refs sorted_hash_order, of demo_from_obj demo_lb 1 ?c] n by auto
  then obtain st' where h: "?h = Returns st'" by (cases ?h) auto
  have "services demo_routed ''example.TestService'' \<noteq> None"
    by (simp add: demo_routed_def route_services demo_object_def newer_same demo_config_def config_init_def)
  then show ?thesis
    using rename_keeps_old_route [OF rtranclp.rtrancl_refl demo_run [unfolded demo_config_def]
        sorted_hash_order _ _ h] h n
    by (auto simp: demo_routed_raw demo_object_def)
qed

end
