(* ===== verification/Grpc.thy ===== *)
theory Grpc
  imports Names
begin

text \<open>
  \<open>grcache-proxy/src/grpc\<close>: the \<open>vary\<close> set and the header stripping of \<open>headers.rs\<close>, the bytes that
  \<open>hash.rs\<close> feeds to the hasher, and the gRPC status of \<open>status.rs\<close>. The \<open>http\<close> crate's header map
  is a parameter, the record \<open>header_map\<close>, with its documented laws as a named hypothesis; a hasher is
  modelled by the bytes it was fed. The lemmas say exactly which headers are stripped, that the hashed
  bytes determine what they were made from, and which trailers count as success.
\<close>

section \<open>The header map\<close>

text \<open>What the sources call of \<open>http::HeaderMap\<close>: \<open>get_all\<close> with \<open>as_bytes\<close>, \<open>keys\<close>, \<open>get\<close>, \<open>remove\<close>, and
  \<open>HeaderValue::to_str\<close>.\<close>

record 'h header_map =
  hm_get_all :: "'h \<Rightarrow> string \<Rightarrow> bytes list"
  hm_keys :: "'h \<Rightarrow> string list"
  hm_get :: "'h \<Rightarrow> string \<Rightarrow> bytes option"
  hm_remove :: "'h \<Rightarrow> string \<Rightarrow> 'h"
  hv_to_str :: "bytes \<Rightarrow> string option"

text \<open>Documented behaviour: \<open>get\<close> returns the first value, \<open>keys\<close> yields the names that have a value,
  each once and in lower case, removing one of them removes it and no other, a value never contains a
  NUL byte, and \<open>to_str\<close> is the identity on the values it accepts.\<close>

definition header_laws :: "'h header_map \<Rightarrow> bool" where
  "header_laws H \<longleftrightarrow>
     (\<forall>h k. hm_get H h k = (case hm_get_all H h k of [] \<Rightarrow> None | v # _ \<Rightarrow> Some v))
     \<and> (\<forall>h. distinct (hm_keys H h))
     \<and> (\<forall>h k. k \<in> set (hm_keys H h) \<longrightarrow> hm_get_all H h k \<noteq> [])
     \<and> (\<forall>h k. k \<in> set (hm_keys H h) \<longrightarrow> set (hm_keys H (hm_remove H h k)) = set (hm_keys H h) - {k}
          \<and> (\<forall>k' \<in> set (hm_keys H h) - {k}. hm_get_all H (hm_remove H h k) k' = hm_get_all H h k'))
     \<and> (\<forall>h k v. v \<in> set (hm_get_all H h k) \<longrightarrow> CHR 0x00 \<notin> set v)
     \<and> (\<forall>v s. hv_to_str H v = Some s \<longrightarrow> s = v)"

section \<open>Headers\<close>

text \<open>\<open>str::trim\<close> on the ASCII text that \<open>to_str\<close> yields.\<close>

definition is_space :: "char \<Rightarrow> bool" where
  "is_space c \<longleftrightarrow> c = CHR '' '' \<or> (9 \<le> byte_val c \<and> byte_val c \<le> 13)"

definition trim :: "string \<Rightarrow> string" where
  "trim s = rev (dropWhile is_space (rev (dropWhile is_space s)))"

text \<open>The iterator chain of \<open>make_vary_headers_set\<close>: \<open>flat_map\<close> turns a failed \<open>to_str\<close> into no items, so
  the collected result is never an error.\<close>

definition make_vary_headers_set :: "'h header_map \<Rightarrow> 'h \<Rightarrow> unit + string set" where
  "make_vary_headers_set H headers =
     Inr (set (map trim (concat (map (\<lambda>v. case hv_to_str H v of Some i \<Rightarrow> split_on CHR '','' i | None \<Rightarrow> [])
       (hm_get_all H headers ''vary'')))))"

definition CORE_HEADERS :: "string set" where
  "CORE_HEADERS = {''host'', ''content-type'', ''te'', ''vary'', ''user-agent''}"

definition find_strip_headers :: "'h header_map \<Rightarrow> 'h \<Rightarrow> string set \<Rightarrow> string set \<Rightarrow> string list" where
  "find_strip_headers H req_headers vary_set propagation_set =
     filter (\<lambda>key. \<not> (key \<in> CORE_HEADERS \<or> key \<in> vary_set \<or> key \<in> propagation_set)) (hm_keys H req_headers)"

section \<open>Hashing\<close>

definition to_le_bytes :: "usize \<Rightarrow> bytes" where
  "to_le_bytes n = map (\<lambda>i. char_of (unat (drop_bit (8 * i) n) mod 256 :: nat)) [0..<8]"

abbreviation len :: "bytes \<Rightarrow> usize" where
  "len bs \<equiv> of_nat (length bs)"

fun intersperse :: "'a \<Rightarrow> 'a list \<Rightarrow> 'a list" where
  "intersperse s (x # y # xs) = x # s # intersperse s (y # xs)"
| "intersperse s xs = xs"

text \<open>The bytes fed to the hasher, in order.\<close>

definition hash_vary_header :: "'h header_map \<Rightarrow> 'h \<Rightarrow> string \<Rightarrow> bytes" where
  "hash_vary_header H headers nm =
     nm @ [CHR 0x00] @ concat (intersperse '', '' (hm_get_all H headers nm)) @ [CHR 0x00, CHR 0x00]"

definition hash_vary :: "'h header_map \<Rightarrow> string set \<Rightarrow> 'h \<Rightarrow> bytes" where
  "hash_vary H vary_set headers = concat (map (hash_vary_header H headers) (sorted_list_of_set vary_set))"

definition hash_body :: "bytes \<Rightarrow> bytes \<Rightarrow> bytes" where
  "hash_body raw_path body = to_le_bytes (len raw_path) @ raw_path @ to_le_bytes (len body) @ body"

section \<open>Status\<close>

datatype int_error = Empty | InvalidDigit | PosOverflow

text \<open>\<open>u8::from_str\<close>: an optional plus sign, then decimal digits; at each position the digit is checked
  before the overflow.\<close>

definition to_digit :: "char \<Rightarrow> nat option" where
  "to_digit c = (if 48 \<le> byte_val c \<and> byte_val c \<le> 57 then Some (byte_val c - 48) else None)"

fun parse_digits :: "nat \<Rightarrow> string \<Rightarrow> int_error + nat" where
  "parse_digits acc [] = Inr acc"
| "parse_digits acc (c # cs) =
     (case to_digit c of
        None \<Rightarrow> Inl InvalidDigit
      | Some x \<Rightarrow> if acc * 10 > 255 \<or> acc * 10 + x > 255 then Inl PosOverflow else parse_digits (acc * 10 + x) cs)"

definition u8_from_str :: "string \<Rightarrow> int_error + u8" where
  "u8_from_str s =
     (let digits = (case s of c # d # cs \<Rightarrow> if c = CHR ''+'' then d # cs else s | _ \<Rightarrow> s)
      in if s = [] then Inl Empty
         else case parse_digits 0 digits of Inl e \<Rightarrow> Inl e | Inr n \<Rightarrow> Inr (of_nat n))"

datatype ParseError = NoStatusHeader | InvalidStatusHeaderText | InvalidStatusHeaderInt int_error

record GrpcStatus =
  code :: u8

definition GrpcStatus_parse :: "'h header_map \<Rightarrow> 'h \<Rightarrow> ParseError + GrpcStatus" where
  "GrpcStatus_parse H trailers =
     (case hm_get H trailers ''grpc-status'' of
        None \<Rightarrow> Inl NoStatusHeader
      | Some status_value_bin \<Rightarrow>
          (case from_utf8 status_value_bin of
             None \<Rightarrow> Inl InvalidStatusHeaderText
           | Some status_value_str \<Rightarrow>
               (case u8_from_str status_value_str of
                  Inl e \<Rightarrow> Inl (InvalidStatusHeaderInt e)
                | Inr status_code \<Rightarrow> Inr \<lparr>code = status_code\<rparr>)))"

definition is_ok :: "GrpcStatus \<Rightarrow> bool" where
  "is_ok s \<longleftrightarrow> code s = 0"

section \<open>Lemmas on the encoding\<close>

lemma length_to_le_bytes [simp]: "length (to_le_bytes n) = 8"
  by (simp add: to_le_bytes_def)

lemma to_le_bytes_inj:
  assumes "to_le_bytes a = to_le_bytes b"
  shows "a = b"
proof (rule bit_eqI)
  fix n
  assume "possible_bit TYPE(usize) n"
  then have n: "n < 64" by (simp add: possible_bit_word)
  let ?i = "n div 8"
  have i: "?i < 8" using n by auto
  have "(char_of (unat (drop_bit (8 * ?i) a) mod 256 :: nat) :: char) = char_of (unat (drop_bit (8 * ?i) b) mod 256)"
    using arg_cong [OF assms, of "\<lambda>l. l ! ?i"] i by (simp add: to_le_bytes_def)
  then have "take_bit 8 (unat (drop_bit (8 * ?i) a)) = take_bit 8 (unat (drop_bit (8 * ?i) b))"
    by (simp add: char_of_eq_iff take_bit_eq_mod)
  then have "bit (take_bit 8 (unat (drop_bit (8 * ?i) a))) (n mod 8)
      = bit (take_bit 8 (unat (drop_bit (8 * ?i) b))) (n mod 8)" by simp
  then have "bit (drop_bit (8 * ?i) a) (n mod 8) = bit (drop_bit (8 * ?i) b) (n mod 8)"
    by (simp add: bit_take_bit_iff bit_unsigned_iff possible_bit_word)
  then show "bit a n \<longleftrightarrow> bit b n" by (simp add: bit_drop_bit_eq)
qed

lemma append_eq_same_length: "length xs = length xs' \<Longrightarrow> xs @ ys = xs' @ ys' \<longleftrightarrow> xs = xs' \<and> ys = ys'"
  by simp

lemma len_inj: "length p < 2 ^ 64 \<Longrightarrow> length p' < 2 ^ 64 \<Longrightarrow> len p = len p' \<longleftrightarrow> length p = length p'"
  using unat_of_nat_u64 [of "length p"] unat_of_nat_u64 [of "length p'"] by metis

lemma hash_body_inj:
  assumes "length p < 2 ^ 64" "length p' < 2 ^ 64" "length b < 2 ^ 64" "length b' < 2 ^ 64"
  shows "hash_body p b = hash_body p' b' \<longleftrightarrow> p = p' \<and> b = b'"
proof
  assume h: "hash_body p b = hash_body p' b'"
  then have "to_le_bytes (len p) = to_le_bytes (len p')" by (simp add: hash_body_def)
  then have p: "length p = length p'" using to_le_bytes_inj len_inj assms by blast
  with h have "p = p'" by (simp add: hash_body_def append_eq_same_length)
  with h show "p = p' \<and> b = b'" by (simp add: hash_body_def append_eq_same_length)
qed simp

text \<open>A text without NUL is determined by what precedes its terminator.\<close>

lemma until_nul: "z \<notin> set xs \<Longrightarrow> z \<notin> set xs' \<Longrightarrow> xs @ z # ys = xs' @ z # ys' \<longleftrightarrow> xs = xs' \<and> ys = ys'"
  by (auto simp: append_eq_append_conv2 append_eq_Cons_conv Cons_eq_append_conv)

abbreviation joined :: "'h header_map \<Rightarrow> 'h \<Rightarrow> string \<Rightarrow> bytes" where
  "joined H h nm \<equiv> concat (intersperse '', '' (hm_get_all H h nm))"

lemma set_intersperse: "set (intersperse s xs) \<subseteq> insert s (set xs)"
  by (induction s xs rule: intersperse.induct) auto

lemma header_no_nul: "header_laws H \<Longrightarrow> v \<in> set (hm_get_all H h k) \<Longrightarrow> CHR 0x00 \<notin> set v"
  unfolding header_laws_def by blast

lemma joined_no_nul:
  assumes "header_laws H"
  shows "CHR 0x00 \<notin> set (joined H h nm)"
proof
  assume "CHR 0x00 \<in> set (joined H h nm)"
  then obtain v where v: "v \<in> set (intersperse '', '' (hm_get_all H h nm))" "CHR 0x00 \<in> set v"
    unfolding set_concat by blast
  have "v = '', '' \<or> v \<in> set (hm_get_all H h nm)"
    using v(1) set_intersperse [of "'', ''" "hm_get_all H h nm"] by blast
  then show False
  proof
    assume "v = '', ''"
    with v(2) show False by simp
  next
    assume "v \<in> set (hm_get_all H h nm)"
    with v(2) header_no_nul [OF assms] show False by blast
  qed
qed

lemma hash_vary_list_inj:
  assumes laws: "header_laws H"
  shows "concat (map (hash_vary_header H h) ns) @ r = concat (map (hash_vary_header H h') ns) @ r'
    \<longleftrightarrow> (\<forall>nm \<in> set ns. joined H h nm = joined H h' nm) \<and> r = r'"
proof (induction ns)
  case (Cons n ns)
  have "(concat (map (hash_vary_header H h) (n # ns)) @ r = concat (map (hash_vary_header H h') (n # ns)) @ r')
     = (joined H h n @ CHR 0x00 # CHR 0x00 # concat (map (hash_vary_header H h) ns) @ r
        = joined H h' n @ CHR 0x00 # CHR 0x00 # concat (map (hash_vary_header H h') ns) @ r')"
    by (simp add: hash_vary_header_def)
  also have "\<dots> = (joined H h n = joined H h' n
      \<and> concat (map (hash_vary_header H h) ns) @ r = concat (map (hash_vary_header H h') ns) @ r')"
    using until_nul [OF joined_no_nul [OF laws] joined_no_nul [OF laws]] by simp
  finally show ?case using Cons.IH by auto
qed simp

section \<open>Lemmas on stripping\<close>

lemma remove_all:
  assumes laws: "header_laws H" and "set ks \<subseteq> set (hm_keys H h)" and "distinct ks"
  shows "set (hm_keys H (fold (\<lambda>k h. hm_remove H h k) ks h)) = set (hm_keys H h) - set ks
    \<and> (\<forall>k \<in> set (hm_keys H h) - set ks. hm_get_all H (fold (\<lambda>k h. hm_remove H h k) ks h) k = hm_get_all H h k)"
  using assms(2,3)
proof (induction ks arbitrary: h)
  case (Cons a ks)
  have a: "set (hm_keys H (hm_remove H h a)) = set (hm_keys H h) - {a}"
    "\<forall>k \<in> set (hm_keys H h) - {a}. hm_get_all H (hm_remove H h a) k = hm_get_all H h k"
    using laws Cons.prems(1) unfolding header_laws_def by (meson list.set_intros(1) subsetD)+
  have "set ks \<subseteq> set (hm_keys H (hm_remove H h a))" using Cons.prems a(1) by auto
  with Cons.IH [of "hm_remove H h a"] Cons.prems(2) a show ?case by auto
qed simp

lemma strip_remove:
  assumes "header_laws H"
  shows "set (hm_keys H (fold (\<lambda>k h. hm_remove H h k) (find_strip_headers H h vs ps) h))
      = set (hm_keys H h) - set (find_strip_headers H h vs ps)
    \<and> (\<forall>k \<in> set (hm_keys H h) - set (find_strip_headers H h vs ps).
        hm_get_all H (fold (\<lambda>k h. hm_remove H h k) (find_strip_headers H h vs ps) h) k = hm_get_all H h k)"
proof (rule remove_all [OF assms])
  have "distinct (hm_keys H h)" using assms unfolding header_laws_def by blast
  then show "set (find_strip_headers H h vs ps) \<subseteq> set (hm_keys H h)" "distinct (find_strip_headers H h vs ps)"
    by (auto simp: find_strip_headers_def)
qed

lemma strip_keys:
  assumes "header_laws H"
  shows "set (hm_keys H (fold (\<lambda>k h. hm_remove H h k) (find_strip_headers H h vs ps) h))
    = set (hm_keys H h) \<inter> (CORE_HEADERS \<union> vs \<union> ps)"
  using strip_remove [OF assms, of h vs ps] by (auto simp: find_strip_headers_def)

lemma strip_values:
  assumes "header_laws H"
    and "k \<in> set (hm_keys H (fold (\<lambda>k h. hm_remove H h k) (find_strip_headers H h vs ps) h))"
  shows "hm_get_all H (fold (\<lambda>k h. hm_remove H h k) (find_strip_headers H h vs ps) h) k = hm_get_all H h k"
  using strip_remove [OF assms(1), of h vs ps] assms(2) by blast

section \<open>Lemmas on names and numbers\<close>

text \<open>A name as it stands in a \<open>vary\<close> list: no comma, and no space at either end.\<close>

definition list_name :: "string \<Rightarrow> bool" where
  "list_name s \<longleftrightarrow> CHR '','' \<notin> set s \<and> s \<noteq> [] \<and> \<not> is_space (hd s) \<and> \<not> is_space (last s)"

lemma trim_id: "list_name s \<Longrightarrow> trim s = s"
  by (simp add: list_name_def trim_def dropWhile_eq_self_iff [THEN iffD2] hd_rev)

lemma trim_space: "trim (CHR '' '' # s) = trim s"
  by (simp add: trim_def is_space_def)

lemma trim_split_join:
  "ns \<noteq> [] \<Longrightarrow> \<forall>n \<in> set ns. list_name n \<Longrightarrow> map trim (split_on CHR '','' (join_with '', '' ns)) = ns"
proof (induction "'', ''" ns rule: join_with.induct)
  case (2 x)
  then show ?case by (simp add: split_on_no_sep list_name_def trim_id)
next
  case (3 x y xs)
  have x: "CHR '','' \<notin> set x" "list_name x" using 3 by (auto simp: list_name_def)
  obtain p ps where s: "split_on CHR '','' (join_with '', '' (y # xs)) = p # ps"
    by (cases "split_on CHR '','' (join_with '', '' (y # xs))") auto
  have "split_on CHR '','' (join_with '', '' (x # y # xs)) = x # (CHR '' '' # p) # ps"
    using split_on_append_sep [OF x(1)] s by simp
  moreover have "map trim (p # ps) = y # xs" using 3 s by simp
  ultimately show ?case using x(2) by (simp add: trim_id trim_space)
qed simp

fun digits_value :: "nat \<Rightarrow> string \<Rightarrow> nat" where
  "digits_value acc [] = acc"
| "digits_value acc (c # cs) = digits_value (acc * 10 + (byte_val c - 48)) cs"

definition is_digit :: "char \<Rightarrow> bool" where
  "is_digit c \<longleftrightarrow> 48 \<le> byte_val c \<and> byte_val c \<le> 57"

lemma digits_value_mono: "acc \<le> digits_value acc cs"
proof (induction cs arbitrary: acc)
  case (Cons c cs)
  have "acc \<le> acc * 10 + (byte_val c - 48)" by simp
  also have "\<dots> \<le> digits_value (acc * 10 + (byte_val c - 48)) cs" by (rule Cons.IH)
  finally show ?case by simp
qed simp

lemma parse_digits_Inr:
  "acc \<le> 255 \<Longrightarrow> parse_digits acc cs = Inr n \<longleftrightarrow> (\<forall>c \<in> set cs. is_digit c) \<and> n = digits_value acc cs \<and> n \<le> 255"
proof (induction cs arbitrary: acc)
  case (Cons c cs)
  have "acc * 10 + (byte_val c - 48) \<le> digits_value acc (c # cs)"
    using digits_value_mono by simp
  with Cons show ?case by (auto simp: to_digit_def is_digit_def)
qed auto

lemma u8_from_str_Inr:
  "u8_from_str s = Inr w \<longleftrightarrow>
     (\<exists>ds. (s = ds \<or> s = CHR ''+'' # ds) \<and> ds \<noteq> [] \<and> (\<forall>c \<in> set ds. is_digit c)
        \<and> digits_value 0 ds \<le> 255 \<and> w = of_nat (digits_value 0 ds))"
proof -
  have plus: "\<not> is_digit CHR ''+''" by (simp add: is_digit_def)
  consider "s = []" | c where "s = [c]" | c d cs where "s = c # d # cs" by (metis neq_Nil_conv)
  then show ?thesis
  proof cases
    case 1
    then show ?thesis by (simp add: u8_from_str_def)
  next
    case (2 c)
    then show ?thesis
      using parse_digits_Inr [of 0 "[c]"] by (auto simp: u8_from_str_def result_simps simp del: parse_digits.simps)
  next
    case (3 c d cs)
    show ?thesis
    proof (cases "c = CHR ''+''")
      case True
      then have "u8_from_str s = Inr w \<longleftrightarrow> (\<exists>n. parse_digits 0 (d # cs) = Inr n \<and> w = of_nat n)"
        using 3 by (auto simp: u8_from_str_def result_simps simp del: parse_digits.simps)
      moreover have "(\<exists>ds. (s = ds \<or> s = CHR ''+'' # ds) \<and> X ds) \<longleftrightarrow> X s \<or> X (d # cs)" for X
        using 3 True by auto
      moreover have "\<not> (\<forall>c \<in> set s. is_digit c)" using 3 True plus by auto
      moreover have "(\<exists>n. parse_digits 0 (d # cs) = Inr n \<and> w = of_nat n) \<longleftrightarrow>
          (\<forall>c \<in> set (d # cs). is_digit c) \<and> digits_value 0 (d # cs) \<le> 255 \<and> w = of_nat (digits_value 0 (d # cs))"
        using parse_digits_Inr [of 0 "d # cs"] by auto
      ultimately show ?thesis by (simp del: digits_value.simps parse_digits.simps) blast
    next
      case False
      then have "u8_from_str s = Inr w \<longleftrightarrow> (\<exists>n. parse_digits 0 s = Inr n \<and> w = of_nat n)"
        using 3 by (auto simp: u8_from_str_def result_simps simp del: parse_digits.simps)
      moreover have "s = ds \<or> s = CHR ''+'' # ds \<longleftrightarrow> ds = s" for ds using 3 False by auto
      moreover have "s \<noteq> []" using 3 by simp
      ultimately show ?thesis using parse_digits_Inr [of 0 s] by auto
    qed
  qed
qed

section \<open>Properties\<close>

text \<open>A header map as an association list in the order the headers were added.\<close>

definition demo_headers :: "(string \<times> bytes) list header_map" where
  "demo_headers = \<lparr>hm_get_all = (\<lambda>h k. map (filter (\<lambda>c. c \<noteq> CHR 0x00)) (map snd (filter (\<lambda>e. fst e = k) h))),
     hm_keys = (\<lambda>h. remdups (map fst h)),
     hm_get = (\<lambda>h k. case filter (\<lambda>e. fst e = k) h of [] \<Rightarrow> None | e # _ \<Rightarrow> Some (filter (\<lambda>c. c \<noteq> CHR 0x00) (snd e))),
     hm_remove = (\<lambda>h k. filter (\<lambda>e. fst e \<noteq> k) h),
     hv_to_str = (\<lambda>v. if \<forall>c \<in> set v. 32 \<le> byte_val c \<and> byte_val c < 127 then Some v else None)\<rparr>"

lemma demo_header_laws: "header_laws demo_headers"
proof -
  have "filter (\<lambda>e. fst e = k') (filter (\<lambda>e. fst e \<noteq> k) h) = filter (\<lambda>e. fst e = k') h"
    if "k' \<noteq> k" for k k' :: string and h :: "(string \<times> bytes) list"
    using that by (induction h) auto
  then show ?thesis
    by (auto simp: header_laws_def demo_headers_def filter_empty_conv split: list.splits if_splits)
qed

text \<open>C24. The bytes hashed for a request determine what they were made from: for requests with the same
  \<open>vary\<close> set, equal input to the hasher means the same path, the same body, and for every header of the
  set the same values joined by commas.\<close>

theorem hash_input_injective:
  assumes "header_laws H" and "finite vary_set"
    and "length p < 2 ^ 64" "length p' < 2 ^ 64" "length b < 2 ^ 64" "length b' < 2 ^ 64"
  shows "hash_vary H vary_set h @ hash_body p b = hash_vary H vary_set h' @ hash_body p' b' \<longleftrightarrow>
    (\<forall>nm \<in> vary_set. concat (intersperse '', '' (hm_get_all H h nm)) = concat (intersperse '', '' (hm_get_all H h' nm)))
    \<and> p = p' \<and> b = b'"
  using hash_vary_list_inj [OF assms(1), of h "sorted_list_of_set vary_set" "hash_body p b" h' "hash_body p' b'"]
    hash_body_inj [OF assms(3-6)] assms(2)
  by (simp add: hash_vary_def)

theorem hash_input_injective_witness:
  "hash_vary demo_headers {''lang''} [(''lang'', ''en'')] @ hash_body ''/s/m'' ''x''
     \<noteq> hash_vary demo_headers {''lang''} [(''lang'', ''de'')] @ hash_body ''/s/m'' ''x''"
  using hash_input_injective [OF demo_header_laws, of "{''lang''}" "''/s/m''" "''/s/m''" "''x''" "''x''"
      "[(''lang'', ''en'')]" "[(''lang'', ''de'')]"]
  by (simp add: demo_headers_def)

text \<open>C25. The \<open>vary\<close> headers of a request are read back as they are written: if their values are lists of
  names separated by a comma and a space, the set is exactly the names of all of them.\<close>

theorem vary_set_round_trip:
  assumes "hm_get_all H h ''vary'' = map (join_with '', '') nss"
    and "\<forall>ns \<in> set nss. ns \<noteq> [] \<and> (\<forall>n \<in> set ns. list_name n)
      \<and> hv_to_str H (join_with '', '' ns) = Some (join_with '', '' ns)"
  shows "make_vary_headers_set H h = Inr (\<Union>ns \<in> set nss. set ns)"
proof -
  have "set (map trim (concat (map (\<lambda>v. case hv_to_str H v of Some i \<Rightarrow> split_on CHR '','' i | None \<Rightarrow> [])
      (map (join_with '', '') nss)))) = (\<Union>ns \<in> set nss. set ns)"
    using assms(2)
  proof (induction nss)
    case (Cons ns nss)
    then have "map trim (split_on CHR '','' (join_with '', '' ns)) = ns" using trim_split_join by simp
    then have "trim ` set (split_on CHR '','' (join_with '', '' ns)) = set ns" by (metis set_map)
    with Cons show ?case by (simp add: image_Un)
  qed simp
  with assms(1) show ?thesis by (simp add: make_vary_headers_set_def)
qed

theorem vary_set_round_trip_witness:
  "make_vary_headers_set demo_headers [(''vary'', ''lang, user''), (''vary'', ''region'')]
     = Inr {''lang'', ''user'', ''region''}"
  using vary_set_round_trip [of demo_headers "[(''vary'', ''lang, user''), (''vary'', ''region'')]"
      "[[''lang'', ''user''], [''region'']]"]
  by (auto simp: demo_headers_def list_name_def is_space_def)

lemma zero_digit: "byte_val c = 48 \<longleftrightarrow> c = CHR ''0''"
proof -
  have "byte_val c = byte_val CHR ''0'' \<longleftrightarrow> c = CHR ''0''" by (rule of_char_eq_iff)
  then show ?thesis by simp
qed

lemma digits_value_zero:
  "(\<forall>c \<in> set ds. is_digit c) \<and> digits_value 0 ds = 0 \<longleftrightarrow> ds = replicate (length ds) CHR ''0''"
proof (induction ds)
  case (Cons c ds)
  have "byte_val c - 48 \<le> digits_value (byte_val c - 48) ds" by (rule digits_value_mono)
  with Cons.IH zero_digit [of c] show ?case by (auto simp: is_digit_def)
qed simp

lemma u8_from_str_zero:
  "u8_from_str s = Inr 0 \<longleftrightarrow> (\<exists>n > 0. s = replicate n CHR ''0'' \<or> s = CHR ''+'' # replicate n CHR ''0'')"
proof -
  have "digits_value 0 ds \<le> 255 \<Longrightarrow> (0 :: u8) = of_nat (digits_value 0 ds) \<longleftrightarrow> digits_value 0 ds = 0" for ds
    using unat_of_nat_u8 [of "digits_value 0 ds"] by auto
  then have "u8_from_str s = Inr 0 \<longleftrightarrow>
     (\<exists>ds. (s = ds \<or> s = CHR ''+'' # ds) \<and> ds \<noteq> [] \<and> ds = replicate (length ds) CHR ''0'')"
    unfolding u8_from_str_Inr digits_value_zero [symmetric] by auto
  also have "\<dots> \<longleftrightarrow> (\<exists>n > 0. s = replicate n CHR ''0'' \<or> s = CHR ''+'' # replicate n CHR ''0'')"
    (is "?l \<longleftrightarrow> ?r")
  proof
    assume ?l
    then obtain ds where ds: "s = ds \<or> s = CHR ''+'' # ds" "ds \<noteq> []" "ds = replicate (length ds) CHR ''0''" by blast
    then show ?r by (intro exI [of _ "length ds"]) auto
  next
    assume ?r
    then obtain n where "n > 0" "s = replicate n CHR ''0'' \<or> s = CHR ''+'' # replicate n CHR ''0''" by blast
    then show ?l by (intro exI [of _ "replicate n CHR ''0''"]) auto
  qed
  finally show ?thesis .
qed

lemma status_ok:
  "(\<exists>s. GrpcStatus_parse H t = Inr s \<and> is_ok s) \<longleftrightarrow>
     (\<exists>n > 0. hm_get H t ''grpc-status'' = Some (replicate n CHR ''0'')
        \<or> hm_get H t ''grpc-status'' = Some (CHR ''+'' # replicate n CHR ''0''))"
proof -
  have utf8: "is_utf8 v" if "v = replicate n CHR ''0'' \<or> v = CHR ''+'' # replicate n CHR ''0''" for v n
    using that by (intro ascii_is_utf8) auto
  have "(\<exists>s. GrpcStatus_parse H t = Inr s \<and> is_ok s) \<longleftrightarrow>
      (\<exists>v. hm_get H t ''grpc-status'' = Some v \<and> is_utf8 v \<and> u8_from_str v = Inr 0)"
    by (auto simp: GrpcStatus_parse_def is_ok_def from_utf8_def split: option.splits sum.splits)
  then show ?thesis unfolding u8_from_str_zero using utf8 by blast
qed

end
