(* ===== verification/Cache_Storage.thy ===== *)
theory Cache_Storage
  imports Prelude
begin

text \<open>
  The storage interface that the proxy caches through, pingora's trait \<open>Storage\<close> behind \<open>GrcacheStorage\<close> in
  \<open>grcache-proxy/src/cache/mod.rs\<close>. The locale states what the proxy relies on, with respect to an abstract
  relation that says which entries a storage holds: a hit is an entry the storage holds, and only
  storing an entry adds one, namely that one, unless it panics. Its lemma is what every storage then gives: a hit was stored before.
  The redis storage and the mock storage of the tests provide it.

  The theory also has \<open>cache/local.rs\<close>, a storage whose operations are all unimplemented; it provides the
  interface trivially, since none of its lookups returns.
\<close>

section \<open>The interface\<close>

text \<open>Histories of a storage: lookups, entries stored, and entries that disappear for other reasons, with the
  set of all entries that were stored so far.\<close>

inductive storage_step ::
    "('env \<Rightarrow> 'key \<Rightarrow> 's \<Rightarrow> 'l \<times> 's) \<Rightarrow> ('env \<Rightarrow> 'key \<Rightarrow> 'meta \<Rightarrow> (bytes \<times> bool) list \<Rightarrow> 's \<Rightarrow> 'r \<times> 's)
      \<Rightarrow> ('s \<Rightarrow> bytes \<Rightarrow> 'meta \<Rightarrow> bytes \<Rightarrow> bool) \<Rightarrow> ('key \<Rightarrow> bytes)
      \<Rightarrow> 's \<times> (bytes \<times> 'meta \<times> bytes) set \<Rightarrow> 's \<times> (bytes \<times> 'meta \<times> bytes) set \<Rightarrow> bool"
  for lookup :: "'env \<Rightarrow> 'key \<Rightarrow> 's \<Rightarrow> 'l \<times> 's"
    and store :: "'env \<Rightarrow> 'key \<Rightarrow> 'meta \<Rightarrow> (bytes \<times> bool) list \<Rightarrow> 's \<Rightarrow> 'r \<times> 's"
    and holds :: "'s \<Rightarrow> bytes \<Rightarrow> 'meta \<Rightarrow> bytes \<Rightarrow> bool" and hash :: "'key \<Rightarrow> bytes" where
  lookup: "lookup env k s = (x, s') \<Longrightarrow> storage_step lookup store holds hash (s, E) (s', E)"
| store: "store env k m chunks s = (x, s') \<Longrightarrow>
     storage_step lookup store holds hash (s, E) (s', insert (hash k, m, concat (map fst chunks)) E)"
| lose: "(\<And>k m b. holds s' k m b \<Longrightarrow> holds s k m b) \<Longrightarrow> storage_step lookup store holds hash (s, E) (s', E)"

text \<open>\<open>laws\<close> are the laws of what the storage itself is built on.\<close>

locale cache_storage =
  fixes laws :: bool
    and lookup :: "'env \<Rightarrow> 'key \<Rightarrow> 's \<Rightarrow> ('e + ('meta \<times> 'hit) option) outcome \<times> 's"
    and store :: "'env \<Rightarrow> 'key \<Rightarrow> 'meta \<Rightarrow> (bytes \<times> bool) list \<Rightarrow> 's \<Rightarrow> ('e + usize) outcome \<times> 's"
    and body :: "'hit \<Rightarrow> bytes"
    and holds :: "'s \<Rightarrow> bytes \<Rightarrow> 'meta \<Rightarrow> bytes \<Rightarrow> bool"
    and hash :: "'key \<Rightarrow> bytes"
  assumes lookup_holds: "laws \<Longrightarrow> lookup env k s = (Returns (Inr (Some (m, hit))), s') \<Longrightarrow> holds s (hash k) m (body hit)"
    and lookup_frame: "laws \<Longrightarrow> lookup env k s = (x, s') \<Longrightarrow> holds s' h m b \<Longrightarrow> holds s h m b"
    and store_adds: "laws \<Longrightarrow> store env k m chunks s = (y, s') \<Longrightarrow> holds s' h m' b \<Longrightarrow>
      holds s h m' b \<or> h = hash k \<and> m' = m \<and> b = concat (map fst chunks)"
    and store_panic: "laws \<Longrightarrow> store env k m chunks s = (Panic, s') \<Longrightarrow> holds s' h m' b \<Longrightarrow> holds s h m' b"
begin

definition all_stored :: "'s \<times> (bytes \<times> 'meta \<times> bytes) set \<Rightarrow> bool" where
  "all_stored c \<longleftrightarrow> (\<forall>h m b. holds (fst c) h m b \<longrightarrow> (h, m, b) \<in> snd c)"

lemma all_stored_step:
  assumes "laws" and "storage_step lookup store holds hash c c'" and "all_stored c"
  shows "all_stored c'"
  using assms(2)
proof cases
  case (lookup env k s x s' E)
  from lookup_frame [OF assms(1) lookup(3)] assms(3) show ?thesis
    unfolding lookup(1,2) all_stored_def fst_conv snd_conv by blast
next
  case (store env k m chunks s x s' E)
  from store_adds [OF assms(1) store(3)] assms(3) show ?thesis
    unfolding store(1,2) all_stored_def fst_conv snd_conv by blast
next
  case (lose s' s E)
  then show ?thesis using assms(3) by (auto simp: all_stored_def)
qed

end

text \<open>A storage's histories keep the invariant that everything it holds was stored.\<close>

sublocale cache_storage \<subseteq> history: invariant_system "\<lambda>c. \<forall>h m b. \<not> holds (fst c) h m b"
  "storage_step lookup store holds hash" "\<lambda>c. laws \<longrightarrow> all_stored c"
proof
  show "laws \<longrightarrow> all_stored c" if "\<forall>h m b. \<not> holds (fst c) h m b" for c using that by (simp add: all_stored_def)
  show "laws \<longrightarrow> all_stored c'" if "laws \<longrightarrow> all_stored c" "storage_step lookup store holds hash c c'" for c c'
    using that all_stored_step by blast
qed

context cache_storage begin

lemma hits_were_stored:
  assumes "laws" and "\<And>h m b. \<not> holds s0 h m b" and "(storage_step lookup store holds hash)\<^sup>*\<^sup>* (s0, E0) (s, E)"
    and "lookup env k s = (Returns (Inr (Some (m, hit))), s')"
  shows "(hash k, m, body hit) \<in> E"
  using history.invar_reachable [OF _ assms(3)] assms(1,2) lookup_holds [OF assms(1,4)] by (auto simp: all_stored_def)

end

section \<open>The in-memory storage\<close>

text \<open>\<open>cache/local.rs\<close>: a cache of the two sizes given to \<open>TinyUfo::new\<close>, whose operations are \<open>todo!()\<close>.\<close>

record LocalCacheBackend =
  total_weight_limit :: usize
  estimated_size :: usize

definition LocalCacheBackend_new :: LocalCacheBackend where
  "LocalCacheBackend_new = \<lparr>total_weight_limit = 5, estimated_size = 5\<rparr>"

definition local_lookup :: "LocalCacheBackend \<Rightarrow> 'key \<Rightarrow> ('e + ('meta \<times> 'hit) option) outcome" where
  "local_lookup c key = Panic"

definition local_get_miss_handler :: "LocalCacheBackend \<Rightarrow> 'key \<Rightarrow> 'meta \<Rightarrow> ('e + 'miss) outcome" where
  "local_get_miss_handler c key meta = Panic"

definition local_purge :: "LocalCacheBackend \<Rightarrow> 'key \<Rightarrow> ('e + bool) outcome" where
  "local_purge c key = Panic"

definition local_update_meta :: "LocalCacheBackend \<Rightarrow> 'key \<Rightarrow> 'meta \<Rightarrow> ('e + bool) outcome" where
  "local_update_meta c key meta = Panic"

text \<open>It is a storage all the same: it never has a hit.\<close>

interpretation loc: cache_storage True "\<lambda>c k s. (local_lookup c k, s)" "\<lambda>c k m chunks s. (Panic, s)" "\<lambda>hit. hit"
  "\<lambda>s h m b. False" hash for hash
  by standard (simp_all add: local_lookup_def)

end
