(* ===== verification/Redis_Replicas.thy ===== *)
theory Redis_Replicas
  imports Health Discovery Cache_Storage
begin

text \<open>
  \<open>grcache-proxy/src/cache/redis_replicas.rs\<close>: the cache storage over a set of redis replicas. One
  connection pool is kept per discovered backend; a key goes to the backend that consistent hashing
  selects among those with a pool. The load balancer, the connection pools, the redis commands, bincode
  and pingora's cache metadata are parameters with named laws. The lemmas show that what the miss
  handler wrote is what a lookup returns, which lookups are misses, errors or panics, and that a turn of
  the maintenance loop leaves exactly one pool per backend. The storage is an instance of the interface
  \<open>cache_storage\<close>; \<open>Pool_Service\<close> cuts the maintenance loop at its suspension points.
\<close>

section \<open>Parameters\<close>

record CacheData =
  cache_meta :: "bytes \<times> bytes"
  cd_data :: bytes

text \<open>bincode's encoding of \<open>CacheData\<close>, \<open>CacheMeta::serialize\<close> and \<open>deserialize\<close>, and \<open>CacheKey::primary_bin\<close>.\<close>

record ('be, 'pe, 'meta, 'key) codec =
  bincode_serialize :: "CacheData \<Rightarrow> 'be + bytes"
  bincode_deserialize :: "bytes \<Rightarrow> 'be + CacheData"
  meta_serialize :: "'meta \<Rightarrow> 'pe + bytes \<times> bytes"
  meta_deserialize :: "bytes \<Rightarrow> bytes \<Rightarrow> 'pe + 'meta"
  primary_bin :: "'key \<Rightarrow> bytes"

definition codec_laws :: "('be, 'pe, 'meta, 'key) codec \<Rightarrow> bool" where
  "codec_laws K \<longleftrightarrow>
     (\<forall>d bs. bincode_serialize K d = Inr bs \<longrightarrow> bincode_deserialize K bs = Inr d)
     \<and> (\<forall>m a b. meta_serialize K m = Inr (a, b) \<longrightarrow> meta_deserialize K a b = Inr m)"

text \<open>\<open>bb8::Pool::get\<close> and the redis commands \<open>GET\<close> and \<open>SET\<close>, on the state \<open>'w\<close> of the outside world.\<close>

record ('w, 'pool, 'conn, 'ce, 're) redis_io =
  bb8_get :: "'pool \<Rightarrow> 'w \<Rightarrow> ('ce + 'conn) \<times> 'w"
  redis_get :: "'conn \<Rightarrow> bytes \<Rightarrow> 'w \<Rightarrow> ('re + bytes option) \<times> 'w"
  redis_set :: "'conn \<Rightarrow> bytes \<Rightarrow> bytes \<Rightarrow> 'w \<Rightarrow> ('re + unit) \<times> 'w"

text \<open>A connection belongs to the pool it came from; a successful \<open>SET\<close> stores the value at that pool's
  server, a successful \<open>GET\<close> returns what is stored there.\<close>

definition redis_laws ::
    "('w, 'pool, 'conn, 'ce, 're) redis_io \<Rightarrow> ('conn \<Rightarrow> 'pool) \<Rightarrow> ('w \<Rightarrow> 'pool \<Rightarrow> bytes \<rightharpoonup> bytes) \<Rightarrow> bool" where
  "redis_laws IO pool_of stored \<longleftrightarrow>
     (\<forall>p w c w'. bb8_get IO p w = (Inr c, w') \<longrightarrow> pool_of c = p \<and> stored w' = stored w)
     \<and> (\<forall>c k w v w'. redis_get IO c k w = (Inr v, w') \<longrightarrow> v = stored w (pool_of c) k \<and> stored w' = stored w)
     \<and> (\<forall>c k v w w'. redis_set IO c k v w = (Inr (), w') \<longrightarrow>
          stored w' = (stored w)(pool_of c := (stored w (pool_of c))(k \<mapsto> v)))"

text \<open>Every command may fail; a failed \<open>SET\<close> may have been executed or not.\<close>

definition redis_frame ::
    "('w, 'pool, 'conn, 'ce, 're) redis_io \<Rightarrow> ('conn \<Rightarrow> 'pool) \<Rightarrow> ('w \<Rightarrow> 'pool \<Rightarrow> bytes \<rightharpoonup> bytes) \<Rightarrow> bool" where
  "redis_frame IO pool_of stored \<longleftrightarrow>
     (\<forall>p w r w'. bb8_get IO p w = (r, w') \<longrightarrow> stored w' = stored w)
     \<and> (\<forall>c k w r w'. redis_get IO c k w = (r, w') \<longrightarrow> stored w' = stored w)
     \<and> (\<forall>c k v w r w'. redis_set IO c k v w = (r, w') \<longrightarrow>
          stored w' = stored w \<or> stored w' = (stored w)(pool_of c := (stored w (pool_of c))(k \<mapsto> v)))"

text \<open>pingora's \<open>select_with\<close> on the consistent load balancer: key, iteration bound, acceptance test.\<close>

type_synonym 'lb select_with = "'lb \<Rightarrow> bytes \<Rightarrow> nat \<Rightarrow> (Backend \<Rightarrow> bool \<Rightarrow> bool) \<Rightarrow> Backend option"

definition select_law :: "'lb select_with \<Rightarrow> bool" where
  "select_law sel \<longleftrightarrow> (\<forall>lb k n accept b. sel lb k n accept = Some b \<longrightarrow> (\<exists>healthy. accept b healthy))"

section \<open>Selecting a pool\<close>

text \<open>\<open>RedisPools\<close>: the consistent load balancer of the discovery handle, and the map of connection pools.
  The map is concurrent and \<open>pool_for_hash\<close> reads it twice, when it selects and when it gets the pool;
  \<open>pools_later\<close> is the map at the second reading.\<close>

record ('lb, 'pool) RedisPools =
  lb_consistent :: 'lb
  pools :: "Backend \<rightharpoonup> 'pool"
  pools_later :: "Backend \<rightharpoonup> 'pool"

definition select_backend :: "'lb select_with \<Rightarrow> ('lb, 'pool) RedisPools \<Rightarrow> bytes \<Rightarrow> Backend option" where
  "select_backend sel R key =
     sel (lb_consistent R) key 255 (\<lambda>backend healthy. if \<not> healthy then False else pools R backend \<noteq> None)"

definition pool_for_hash :: "'lb select_with \<Rightarrow> ('lb, 'pool) RedisPools \<Rightarrow> bytes \<Rightarrow> 'pool option" where
  "pool_for_hash sel R hash =
     (case select_backend sel R hash of
        Some backend \<Rightarrow> (case pools_later R backend of Some pool \<Rightarrow> Some pool | None \<Rightarrow> None)
      | None \<Rightarrow> None)"

section \<open>Storage\<close>

record RedisCacheHit =
  hit_data :: bytes

record RedisCacheMiss =
  miss_meta :: "bytes \<times> bytes"
  miss_hash :: bytes
  miss_value :: bytes

text \<open>A result and the world after it; \<open>data[0]\<close> panics on an empty value.\<close>

definition lookup ::
    "'lb select_with \<Rightarrow> ('be, 'pe, 'meta, 'key) codec \<Rightarrow> ('w, 'pool, 'conn, 'ce, 're) redis_io
      \<Rightarrow> ('lb, 'pool) RedisPools \<Rightarrow> 'key \<Rightarrow> 'w \<Rightarrow> ('pe + ('meta \<times> RedisCacheHit) option) outcome \<times> 'w" where
  "lookup sel K IO R key w =
     (let hash = primary_bin K key in
      case pool_for_hash sel R hash of
        None \<Rightarrow> (Returns (Inr None), w)
      | Some p \<Rightarrow>
          (case bb8_get IO p w of
             (Inl error, w1) \<Rightarrow> (Returns (Inr None), w1)
           | (Inr conn, w1) \<Rightarrow>
               (let (r, w2) = redis_get IO conn hash w1;
                    data_opt = (case r of Inl error \<Rightarrow> None | Inr v \<Rightarrow> v)
                in case data_opt of
                     None \<Rightarrow> (Returns (Inr None), w2)
                   | Some [] \<Rightarrow> (Panic, w2)
                   | Some (version # rest) \<Rightarrow>
                       if version \<noteq> CHR 0x00 then (Returns (Inr None), w2)
                       else (case bincode_deserialize K rest of
                          Inr cache_data \<Rightarrow>
                            (case meta_deserialize K (fst (cache_meta cache_data)) (snd (cache_meta cache_data)) of
                               Inl e \<Rightarrow> (Returns (Inl e), w2)
                             | Inr meta \<Rightarrow> (Returns (Inr (Some (meta, \<lparr>hit_data = cd_data cache_data\<rparr>))), w2))
                        | Inl error \<Rightarrow> (Returns (Inr None), w2)))))"

definition get_miss_handler :: "('be, 'pe, 'meta, 'key) codec \<Rightarrow> 'key \<Rightarrow> 'meta \<Rightarrow> 'pe + RedisCacheMiss" where
  "get_miss_handler K key meta =
     (case meta_serialize K meta of
        Inl e \<Rightarrow> Inl e
      | Inr m \<Rightarrow> Inr \<lparr>miss_meta = m, miss_hash = primary_bin K key, miss_value = []\<rparr>)"

definition write_body :: "bytes \<Rightarrow> bool \<Rightarrow> RedisCacheMiss \<Rightarrow> RedisCacheMiss" where
  "write_body data eof m = m\<lparr>miss_value := miss_value m @ data\<rparr>"

definition miss_finish ::
    "'lb select_with \<Rightarrow> ('be, 'pe, 'meta, 'key) codec \<Rightarrow> ('w, 'pool, 'conn, 'ce, 're) redis_io
      \<Rightarrow> ('lb, 'pool) RedisPools \<Rightarrow> RedisCacheMiss \<Rightarrow> 'w \<Rightarrow> ('pe + usize) outcome \<times> 'w" where
  "miss_finish sel K IO R miss_data w =
     (case pool_for_hash sel R (miss_hash miss_data) of
        None \<Rightarrow> (Returns (Inr 0), w)
      | Some p \<Rightarrow>
          (case bb8_get IO p w of
             (Inl error, w1) \<Rightarrow> (Returns (Inr 0), w1)
           | (Inr conn, w1) \<Rightarrow>
               (case bincode_serialize K \<lparr>cache_meta = miss_meta miss_data, cd_data = miss_value miss_data\<rparr> of
                  Inl e \<Rightarrow> (Panic, w1)
                | Inr bs \<Rightarrow>
                    (let data = CHR 0x00 # bs;
                         (ret, w2) = redis_set IO conn (miss_hash miss_data) data w1
                     in (Returns (Inr (of_nat (length data))), w2)))))"

definition read_body :: "RedisCacheHit \<Rightarrow> ('pe + bytes option) \<times> RedisCacheHit" where
  "read_body h = (Inr (Some (hit_data h)), h)"

definition hit_finish :: "RedisCacheHit \<Rightarrow> 'pe + unit" where
  "hit_finish h = Inr ()"

definition can_seek :: "RedisCacheHit \<Rightarrow> bool" where
  "can_seek h = False"

definition purge :: "'key \<Rightarrow> 'pe + bool" where
  "purge key = Inr False"

definition update_meta :: "'key \<Rightarrow> 'meta \<Rightarrow> 'pe + bool" where
  "update_meta key meta = Inr False"

section \<open>Maintaining the pools\<close>

text \<open>One turn of the background loop for the watched set, enumerated by \<open>bs\<close>: first \<open>retain\<close>, whose log
  line unwraps the address of every backend it drops if logging at the level \<open>info\<close> is enabled (the
  arguments of a disabled log line are not evaluated), then a pool for every backend without one.
  \<open>build\<close> is the connection manager and pool builder; its errors are unwrapped.\<close>

definition retain_pools :: "bool \<Rightarrow> Backend set \<Rightarrow> (Backend \<rightharpoonup> 'pool) \<Rightarrow> (Backend \<rightharpoonup> 'pool) outcome" where
  "retain_pools info bs ps =
     (if info \<and> (\<exists>b \<in> dom ps - bs. as_inet b = None) then Panic else Returns (ps |` bs))"

fun add_pools ::
    "(u32 \<times> u16 \<Rightarrow> 'pool option) \<Rightarrow> Backend list \<Rightarrow> (Backend \<rightharpoonup> 'pool) \<Rightarrow> (Backend \<rightharpoonup> 'pool) outcome" where
  "add_pools build [] ps = Returns ps"
| "add_pools build (b # bs) ps =
     (if ps b = None then
        bind_outcome (unwrap (as_inet b)) (\<lambda>inet_addr.
        bind_outcome (unwrap (build inet_addr)) (\<lambda>pool. add_pools build bs (ps(b \<mapsto> pool))))
      else add_pools build bs ps)"

definition maintain_pools ::
    "bool \<Rightarrow> (u32 \<times> u16 \<Rightarrow> 'pool option) \<Rightarrow> Backend list \<Rightarrow> (Backend \<rightharpoonup> 'pool) \<Rightarrow> (Backend \<rightharpoonup> 'pool) outcome" where
  "maintain_pools info build bs ps = bind_outcome (retain_pools info (set bs) ps) (add_pools build bs)"

text \<open>The readiness task: it waits until discovery of the replicas is ready, then the cache's endpoint reports.
  \<open>wait_for\<close> fails, and its result is unwrapped, if the sender is gone (\<open>alive\<close> says that it is not) before
  the value is there; \<open>None\<close> is waiting.\<close>

definition readiness_task :: "'lb handle \<Rightarrow> bool \<Rightarrow> nat \<Rightarrow> world \<Rightarrow> world outcome option" where
  "readiness_task h alive ep w =
     (if h_ready h then Some (Returns (world_ready ep w)) else if alive then None else Some Panic)"

section \<open>Lemmas\<close>

lemma write_bodies:
  "fold (\<lambda>(d, eof). write_body d eof) chunks m = m\<lparr>miss_value := miss_value m @ concat (map fst chunks)\<rparr>"
  by (induction chunks arbitrary: m) (auto simp: write_body_def)

lemma redis_lawsD:
  assumes "redis_laws IO pool_of stored"
  shows "bb8_get IO p w = (Inr c, w') \<Longrightarrow> pool_of c = p \<and> stored w' = stored w"
    and "redis_get IO c k w = (Inr v, w') \<Longrightarrow> v = stored w (pool_of c) k \<and> stored w' = stored w"
    and "redis_set IO c k x w = (Inr (), w') \<Longrightarrow>
      stored w' = (stored w)(pool_of c := (stored w (pool_of c))(k \<mapsto> x))"
  using assms unfolding redis_laws_def by blast+

definition built_pools :: "(u32 \<times> u16 \<Rightarrow> 'pool option) \<Rightarrow> Backend set \<Rightarrow> (Backend \<rightharpoonup> 'pool) \<Rightarrow> Backend \<rightharpoonup> 'pool" where
  "built_pools build S ps b =
     (if b \<in> S \<and> ps b = None then Option.bind (as_inet b) build else ps b)"

lemma built_pools_insert_old: "ps b \<noteq> None \<Longrightarrow> built_pools build (insert b S) ps = built_pools build S ps"
  by (auto simp: built_pools_def fun_eq_iff)

lemma built_pools_insert_new:
  "ps b = None \<Longrightarrow> Option.bind (as_inet b) build = Some p \<Longrightarrow>
     built_pools build (insert b S) ps = built_pools build S (ps(b \<mapsto> p))"
  by (auto simp: built_pools_def fun_eq_iff)

lemma add_pools_eq:
  "add_pools build bs ps =
     (if \<exists>b \<in> set bs. ps b = None \<and> Option.bind (as_inet b) build = None then Panic
      else Returns (built_pools build (set bs) ps))"
proof (induction bs arbitrary: ps)
  case Nil
  then show ?case by (simp add: built_pools_def [abs_def])
next
  case (Cons b bs)
  consider (old) p where "ps b = Some p" | (bad) "ps b = None" "Option.bind (as_inet b) build = None"
    | (new) p where "ps b = None" "Option.bind (as_inet b) build = Some p" by (cases "ps b") auto
  then show ?case
  proof cases
    case old
    with Cons.IH [of ps] show ?thesis by (simp add: built_pools_insert_old)
  next
    case bad
    then have "add_pools build (b # bs) ps = Panic" by (cases "as_inet b") auto
    with bad show ?thesis by auto
  next
    case (new p)
    then have "add_pools build (b # bs) ps = add_pools build bs (ps(b \<mapsto> p))" by (cases "as_inet b") auto
    moreover have "(\<exists>x \<in> set bs. (ps(b \<mapsto> p)) x = None \<and> Option.bind (as_inet x) build = None)
        \<longleftrightarrow> (\<exists>x \<in> set (b # bs). ps x = None \<and> Option.bind (as_inet x) build = None)"
    proof -
      have "x \<noteq> b" if "Option.bind (as_inet x) build = None" for x using that new(2) by auto
      then show ?thesis using new(1) by (metis fun_upd_apply insert_iff list.simps(15) option.distinct(1))
    qed
    ultimately show ?thesis using Cons.IH [of "ps(b \<mapsto> p)"] new built_pools_insert_new [of ps b build p "set bs", OF new] by simp
  qed
qed

lemma maintain_pools_dom:
  assumes "maintain_pools info build bs ps = Returns ps'" and "b \<in> dom ps'"
  shows "b \<in> set bs"
proof -
  have "ps' = built_pools build (set bs) (ps |` set bs)"
    using assms(1) by (auto simp: maintain_pools_def retain_pools_def add_pools_eq split: if_splits)
  with assms(2) show ?thesis by (auto simp: built_pools_def restrict_map_def split: if_splits)
qed

lemma maintain_pools_returns:
  assumes "\<And>b. b \<in> dom ps \<Longrightarrow> as_inet b \<noteq> None" and "\<And>b. b \<in> set bs \<Longrightarrow> as_inet b \<noteq> None"
    and "\<And>addr. build addr \<noteq> None"
  shows "\<exists>ps'. maintain_pools info build bs ps = Returns ps' \<and> dom ps' = set bs"
proof -
  have some: "Option.bind (as_inet b) build \<noteq> None" if "b \<in> set bs" for b
    using assms(2) [OF that] assms(3) by (cases "as_inet b") auto
  have "retain_pools info (set bs) ps = Returns (ps |` set bs)"
    unfolding retain_pools_def by (rule if_not_P) (use assms(1) in blast)
  then have "maintain_pools info build bs ps = Returns (built_pools build (set bs) (ps |` set bs))"
    using some by (auto simp: maintain_pools_def add_pools_eq)
  moreover have "dom (built_pools build (set bs) (ps |` set bs)) = set bs"
    using some by (auto simp: built_pools_def restrict_map_def dom_def split: if_splits)
  ultimately show ?thesis by blast
qed

lemma lookup_hit:
  assumes "redis_laws IO pool_of stored" and "lookup sel K IO R key w = (Returns (Inr (Some (meta, hit))), w')"
  obtains p rest d where "stored w p (primary_bin K key) = Some (CHR 0x00 # rest)" "bincode_deserialize K rest = Inr d"
    "hit = \<lparr>hit_data = cd_data d\<rparr>" "meta_deserialize K (fst (cache_meta d)) (snd (cache_meta d)) = Inr meta"
proof -
  obtain p where p: "pool_for_hash sel R (primary_bin K key) = Some p"
    using assms(2) by (cases "pool_for_hash sel R (primary_bin K key)") (auto simp: lookup_def)
  obtain c w1 where c: "bb8_get IO p w = (Inr c, w1)"
    using assms(2) p by (cases "bb8_get IO p w"; cases "fst (bb8_get IO p w)") (auto simp: lookup_def)
  obtain v w2 where v: "redis_get IO c (primary_bin K key) w1 = (v, w2)" by force
  obtain rest d where "v = Inr (Some (CHR 0x00 # rest))" and d: "bincode_deserialize K rest = Inr d"
    "hit = \<lparr>hit_data = cd_data d\<rparr>" "meta_deserialize K (fst (cache_meta d)) (snd (cache_meta d)) = Inr meta"
    using assms(2) p c v
    by (auto simp: lookup_def Let_def split: sum.splits option.splits list.splits if_splits)
  then have "stored w p (primary_bin K key) = Some (CHR 0x00 # rest)"
    using redis_lawsD(1) [OF assms(1) c] redis_lawsD(2) [OF assms(1)] v by fastforce
  with d show ?thesis by (intro that)
qed

lemma lookup_stored:
  assumes "redis_frame IO pool_of stored" and "lookup sel K IO R key w = (x, w')"
  shows "stored w' = stored w"
proof -
  note frame = assms(1) [unfolded redis_frame_def]
  show ?thesis
  proof (cases "pool_for_hash sel R (primary_bin K key)")
    case None
    with assms(2) show ?thesis by (simp add: lookup_def)
  next
    case (Some p)
    obtain r w1 where g: "bb8_get IO p w = (r, w1)" by force
    then have s1: "stored w1 = stored w" using frame by blast
    show ?thesis
    proof (cases r)
      case (Inl e)
      with Some g assms(2) s1 show ?thesis by (simp add: lookup_def)
    next
      case (Inr c)
      obtain v w2 where v: "redis_get IO c (primary_bin K key) w1 = (v, w2)" by force
      then have "stored w2 = stored w1" using frame by blast
      moreover have "w' = w2"
        using Some g Inr v assms(2)
        by (auto simp: lookup_def Let_def split: sum.splits option.splits list.splits if_splits)
      ultimately show ?thesis using s1 by simp
    qed
  qed
qed

lemma finish_stored:
  assumes "redis_frame IO pool_of stored" and "miss_finish sel K IO R m w = (x, w')"
  shows "stored w' = stored w \<or> (\<exists>p bs. bincode_serialize K \<lparr>cache_meta = miss_meta m, cd_data = miss_value m\<rparr> = Inr bs
    \<and> stored w' = (stored w)(p := (stored w p)(miss_hash m \<mapsto> CHR 0x00 # bs)))"
proof -
  note frame = assms(1) [unfolded redis_frame_def]
  show ?thesis
  proof (cases "pool_for_hash sel R (miss_hash m)")
    case None
    with assms(2) show ?thesis by (simp add: miss_finish_def)
  next
    case (Some p)
    obtain r w1 where g: "bb8_get IO p w = (r, w1)" by force
    then have s1: "stored w1 = stored w" using frame by blast
    show ?thesis
    proof (cases r)
      case (Inl e)
      with Some g assms(2) s1 show ?thesis by (simp add: miss_finish_def)
    next
      case (Inr c)
      show ?thesis
      proof (cases "bincode_serialize K \<lparr>cache_meta = miss_meta m, cd_data = miss_value m\<rparr>")
        case (Inl e)
        with Some g Inr assms(2) s1 show ?thesis by (simp add: miss_finish_def)
      next
        case bs: (Inr bs)
        obtain y w2 where y: "redis_set IO c (miss_hash m) (CHR 0x00 # bs) w1 = (y, w2)" by force
        have "w' = w2" using Some g Inr bs y assms(2) by (simp add: miss_finish_def Let_def)
        with y frame s1 bs show ?thesis by metis
      qed
    qed
  qed
qed

section \<open>As a storage\<close>

text \<open>What pingora does with a miss handler: it is given the body in chunks, then finished.\<close>

definition store_entry ::
    "'lb select_with \<Rightarrow> ('be, 'pe, 'meta, 'key) codec \<Rightarrow> ('w, 'pool, 'conn, 'ce, 're) redis_io
      \<Rightarrow> ('lb, 'pool) RedisPools \<Rightarrow> 'key \<Rightarrow> 'meta \<Rightarrow> (bytes \<times> bool) list \<Rightarrow> 'w \<Rightarrow> ('pe + usize) outcome \<times> 'w" where
  "store_entry sel K IO R key meta chunks w =
     (case get_miss_handler K key meta of
        Inl e \<Rightarrow> (Returns (Inl e), w)
      | Inr m \<Rightarrow> miss_finish sel K IO R (fold (\<lambda>(d, eof). write_body d eof) chunks m) w)"

text \<open>The entries the replicas hold: the values of version 0 that decode.\<close>

definition redis_holds ::
    "('be, 'pe, 'meta, 'key) codec \<Rightarrow> ('w \<Rightarrow> 'pool \<Rightarrow> bytes \<rightharpoonup> bytes) \<Rightarrow> 'w \<Rightarrow> bytes \<Rightarrow> 'meta \<Rightarrow> bytes \<Rightarrow> bool" where
  "redis_holds K stored w hash meta body \<longleftrightarrow>
     (\<exists>p rest d. stored w p hash = Some (CHR 0x00 # rest) \<and> bincode_deserialize K rest = Inr d
        \<and> meta_deserialize K (fst (cache_meta d)) (snd (cache_meta d)) = Inr meta \<and> body = cd_data d)"

lemma redis_holds_mono: "(\<And>p. stored w' p \<subseteq>\<^sub>m stored w p) \<Longrightarrow> redis_holds K stored w' h m b \<Longrightarrow> redis_holds K stored w h m b"
  unfolding redis_holds_def map_le_def by (metis domI)

text \<open>What a finished miss handler stored decodes to the metadata and the body it was given.\<close>

lemma store_entry_holds:
  assumes codec: "codec_laws K" and frame: "redis_frame IO pool_of stored"
    and store: "store_entry sel K IO R key meta chunks w = (x, w')" and holds: "redis_holds K stored w' h m b"
  shows "redis_holds K stored w h m b \<or> h = primary_bin K key \<and> m = meta \<and> b = concat (map fst chunks)"
proof (cases "get_miss_handler K key meta")
  case (Inl e)
  with store holds show ?thesis by (simp add: store_entry_def)
next
  case (Inr m0)
  let ?m = "fold (\<lambda>(d, eof). write_body d eof) chunks m0"
  have f: "miss_finish sel K IO R ?m w = (x, w')" using store Inr by (simp add: store_entry_def)
  have m: "miss_hash ?m = primary_bin K key" "miss_value ?m = concat (map fst chunks)" "meta_serialize K meta = Inr (miss_meta ?m)"
    using Inr by (auto simp: write_bodies get_miss_handler_def split: sum.splits)
  obtain p rest d where h: "stored w' p h = Some (CHR 0x00 # rest)" "bincode_deserialize K rest = Inr d"
    "meta_deserialize K (fst (cache_meta d)) (snd (cache_meta d)) = Inr m" "b = cd_data d"
    using holds by (auto simp: redis_holds_def)
  show ?thesis
  proof (cases "stored w p h = Some (CHR 0x00 # rest)")
    case True
    with h show ?thesis by (auto simp: redis_holds_def)
  next
    case False
    then obtain bs where "bincode_serialize K \<lparr>cache_meta = miss_meta ?m, cd_data = concat (map fst chunks)\<rparr> = Inr bs"
      "h = primary_bin K key" "rest = bs"
      using finish_stored [OF frame f] h(1) m(1,2) by (auto simp: fun_upd_apply split: if_splits)
    then have "d = \<lparr>cache_meta = miss_meta ?m, cd_data = concat (map fst chunks)\<rparr>"
      using codec h(2) unfolding codec_laws_def by fastforce
    moreover have "meta_deserialize K (fst (miss_meta ?m)) (snd (miss_meta ?m)) = Inr meta"
      using codec m(3) by (simp add: codec_laws_def)
    ultimately show ?thesis using h(3,4) \<open>h = primary_bin K key\<close> by simp
  qed
qed

lemma store_entry_panic:
  assumes "redis_frame IO pool_of stored" and "store_entry sel K IO R k m chunks w = (Panic, w')"
  shows "stored w' = stored w"
  using assms unfolding store_entry_def miss_finish_def redis_frame_def Let_def
  by (auto split: sum.splits option.splits prod.splits)

text \<open>The redis replicas provide the storage interface; the pools are what a call finds.\<close>

interpretation rs: cache_storage "codec_laws K \<and> redis_laws IO pool_of stored \<and> redis_frame IO pool_of stored"
  "lookup sel K IO" "store_entry sel K IO" hit_data "redis_holds K stored" "primary_bin K"
  for sel :: "'lb select_with" and K :: "('be, 'pe, 'meta, 'key) codec" and IO :: "('w, 'pool, 'conn, 'ce, 're) redis_io"
    and pool_of stored
proof
  fix R :: "('lb, 'pool) RedisPools" and k w m hit w' x y h b chunks
  assume laws: "codec_laws K \<and> redis_laws IO pool_of stored \<and> redis_frame IO pool_of stored"
  show "redis_holds K stored w (primary_bin K k) m (hit_data hit)"
    if "lookup sel K IO R k w = (Returns (Inr (Some (m, hit))), w')"
    using lookup_hit [of IO pool_of stored, OF _ that] laws unfolding redis_holds_def by (metis RedisCacheHit.select_convs(1))
  show "redis_holds K stored w h m b" if "lookup sel K IO R k w = (x, w')" "redis_holds K stored w' h m b"
    using lookup_stored [OF _ that(1)] laws that(2) unfolding redis_holds_def by metis
  show "redis_holds K stored w h m' b \<or> h = primary_bin K k \<and> m' = m \<and> b = concat (map fst chunks)"
    if "store_entry sel K IO R k m chunks w = (y, w')" "redis_holds K stored w' h m' b" for m'
    using store_entry_holds [OF _ _ that] laws by blast
  show "redis_holds K stored w h m' b" if "store_entry sel K IO R k m chunks w = (Panic, w')" "redis_holds K stored w' h m' b" for m'
    using store_entry_panic [OF _ that(1)] laws that(2) unfolding redis_holds_def by metis
qed

section \<open>Properties\<close>

lemma stored_then_found:
  assumes "codec_laws K" and "redis_laws IO pool_of stored"
    and "get_miss_handler K key meta = Inr m"
    and "pool_for_hash sel R (primary_bin K key) = Some p" "pool_for_hash sel R' (primary_bin K key) = Some p"
    and "bincode_serialize K \<lparr>cache_meta = miss_meta m, cd_data = concat (map fst chunks)\<rparr> = Inr bs"
    and "bb8_get IO p w = (Inr c, w1)" and "redis_set IO c (primary_bin K key) (CHR 0x00 # bs) w1 = (Inr (), w2)"
    and "bb8_get IO p w2 = (Inr c', w3)" and "redis_get IO c' (primary_bin K key) w3 = (Inr v, w4)"
  shows "miss_finish sel K IO R (fold (\<lambda>(d, eof). write_body d eof) chunks m) w
      = (Returns (Inr (of_nat (Suc (length bs)))), w2)
    \<and> lookup sel K IO R' key w2 = (Returns (Inr (Some (meta, \<lparr>hit_data = concat (map fst chunks)\<rparr>))), w4)"
proof -
  have m: "miss_hash m = primary_bin K key" "miss_value m = []" "meta_serialize K meta = Inr (miss_meta m)"
    using assms(3) by (auto simp: get_miss_handler_def split: sum.splits)
  have "v = stored w2 p (primary_bin K key)"
    using redis_lawsD(1) [OF assms(2,9)] redis_lawsD(2) [OF assms(2,10)] by simp
  then have v: "v = Some (CHR 0x00 # bs)"
    using redis_lawsD(1) [OF assms(2,7)] redis_lawsD(3) [OF assms(2,8)] by simp
  have dec: "bincode_deserialize K bs = Inr \<lparr>cache_meta = miss_meta m, cd_data = concat (map fst chunks)\<rparr>"
    "meta_deserialize K (fst (miss_meta m)) (snd (miss_meta m)) = Inr meta"
    using assms(1,6) m(3) unfolding codec_laws_def by (auto simp: prod_eq_iff)
  have "miss_finish sel K IO R (fold (\<lambda>(d, eof). write_body d eof) chunks m) w
      = (Returns (Inr (of_nat (Suc (length bs)))), w2)"
    using assms(4,6-8) m by (simp add: miss_finish_def write_bodies Let_def)
  moreover have "lookup sel K IO R' key w2 = (Returns (Inr (Some (meta, \<lparr>hit_data = concat (map fst chunks)\<rparr>))), w4)"
    using assms(5,9,10) v dec by (simp add: lookup_def Let_def)
  ultimately show ?thesis by simp
qed

text \<open>All commands succeed.\<close>

definition redis_up :: "('w, 'pool, 'conn, 'ce, 're) redis_io \<Rightarrow> bool" where
  "redis_up IO \<longleftrightarrow> (\<forall>p w. \<exists>c w'. bb8_get IO p w = (Inr c, w')) \<and> (\<forall>c k w. \<exists>v w'. redis_get IO c k w = (Inr v, w'))
     \<and> (\<forall>c k v w. \<exists>w'. redis_set IO c k v w = (Inr (), w'))"

lemma stored_entry_found:
  assumes "codec_laws K" and "redis_laws IO pool_of stored" and "redis_up IO"
    and "get_miss_handler K key meta = Inr m" and "pool_for_hash sel R (primary_bin K key) = Some p"
    and "bincode_serialize K \<lparr>cache_meta = miss_meta m, cd_data = concat (map fst chunks)\<rparr> = Inr bs"
  shows "\<exists>w1 w2. store_entry sel K IO R key meta chunks w = (Returns (Inr (of_nat (Suc (length bs)))), w1)
    \<and> lookup sel K IO R key w1 = (Returns (Inr (Some (meta, \<lparr>hit_data = concat (map fst chunks)\<rparr>))), w2)"
proof -
  have up: "\<exists>c w'. bb8_get IO p w = (Inr c, w')" "\<exists>v w'. redis_get IO c k w = (Inr v, w')" "\<exists>w'. redis_set IO c k v w = (Inr (), w')"
    for p c k v w using assms(3) by (auto simp: redis_up_def)
  obtain c w1 where c: "bb8_get IO p w = (Inr c, w1)" using up(1) by blast
  obtain w2 where w2: "redis_set IO c (primary_bin K key) (CHR 0x00 # bs) w1 = (Inr (), w2)" using up(3) by blast
  obtain c' w3 where c': "bb8_get IO p w2 = (Inr c', w3)" using up(1) by blast
  obtain v w4 where "redis_get IO c' (primary_bin K key) w3 = (Inr v, w4)" using up(2) by blast
  from stored_then_found [OF assms(1,2,4,5,5,6) c w2 c' this] show ?thesis
    unfolding store_entry_def by (auto simp: assms(4))
qed

text \<open>C17. The cache returns what was put into it: if the miss handler of a key is given metadata and a body in
  any number of chunks and finishes with a stored value, a following lookup of that key at the same pool
  returns this metadata and the whole body.\<close>

theorem cache_round_trip:
  assumes "codec_laws K" and "redis_laws IO pool_of stored"
    and "get_miss_handler K key meta = Inr m"
    and "pool_for_hash sel R (primary_bin K key) = Some p" "pool_for_hash sel R' (primary_bin K key) = Some p"
    and "bincode_serialize K \<lparr>cache_meta = miss_meta m, cd_data = concat (map fst chunks)\<rparr> = Inr bs"
    and "bb8_get IO p w = (Inr c, w1)" and "redis_set IO c (primary_bin K key) (CHR 0x00 # bs) w1 = (Inr (), w2)"
    and "bb8_get IO p w2 = (Inr c', w3)" and "redis_get IO c' (primary_bin K key) w3 = (Inr v, w4)"
  shows "miss_finish sel K IO R (fold (\<lambda>(d, eof). write_body d eof) chunks m) w
      = (Returns (Inr (of_nat (Suc (length bs)))), w2)
    \<and> lookup sel K IO R' key w2 = (Returns (Inr (Some (meta, \<lparr>hit_data = concat (map fst chunks)\<rparr>))), w4)"
  using assms by (rule stored_then_found)

text \<open>A store of one map per pool, whose calls always succeed.\<close>

definition demo_codec :: "(unit, unit, unit, string) codec" where
  "demo_codec = \<lparr>bincode_serialize = (\<lambda>d. if cache_meta d = ([], []) then Inr (cd_data d) else Inl ()),
     bincode_deserialize = (\<lambda>bs. Inr \<lparr>cache_meta = ([], []), cd_data = bs\<rparr>),
     meta_serialize = (\<lambda>_. Inr ([], [])), meta_deserialize = (\<lambda>_ _. Inr ()), primary_bin = (\<lambda>k. k)\<rparr>"

definition demo_io :: "(nat \<Rightarrow> bytes \<rightharpoonup> bytes, nat, nat, unit, unit) redis_io" where
  "demo_io = \<lparr>bb8_get = (\<lambda>p w. (Inr p, w)), redis_get = (\<lambda>c k w. (Inr (w c k), w)),
     redis_set = (\<lambda>c k v w. (Inr (), w(c := (w c)(k \<mapsto> v))))\<rparr>"

text \<open>A load balancer that tries its backends in order.\<close>

definition demo_select :: "Backend list select_with" where
  "demo_select lb key n accept = find (\<lambda>b. accept b True) (take n lb)"

definition demo_pools :: "(Backend list, nat) RedisPools" where
  "demo_pools = \<lparr>lb_consistent = [Backend (Inet 1 6379) 1, Backend (Inet 2 6379) 1],
     pools = [Backend (Inet 2 6379) 1 \<mapsto> 7], pools_later = [Backend (Inet 2 6379) 1 \<mapsto> 7]\<rparr>"

lemma demo_redis_up: "redis_up demo_io"
  by (simp add: redis_up_def demo_io_def)

lemma demo_select_law: "select_law demo_select"
  by (auto simp: select_law_def demo_select_def find_Some_iff)

lemma demo_selected: "select_backend demo_select demo_pools key = Some (Backend (Inet 2 6379) 1)"
  by (simp add: select_backend_def demo_select_def demo_pools_def)

lemma demo_pool: "pool_for_hash demo_select demo_pools key = Some 7"
  by (simp add: pool_for_hash_def demo_selected) (simp add: demo_pools_def)

theorem cache_round_trip_witness:
  "\<exists>m w2. get_miss_handler demo_codec ''key'' () = Inr m
     \<and> miss_finish demo_select demo_codec demo_io demo_pools (fold (\<lambda>(d, eof). write_body d eof) [(''ab'', False), (''c'', True)] m)
         (\<lambda>_. Map.empty) = (Returns (Inr 4), w2)
     \<and> lookup demo_select demo_codec demo_io demo_pools ''key'' w2 = (Returns (Inr (Some ((), \<lparr>hit_data = ''abc''\<rparr>))), w2)"
proof -
  let ?m = "\<lparr>miss_meta = ([], []), miss_hash = ''key'', miss_value = []\<rparr>"
  have m: "get_miss_handler demo_codec ''key'' () = Inr ?m"
    by (simp add: get_miss_handler_def demo_codec_def)
  have "codec_laws demo_codec"
    by (auto simp: codec_laws_def demo_codec_def split: if_splits)
  moreover have "redis_laws demo_io (\<lambda>c. c) (\<lambda>w. w)" by (simp add: redis_laws_def demo_io_def)
  ultimately show ?thesis
    using cache_round_trip [where sel = demo_select and R = demo_pools and R' = demo_pools and K = demo_codec and IO = demo_io and pool_of = "\<lambda>c. c" and stored = "\<lambda>w. w"
        and key = "''key''" and p = 7 and m = ?m and bs = "''abc''" and chunks = "[(''ab'', False), (''c'', True)]"] m demo_pool
    by (simp add: demo_io_def demo_codec_def)
qed

text \<open>C22. A lookup is a hit exactly when the selected replica answers with a value of version 0 that decodes;
  it is an error exactly when only the metadata in it does not decode, and it panics exactly on an empty
  value. In all other cases, with no pool, no connection, a failed command, no value, another version or
  undecodable data, it is a miss.\<close>

theorem lookup_results:
  "(fst (lookup sel K IO R key w) = Returns (Inr (Some (meta, hit))) \<longleftrightarrow>
      (\<exists>p c w1 rest d. pool_for_hash sel R (primary_bin K key) = Some p \<and> bb8_get IO p w = (Inr c, w1)
         \<and> fst (redis_get IO c (primary_bin K key) w1) = Inr (Some (CHR 0x00 # rest))
         \<and> bincode_deserialize K rest = Inr d \<and> hit = \<lparr>hit_data = cd_data d\<rparr>
         \<and> meta_deserialize K (fst (cache_meta d)) (snd (cache_meta d)) = Inr meta))
   \<and> (fst (lookup sel K IO R key w) = Returns (Inl e) \<longleftrightarrow>
      (\<exists>p c w1 rest d. pool_for_hash sel R (primary_bin K key) = Some p \<and> bb8_get IO p w = (Inr c, w1)
         \<and> fst (redis_get IO c (primary_bin K key) w1) = Inr (Some (CHR 0x00 # rest))
         \<and> bincode_deserialize K rest = Inr d
         \<and> meta_deserialize K (fst (cache_meta d)) (snd (cache_meta d)) = Inl e))
   \<and> (fst (lookup sel K IO R key w) = Panic \<longleftrightarrow>
      (\<exists>p c w1. pool_for_hash sel R (primary_bin K key) = Some p \<and> bb8_get IO p w = (Inr c, w1)
         \<and> fst (redis_get IO c (primary_bin K key) w1) = Inr (Some [])))"
proof (cases "pool_for_hash sel R (primary_bin K key)")
  case None
  then show ?thesis by (simp add: lookup_def)
next
  case (Some p)
  obtain r w1 where g: "bb8_get IO p w = (r, w1)" by force
  show ?thesis
  proof (cases r)
    case (Inl x)
    with Some g show ?thesis by (simp add: lookup_def)
  next
    case (Inr c)
    obtain v w2 where v: "redis_get IO c (primary_bin K key) w1 = (v, w2)" by force
    show ?thesis
    proof (cases "\<exists>x xs. v = Inr (Some (x # xs))")
      case True
      then obtain x xs where x: "v = Inr (Some (x # xs))" by blast
      show ?thesis
        using Some g Inr v x
        by (cases "bincode_deserialize K xs";
            cases "meta_deserialize K (fst (cache_meta (projr (bincode_deserialize K xs))))
              (snd (cache_meta (projr (bincode_deserialize K xs))))")
          (auto simp: lookup_def Let_def)
    next
      case False
      then consider y where "v = Inl y" | "v = Inr None" | "v = Inr (Some [])"
        by (metis (full_types) neq_Nil_conv not_None_eq old.sum.exhaust)
      then show ?thesis by cases (use Some g Inr v in \<open>simp_all add: lookup_def Let_def\<close>)
    qed
  qed
qed

text \<open>A turn of the maintenance loop leaves exactly one pool per discovered backend: it keeps the pools
  that are still wanted, drops the others and builds the missing ones; it panics exactly when a backend it
  adds, or drops while logging that, has no internet address, or a pool cannot be built.\<close>

lemma maintain_pools_exact:
  "maintain_pools info build bs ps =
     (if (info \<and> (\<exists>b. ps b \<noteq> None \<and> b \<notin> set bs \<and> as_inet b = None))
         \<or> (\<exists>b \<in> set bs. ps b = None \<and> Option.bind (as_inet b) build = None) then Panic
      else Returns (\<lambda>b. if b \<notin> set bs then None
        else case ps b of Some p \<Rightarrow> Some p | None \<Rightarrow> Option.bind (as_inet b) build))"
proof (cases "info \<and> (\<exists>b. ps b \<noteq> None \<and> b \<notin> set bs \<and> as_inet b = None)")
  case True
  then have "info \<and> (\<exists>b \<in> dom ps - set bs. as_inet b = None)" by blast
  then have "retain_pools info (set bs) ps = Panic" unfolding retain_pools_def by (rule if_P)
  with True show ?thesis by (simp add: maintain_pools_def)
next
  case False
  then have "\<not> (info \<and> (\<exists>b \<in> dom ps - set bs. as_inet b = None))" by blast
  then have "retain_pools info (set bs) ps = Returns (ps |` set bs)" unfolding retain_pools_def by (rule if_not_P)
  then have "maintain_pools info build bs ps = add_pools build bs (ps |` set bs)"
    by (simp add: maintain_pools_def)
  moreover have "built_pools build (set bs) (ps |` set bs)
      = (\<lambda>b. if b \<notin> set bs then None else case ps b of Some p \<Rightarrow> Some p | None \<Rightarrow> Option.bind (as_inet b) build)"
    by (auto simp: built_pools_def fun_eq_iff split: option.split)
  moreover have "(\<exists>b \<in> set bs. (ps |` set bs) b = None \<and> Option.bind (as_inet b) build = None)
      \<longleftrightarrow> (\<exists>b \<in> set bs. ps b = None \<and> Option.bind (as_inet b) build = None)" by auto
  ultimately show ?thesis using False unfolding add_pools_eq by simp
qed

text \<open>Reading a hit's body as the storage interface prescribes: chunk after chunk until the first \<open>None\<close>.
  The result is \<open>None\<close> when the fuel ran out before the end of the body.\<close>

fun read_to_end :: "nat \<Rightarrow> RedisCacheHit \<Rightarrow> bytes option" where
  "read_to_end 0 h = None"
| "read_to_end (Suc fuel) h =
     (case read_body h :: (unit + bytes option) \<times> RedisCacheHit of
        (Inr (Some chunk), h') \<Rightarrow> map_option ((@) chunk) (read_to_end fuel h')
      | (_, h') \<Rightarrow> Some [])"

text \<open>The body of a cache hit never ends: a reader that asks for chunks until it is told that there are no
  more is given the whole body again each time, and no number of reads reaches the end.\<close>

lemma hit_body_never_ends: "read_to_end fuel h = None"
  by (induction fuel arbitrary: h) (simp_all add: read_body_def)

text \<open>A key goes to a replica with a connection pool: the selected backend had a pool at the time of
  selection, and the result is its current pool, or nothing if it lost its pool in between. Without
  such a race there is a pool whenever the load balancer selects a backend.\<close>

theorem pool_for_hash_result:
  assumes "select_law sel"
  shows "(pool_for_hash sel R hash = Some p \<longleftrightarrow>
      (\<exists>b. select_backend sel R hash = Some b \<and> pools R b \<noteq> None \<and> pools_later R b = Some p))
    \<and> (pools_later R = pools R \<longrightarrow> (pool_for_hash sel R hash = None \<longleftrightarrow> select_backend sel R hash = None))"
proof -
  have "pools R b \<noteq> None" if "select_backend sel R hash = Some b" for b
  proof -
    from that assms obtain healthy where "if \<not> healthy then False else pools R b \<noteq> None"
      unfolding select_law_def select_backend_def by blast
    then show ?thesis by (simp split: if_splits)
  qed
  then show ?thesis by (cases "select_backend sel R hash") (auto simp: pool_for_hash_def split: option.splits)
qed

theorem pool_for_hash_result_witness: "pool_for_hash demo_select demo_pools ''key'' = Some 7"
proof -
  have "\<exists>b. select_backend demo_select demo_pools ''key'' = Some b \<and> pools demo_pools b \<noteq> None
      \<and> pools_later demo_pools b = Some 7"
    by (rule exI [of _ "Backend (Inet 2 6379) 1"]) (simp add: demo_selected, simp add: demo_pools_def)
  with pool_for_hash_result [OF demo_select_law, of demo_pools "''key''" 7] show ?thesis by blast
qed

end
