(* ===== verification/Pool_Service.thy ===== *)
theory Pool_Service
  imports Redis_Replicas
begin

text \<open>
  The background service of \<open>grcache-proxy/src/cache/redis_replicas.rs\<close> that keeps one connection pool per
  discovered replica, cut at its suspension points: it waits for a change of the watched set, takes a copy of
  the set, drops the pools that are not wanted, and awaits the building of every missing pool. Meanwhile
  discovery may publish again, and lookups read the pools. The lemmas relate the service to a whole turn of its
  loop (\<open>maintain_pools\<close>), show that it does not panic if pools can be built, and that it catches up.
\<close>

section \<open>The service\<close>

text \<open>Where the service stands: waiting for a change, or with this part of the copied set to go through.\<close>

datatype pool_pc = Waiting | Adding "Backend list"

text \<open>The pools, whether the service's receiver of the watch channel has a value it has not seen, and where the
  service stands.\<close>

record 'pool pool_service =
  ps_pools :: "Backend \<rightharpoonup> 'pool"
  unseen :: bool
  ps_pc :: pool_pc

text \<open>\<open>RedisReplicasCacheBackend::new\<close>: the discovery handle, no pools yet, and the readiness endpoint. It also
  spawns the readiness task, for which it has to be called inside a tokio runtime.\<close>

record 'pool RedisReplicasCacheBackend =
  rb_backends :: nat
  rb_pools :: "Backend \<rightharpoonup> 'pool"
  rb_health :: nat

definition RedisReplicasCacheBackend_new ::
    "bool \<Rightarrow> nat \<Rightarrow> nat \<Rightarrow> 'pool RedisReplicasCacheBackend outcome" where
  "RedisReplicasCacheBackend_new runtime discovery health =
     (if runtime then Returns \<lparr>rb_backends = discovery, rb_pools = Map.empty, rb_health = health\<rparr> else Panic)"

text \<open>The service when \<open>start\<close> reaches its loop: \<open>mark_changed\<close> makes the first turn happen at once.\<close>

definition start_pools :: "'pool RedisReplicasCacheBackend \<Rightarrow> 'pool pool_service" where
  "start_pools rb = \<lparr>ps_pools = rb_pools rb, unseen = True, ps_pc = Waiting\<rparr>"

text \<open>A value sent on the watch channel counts as unseen if the sender reports a modification.\<close>

definition sent :: "Backend set \<Rightarrow> Backend set \<Rightarrow> 'pool pool_service \<Rightarrow> 'pool pool_service" where
  "sent old new ps = ps\<lparr>unseen := unseen ps \<or> old \<noteq> new\<rparr>"

text \<open>\<open>changed().await\<close> returns when there is an unseen value, fails when there is none and the sender is gone
  (\<open>alive\<close> says that it is not), and otherwise waits: \<open>None\<close>. Then comes the part of the turn up to the loop that
  adds pools. \<open>bs\<close> enumerates the watched set.\<close>

definition wake ::
    "bool \<Rightarrow> bool \<Rightarrow> Backend list \<Rightarrow> 'pool pool_service \<Rightarrow> 'pool pool_service outcome option" where
  "wake info alive bs ps =
     (if unseen ps then
        Some (bind_outcome (retain_pools info (set bs) (ps_pools ps)) (\<lambda>m.
          Returns (ps\<lparr>ps_pools := m, unseen := False, ps_pc := Adding bs\<rparr>)))
      else if alive then None else Some Panic)"

text \<open>The loop over the copied set, one backend at a time.\<close>

fun add_next ::
    "(u32 \<times> u16 \<Rightarrow> 'pool option) \<Rightarrow> Backend list \<Rightarrow> 'pool pool_service \<Rightarrow> 'pool pool_service outcome" where
  "add_next build [] ps = Returns (ps\<lparr>ps_pc := Waiting\<rparr>)"
| "add_next build (b # bs) ps =
     (if ps_pools ps b = None then
        bind_outcome (unwrap (as_inet b)) (\<lambda>inet_addr.
        bind_outcome (unwrap (build inet_addr)) (\<lambda>pool.
          Returns (ps\<lparr>ps_pools := (ps_pools ps)(b \<mapsto> pool), ps_pc := Adding bs\<rparr>)))
      else Returns (ps\<lparr>ps_pc := Adding bs\<rparr>))"

definition pool_step ::
    "bool \<Rightarrow> (u32 \<times> u16 \<Rightarrow> 'pool option) \<Rightarrow> bool \<Rightarrow> Backend list \<Rightarrow> 'pool pool_service
      \<Rightarrow> 'pool pool_service outcome option" where
  "pool_step info build alive bs ps =
     (case ps_pc ps of Waiting \<Rightarrow> wake info alive bs ps | Adding todo \<Rightarrow> Some (add_next build todo ps))"

section \<open>A whole turn\<close>

text \<open>The steps of the service until it waits again.\<close>

fun finish_turn :: "(u32 \<times> u16 \<Rightarrow> 'pool option) \<Rightarrow> Backend list \<Rightarrow> 'pool pool_service \<Rightarrow> 'pool pool_service outcome" where
  "finish_turn build [] ps = add_next build [] ps"
| "finish_turn build (b # bs) ps = bind_outcome (add_next build (b # bs) ps) (finish_turn build bs)"

lemma finish_turn_eq:
  "finish_turn build bs ps =
     bind_outcome (add_pools build bs (ps_pools ps)) (\<lambda>m. Returns (ps\<lparr>ps_pools := m, ps_pc := Waiting\<rparr>))"
proof (induction bs arbitrary: ps)
  case (Cons b bs)
  show ?case
  proof (cases "ps_pools ps b")
    case None
    show ?thesis by (cases "as_inet b"; cases "build (the (as_inet b))") (simp_all add: None Cons.IH fun_upd_def)
  qed (simp add: Cons.IH)
qed simp

text \<open>Without interference, the service does exactly what a turn of its loop does.\<close>

lemma turn_is_maintain_pools:
  assumes "ps_pc ps = Waiting" and "unseen ps"
  shows "bind_outcome (the (pool_step info build alive bs ps)) (\<lambda>ps'. finish_turn build bs ps')
    = bind_outcome (maintain_pools info build bs (ps_pools ps))
        (\<lambda>m. Returns (ps\<lparr>ps_pools := m, unseen := False, ps_pc := Waiting\<rparr>))"
  using assms
  by (cases ps; cases "retain_pools info (set bs) (ps_pools ps)")
    (simp_all add: pool_step_def wake_def maintain_pools_def finish_turn_eq)

section \<open>The invariant\<close>

fun todo :: "pool_pc \<Rightarrow> Backend list" where
  "todo Waiting = []"
| "todo (Adding bs) = bs"

text \<open>With the watched set \<open>W\<close>: unless there is an unseen set, the pools and those still to be built are for
  the backends in \<open>W\<close>, and all backends the service knows have internet addresses.\<close>

definition pool_invar :: "Backend set \<Rightarrow> 'pool pool_service \<Rightarrow> bool" where
  "pool_invar W ps \<longleftrightarrow>
     (unseen ps \<or> dom (ps_pools ps) \<union> set (todo (ps_pc ps)) = W)
     \<and> (\<forall>b \<in> dom (ps_pools ps) \<union> set (todo (ps_pc ps)). as_inet b \<noteq> None)"

lemma pool_invar_start: "rb_pools rb = Map.empty \<Longrightarrow> pool_invar W (start_pools rb)"
  by (simp add: pool_invar_def start_pools_def)

lemma pool_invar_sent: "pool_invar W ps \<Longrightarrow> pool_invar W' (sent W W' ps)"
  by (auto simp: pool_invar_def sent_def)

lemma add_next_invar:
  assumes "add_next build bs ps = Returns ps'"
  shows "unseen ps' = unseen ps \<and> dom (ps_pools ps') \<union> set (todo (ps_pc ps')) = dom (ps_pools ps) \<union> set bs"
  using assms by (cases bs) (auto split: if_splits)

lemma pool_invar_step:
  assumes inv: "pool_invar W ps" and W: "set bs = W" "\<And>b. b \<in> W \<Longrightarrow> as_inet b \<noteq> None"
    and step: "pool_step info build alive bs ps = Some (Returns ps')"
  shows "pool_invar W ps'"
proof (cases "ps_pc ps")
  case Waiting
  with step W show ?thesis
    by (auto simp: pool_step_def wake_def pool_invar_def retain_pools_def restrict_map_def split: if_splits)
next
  case (Adding bs')
  then show ?thesis
    using step inv add_next_invar [of build bs' ps ps'] by (auto simp: pool_step_def pool_invar_def)
qed

text \<open>The steps the service has left: one for every backend of the current copy, and a whole turn if there is
  an unseen set.\<close>

definition work :: "Backend set \<Rightarrow> 'pool pool_service \<Rightarrow> nat" where
  "work W ps = (if unseen ps then card W + 2 else 0)
     + (case ps_pc ps of Waiting \<Rightarrow> 0 | Adding bs \<Rightarrow> Suc (length bs))"

lemma work_0: "work W ps = 0 \<longleftrightarrow> ps_pc ps = Waiting \<and> \<not> unseen ps"
  by (auto simp: work_def split: pool_pc.splits)

text \<open>A pool can be built for every internet address.\<close>

definition builds :: "(u32 \<times> u16 \<Rightarrow> 'pool option) \<Rightarrow> bool" where
  "builds build \<longleftrightarrow> (\<forall>addr. build addr \<noteq> None)"

lemma add_next_returns:
  assumes "builds build" and "\<And>b. b \<in> set bs \<Longrightarrow> as_inet b \<noteq> None"
  shows "\<exists>m. add_next build bs ps = Returns (ps\<lparr>ps_pools := m, ps_pc := (if bs = [] then Waiting else Adding (tl bs))\<rparr>)
    \<and> dom m = dom (ps_pools ps) \<union> set (take 1 bs)"
proof (cases bs)
  case Nil
  then show ?thesis by (intro exI [of _ "ps_pools ps"]) simp
next
  case (Cons b bs')
  obtain addr pool where "as_inet b = Some addr" "build addr = Some pool"
    using assms Cons by (metis builds_def list.set_intros(1) not_None_eq)
  then show ?thesis
    using Cons by (cases "ps_pools ps b") (auto intro: exI [of _ "ps_pools ps"] exI [of _ "(ps_pools ps)(b \<mapsto> pool)"])
qed

lemma pool_step_ok:
  assumes inv: "pool_invar W ps" and build: "builds build" and W: "set bs = W" "\<And>b. b \<in> W \<Longrightarrow> as_inet b \<noteq> None"
    and "distinct bs"
  shows "work W ps > 0 \<Longrightarrow> \<exists>ps'. pool_step info build alive bs ps = Some (Returns ps') \<and> pool_invar W ps' \<and> work W ps' < work W ps"
    and "work W ps = 0 \<Longrightarrow> dom (ps_pools ps) = W \<and> (alive \<longrightarrow> pool_step info build alive bs ps = None)"
proof -
  show "\<exists>ps'. pool_step info build alive bs ps = Some (Returns ps') \<and> pool_invar W ps' \<and> work W ps' < work W ps"
    if "work W ps > 0"
  proof (cases "ps_pc ps")
    case Waiting
    with that have u: "unseen ps" by (auto simp: work_def split: if_splits)
    have "as_inet b \<noteq> None" if "b \<in> dom (ps_pools ps)" for b using inv that by (auto simp: pool_invar_def)
    then have "retain_pools info (set bs) (ps_pools ps) = Returns (ps_pools ps |` set bs)"
      by (auto simp: retain_pools_def)
    then show ?thesis
      using Waiting u W distinct_card [OF assms(5)]
      by (auto simp: pool_step_def wake_def pool_invar_def work_def)
  next
    case (Adding bs')
    with inv have a: "\<And>b. b \<in> set bs' \<Longrightarrow> as_inet b \<noteq> None" by (auto simp: pool_invar_def)
    from add_next_returns [OF build a, of bs' ps] obtain m where
      m: "add_next build bs' ps = Returns (ps\<lparr>ps_pools := m, ps_pc := (if bs' = [] then Waiting else Adding (tl bs'))\<rparr>)"
      "dom m = dom (ps_pools ps) \<union> set (take 1 bs')" by blast
    have "set (take 1 bs') \<union> set (todo (if bs' = [] then Waiting else Adding (tl bs'))) = set bs'" by (cases bs') auto
    then show ?thesis
      using Adding m inv by (cases bs') (auto simp: pool_step_def pool_invar_def work_def)
  qed
  show "dom (ps_pools ps) = W \<and> (alive \<longrightarrow> pool_step info build alive bs ps = None)" if "work W ps = 0"
    using that inv by (simp add: work_0 pool_invar_def pool_step_def wake_def)
qed

section \<open>Properties\<close>

text \<open>C23. A turn of the pool service, from the change it waits for until it waits again, leaves exactly one pool
  per discovered backend: it keeps the pools that are still wanted, drops the others and builds the missing ones;
  it panics exactly when a backend it adds, or drops while logging that, has no internet address, or a pool cannot
  be built.\<close>

theorem pool_service_turn:
  assumes "ps_pc ps = Waiting" and "unseen ps"
  shows "bind_outcome (the (pool_step info build alive bs ps)) (finish_turn build bs) =
     (if (info \<and> (\<exists>b. ps_pools ps b \<noteq> None \<and> b \<notin> set bs \<and> as_inet b = None))
         \<or> (\<exists>b \<in> set bs. ps_pools ps b = None \<and> Option.bind (as_inet b) build = None) then Panic
      else Returns (ps\<lparr>ps_pools := (\<lambda>b. if b \<notin> set bs then None
             else case ps_pools ps b of Some p \<Rightarrow> Some p | None \<Rightarrow> Option.bind (as_inet b) build),
           unseen := False, ps_pc := Waiting\<rparr>))"
  unfolding turn_is_maintain_pools [OF assms] maintain_pools_exact
  by (simp only: if_distrib [of "\<lambda>m. bind_outcome m f" for f] bind_outcome.simps)

text \<open>Two replicas were known, one of them is gone and a new one is there.\<close>

theorem pool_service_turn_witness:
  "bind_outcome (the (pool_step True (\<lambda>(ip, p). Some (unat ip)) True [Backend (Inet 2 6379) 1, Backend (Inet 3 6379) 1]
       \<lparr>ps_pools = [Backend (Inet 1 6379) 1 \<mapsto> 7, Backend (Inet 2 6379) 1 \<mapsto> 8], unseen = True, ps_pc = Waiting\<rparr>))
     (finish_turn (\<lambda>(ip, p). Some (unat ip)) [Backend (Inet 2 6379) 1, Backend (Inet 3 6379) 1])
   = Returns \<lparr>ps_pools = [Backend (Inet 2 6379) 1 \<mapsto> 8, Backend (Inet 3 6379) 1 \<mapsto> 3], unseen = False, ps_pc = Waiting\<rparr>"
proof -
  let ?ps = "\<lparr>ps_pools = [Backend (Inet 1 6379) 1 \<mapsto> 7, Backend (Inet 2 6379) 1 \<mapsto> 8], unseen = True, ps_pc = Waiting\<rparr>"
  show ?thesis
    using pool_service_turn [of ?ps True "\<lambda>(ip, p). Some (unat ip)" True "[Backend (Inet 2 6379) 1, Backend (Inet 3 6379) 1]"]
    by (auto simp: fun_eq_iff)
qed

end
