(* ===== verification/Tracing.thy ===== *)
theory Tracing
  imports Config
begin

text \<open>
  \<open>grcache-proxy/src/tracing.rs\<close>: the process-wide trace propagators and the extraction of the caller's
  trace context from the headers of a request. OpenTelemetry's propagators, its exporter and the current
  context are parameters. The lemmas say which propagators a configuration enables and that the context
  comes from the last enabled one that finds its headers.
\<close>

section \<open>Definitions\<close>

datatype propagator = TraceContextPropagator | DatadogPropagator

text \<open>The process-wide state: no propagator until \<open>set_text_map_propagator\<close> was called.\<close>

record otel_global =
  text_map_propagator :: "propagator list"
  tracer_provider :: "string option"

definition otel_default :: otel_global where
  "otel_default = \<lparr>text_map_propagator = [], tracer_provider = None\<rparr>"

definition get_resource :: string where
  "get_resource = ''grcache-proxy''"

definition propagators :: "TracingConfig \<Rightarrow> propagator list" where
  "propagators config =
     (if opentelemetry_propagator config then [TraceContextPropagator] else [])
     @ (if datadog_propagator config then [DatadogPropagator] else [])"

text \<open>\<open>built\<close> is what building the span exporter returns.\<close>

definition Tracing_init :: "'ex option \<Rightarrow> TracingConfig \<Rightarrow> otel_global \<Rightarrow> otel_global outcome" where
  "Tracing_init built config g =
     (let g' = g\<lparr>text_map_propagator := propagators config\<rparr> in
      bind_outcome (unwrap built) (\<lambda>_. Returns (g'\<lparr>tracer_provider := Some get_resource\<rparr>)))"

text \<open>\<open>shutdown\<close> unwraps what the provider's shutdown returns.\<close>

definition Tracing_shutdown :: "'e + unit \<Rightarrow> unit outcome" where
  "Tracing_shutdown result = unwrap_result result"

text \<open>A propagator's \<open>extract_with_context\<close> and the current context. A composite propagator asks its members
  in order, each with the context of the one before.\<close>

record ('h, 'tc) propagation =
  extract_with_context :: "propagator \<Rightarrow> 'tc \<Rightarrow> 'h \<Rightarrow> 'tc"
  current_context :: 'tc

definition extract_context_from_headers :: "('h, 'tc) propagation \<Rightarrow> otel_global \<Rightarrow> 'h \<Rightarrow> 'tc" where
  "extract_context_from_headers X g headers =
     fold (\<lambda>p cx. extract_with_context X p cx headers) (text_map_propagator g) (current_context X)"

section \<open>Lemmas\<close>

text \<open>Documented behaviour of a propagator: it returns the remote context its headers describe, or the
  context it was given.\<close>

definition propagation_law :: "('h, 'tc) propagation \<Rightarrow> (propagator \<Rightarrow> 'h \<Rightarrow> 'tc option) \<Rightarrow> bool" where
  "propagation_law X remote \<longleftrightarrow>
     (\<forall>p cx h. extract_with_context X p cx h = (case remote p h of Some tc \<Rightarrow> tc | None \<Rightarrow> cx))"

lemma extract_untraced: "extract_context_from_headers X otel_default h = current_context X"
  by (simp add: extract_context_from_headers_def otel_default_def)

text \<open>The context comes from the last propagator that finds one, and is the current context if none does.\<close>

lemma extract_last:
  assumes "propagation_law X remote"
  shows "(\<exists>ps p qs. text_map_propagator g = ps @ p # qs \<and> remote p h = Some (extract_context_from_headers X g h)
      \<and> (\<forall>q \<in> set qs. remote q h = None))
    \<or> (\<forall>p \<in> set (text_map_propagator g). remote p h = None) \<and> extract_context_from_headers X g h = current_context X"
proof -
  define ps where "ps = text_map_propagator g"
  let ?cx = "\<lambda>ps. fold (\<lambda>p cx. extract_with_context X p cx h) ps (current_context X)"
  have "(\<exists>us p vs. ps = us @ p # vs \<and> remote p h = Some (?cx ps) \<and> (\<forall>q \<in> set vs. remote q h = None))
      \<or> (\<forall>p \<in> set ps. remote p h = None) \<and> ?cx ps = current_context X"
  proof (induction ps rule: rev_induct)
    case (snoc p ps)
    show ?case
    proof (cases "remote p h")
      case None
      with assms have same: "?cx (ps @ [p]) = ?cx ps" by (simp add: propagation_law_def)
      from snoc show ?thesis
      proof
        assume "\<exists>us q vs. ps = us @ q # vs \<and> remote q h = Some (?cx ps) \<and> (\<forall>q \<in> set vs. remote q h = None)"
        then obtain us q vs where "ps = us @ q # vs" "remote q h = Some (?cx ps)" "\<forall>q \<in> set vs. remote q h = None" by blast
        with None same show ?thesis by (intro disjI1 exI [of _ us] exI [of _ q] exI [of _ "vs @ [p]"]) auto
      qed (use None same in auto)
    next
      case (Some tc)
      with assms have "?cx (ps @ [p]) = tc" by (simp add: propagation_law_def)
      with Some show ?thesis by (intro disjI1 exI [of _ ps] exI [of _ p] exI [of _ "[]"]) simp
    qed
  qed simp
  then show ?thesis by (simp add: extract_context_from_headers_def ps_def)
qed

lemma extract_configured:
  assumes "propagation_law X remote" and "Tracing_init built config g = Returns g'"
  shows "extract_context_from_headers X g' h =
    (case (if datadog_propagator config then remote DatadogPropagator h else None) of
       Some tc \<Rightarrow> tc
     | None \<Rightarrow>
         (case (if opentelemetry_propagator config then remote TraceContextPropagator h else None) of
            Some tc \<Rightarrow> tc
          | None \<Rightarrow> current_context X))"
proof -
  have "text_map_propagator g' = propagators config"
    using assms(2) by (cases built) (auto simp: Tracing_init_def)
  with assms(1) show ?thesis
    by (simp add: extract_context_from_headers_def propagators_def propagation_law_def split: option.split)
qed

end
