(* ===== verification/Proxy.thy ===== *)
theory Proxy
  imports Grpc Service_Store Tracing
begin

text \<open>
  \<open>grcache-proxy/src/proxy/mod.rs\<close>: the callbacks of the proxy for one request. pingora's session, its
  cache and its load balancers, the clock and the span of the request are parameters or logs; the
  routing table is the one of the service store. Reading the request body is a loop that may not end,
  so \<open>request_filter\<close> returns an option whose \<open>None\<close> is divergence. The lemmas say which requests are
  refused, which are cached and under which conditions, and which headers reach the upstream of a cached
  request; \<open>Request_Lifecycle\<close> puts the callbacks in order. The sketch in \<open>proxy/logic.rs\<close>, which only parses the path, is at the end.
\<close>

section \<open>Parameters\<close>

text \<open>What the callbacks use of pingora's session. The request header has a raw path and a header map.\<close>

record ('pe, 'h, 'rh, 'ses) pingora =
  req_header :: "'ses \<Rightarrow> 'rh"
  rh_raw_path :: "'rh \<Rightarrow> bytes"
  rh_headers :: "'rh \<Rightarrow> 'h"
  remove_header :: "string \<Rightarrow> 'ses \<Rightarrow> 'ses"
  enable_retry_buffering :: "'ses \<Rightarrow> 'ses"
  read_request_body :: "'ses \<Rightarrow> ('pe + bytes option) \<times> 'ses"
  retry_buffer_truncated :: "'ses \<Rightarrow> bool"
  get_retry_buffer :: "'ses \<Rightarrow> bytes option"
  cache_enable :: "'ses \<Rightarrow> 'ses"
  cache_disable :: "string \<Rightarrow> 'ses \<Rightarrow> 'ses"
  cache_enabled :: "'ses \<Rightarrow> bool"

abbreviation ses_headers :: "('pe, 'h, 'rh, 'ses) pingora \<Rightarrow> 'ses \<Rightarrow> 'h" where
  "ses_headers PG s \<equiv> rh_headers PG (req_header PG s)"

text \<open>The errors the callbacks return: an HTTP status of their own, an invalid header, or an error of the
  session passed on.\<close>

datatype 'pe proxy_error = HTTPStatus nat | InvalidHTTPHeader | SessionError 'pe

section \<open>The request context\<close>

text \<open>What happened to the span of a request: its start, on the no-op tracer or on the server's in a trace
  context, its attributes, and its end.\<close>

datatype 'tc span_event =
    StartNoop
  | StartServer 'tc
  | TextAttribute string string
  | FlagAttribute string bool
  | AddrAttribute string "u32 \<times> u16"
  | RecordError
  | ErrorStatus string \<comment> \<open>description\<close>
  | End

record 'md GrpcMeta =
  service_data :: "'md ServiceData"
  gm_method_name :: string
  vary_set :: "string set"

definition method_spec :: "'md GrpcMeta \<Rightarrow> 'md MethodSpec option" where
  "method_spec m = Option.bind (service_spec (service_data m)) (\<lambda>s. methods s (gm_method_name m))"

record ('tc, 'md) RequestCtx =
  span :: "'tc span_event list"
  do_cache :: bool
  grpc_meta :: "'md GrpcMeta option"

text \<open>\<open>GrpcProxy\<close>: the routing table, the cache storage, and the tracers for the first span of a request and for
  the one in the caller's trace. The routing table and the storage are arguments of the callbacks below.\<close>

datatype tracer = NoopTracer | GlobalTracer string

record ('cfg, 'cache) GrpcProxy =
  service_config :: 'cfg
  cache :: 'cache
  noop_tracer :: tracer
  tracer :: tracer

definition GrpcProxy_new :: "'cfg \<Rightarrow> 'cache \<Rightarrow> ('cfg, 'cache) GrpcProxy" where
  "GrpcProxy_new cfg storage = \<lparr>service_config = cfg, cache = storage, noop_tracer = NoopTracer,
     tracer = GlobalTracer ''grcache-proxy''\<rparr>"

definition new_ctx :: "('tc, 'md) RequestCtx" where
  "new_ctx = \<lparr>span = [StartNoop], do_cache = False, grpc_meta = None\<rparr>"

definition set_attribute :: "'tc span_event \<Rightarrow> ('tc, 'md) RequestCtx \<Rightarrow> ('tc, 'md) RequestCtx" where
  "set_attribute e ctx = ctx\<lparr>span := span ctx @ [e]\<rparr>"

section \<open>Callbacks\<close>

text \<open>\<open>early_request_filter\<close> replaces the span by one in the caller's trace.\<close>

definition early_request_filter ::
    "('pe, 'h, 'rh, 'ses) pingora \<Rightarrow> ('h, 'tc) propagation \<Rightarrow> otel_global \<Rightarrow> 'ses \<Rightarrow> ('tc, 'md) RequestCtx
      \<Rightarrow> ('tc, 'md) RequestCtx" where
  "early_request_filter PG X g s ctx =
     (let trace_ctx = extract_context_from_headers X g (ses_headers PG s)
      in ctx\<lparr>span := [StartServer trace_ctx]\<rparr>)"

text \<open>The loop that buffers the request body.\<close>

partial_function (option) drain_body ::
    "('pe, 'h, 'rh, 'ses) pingora \<Rightarrow> 'ses \<Rightarrow> (('pe + unit) \<times> 'ses) option" where
  "drain_body PG s =
     (case read_request_body PG s of
        (Inl e, s') \<Rightarrow> Some (Inl e, s')
      | (Inr None, s') \<Rightarrow> Some (Inr (), s')
      | (Inr (Some b), s') \<Rightarrow> drain_body PG s')"

text \<open>The cache specification of the request's method, if it has one with a positive time to live.\<close>

definition cacheable :: "'md GrpcMeta \<Rightarrow> CacheSpec option" where
  "cacheable m =
     (case Option.bind (method_spec m) cache_spec of
        Some c \<Rightarrow> if sint (cache_ttl (descriptor c)) > 0 then Some c else None
      | None \<Rightarrow> None)"

definition request_filter ::
    "('pe, 'h, 'rh, 'ses) pingora \<Rightarrow> 'h header_map \<Rightarrow> (string \<rightharpoonup> 'md ServiceData) \<Rightarrow> 'ses \<Rightarrow> ('tc, 'md) RequestCtx
      \<Rightarrow> (('pe proxy_error + bool) \<times> 'ses \<times> ('tc, 'md) RequestCtx) option" where
  "request_filter PG H services_map s ctx =
     (case parse_grpc_path (rh_raw_path PG (req_header PG s)) of
        Inl cause \<Rightarrow> Some (Inl (HTTPStatus 400), s, ctx)
      | Inr (nm, meth) \<Rightarrow>
          (let ctx = set_attribute (TextAttribute ''grpc_method'' meth)
                       (set_attribute (TextAttribute ''grpc_service'' nm) ctx)
           in case services_map nm of
                None \<Rightarrow> Some (Inl (HTTPStatus 404), s, ctx)
              | Some data \<Rightarrow>
                  if load_balancer data = None then Some (Inl (HTTPStatus 404), s, ctx)
                  else (case make_vary_headers_set H (ses_headers PG s) of
                     Inl e \<Rightarrow> Some (Inl InvalidHTTPHeader, s, ctx)
                   | Inr vs \<Rightarrow>
                       (let m = \<lparr>service_data = data, gm_method_name = meth, vary_set = vs\<rparr>;
                            ctx = ctx\<lparr>grpc_meta := Some m\<rparr>
                        in case cacheable m of
                             None \<Rightarrow> Some (Inr False, s, set_attribute (FlagAttribute ''cache_enabled'' (do_cache ctx)) ctx)
                           | Some c \<Rightarrow>
                               (let ctx = ctx\<lparr>do_cache := True\<rparr> in
                                case drain_body PG (enable_retry_buffering PG s) of
                                  None \<Rightarrow> None
                                | Some (Inl e, s) \<Rightarrow> Some (Inl (SessionError e), s, ctx)
                                | Some (Inr _, s) \<Rightarrow>
                                    if retry_buffer_truncated PG s then Some (Inl (HTTPStatus 413), s, ctx)
                                    else
                                      (let s = fold (remove_header PG) (find_strip_headers H (ses_headers PG s) vs {}) s
                                       in Some (Inr False, s,
                                            set_attribute (FlagAttribute ''cache_enabled'' (do_cache ctx)) ctx)))))))"

definition request_cache_filter ::
    "('pe, 'h, 'rh, 'ses) pingora \<Rightarrow> 'ses \<Rightarrow> ('tc, 'md) RequestCtx \<Rightarrow> 'ses" where
  "request_cache_filter PG s ctx = (if do_cache ctx then cache_enable PG s else s)"

text \<open>\<open>key_default\<close> is \<open>CacheKey::default\<close>; the hash the code computes first is the input of the
  hasher, and the key made from it is dropped.\<close>

definition key_hash_input ::
    "('pe, 'h, 'rh, 'ses) pingora \<Rightarrow> 'h header_map \<Rightarrow> 'ses \<Rightarrow> 'md GrpcMeta \<Rightarrow> bytes \<Rightarrow> bytes" where
  "key_hash_input PG H s m request_body =
     hash_vary H (vary_set m) (ses_headers PG s) @ hash_body (rh_raw_path PG (req_header PG s)) request_body"

definition cache_key_callback ::
    "('pe, 'h, 'rh, 'ses) pingora \<Rightarrow> 'h header_map \<Rightarrow> (bytes \<Rightarrow> 'key) \<Rightarrow> ('rh \<Rightarrow> 'key) \<Rightarrow> 'ses \<Rightarrow> ('tc, 'md) RequestCtx
      \<Rightarrow> 'key outcome" where
  "cache_key_callback PG H key_of_hash key_default s ctx =
     bind_outcome (unwrap (grpc_meta ctx)) (\<lambda>m.
     bind_outcome (unwrap (get_retry_buffer PG s)) (\<lambda>request_body.
       let cache_key = key_of_hash (key_hash_input PG H s m request_body)
       in Returns (key_default (req_header PG s))))"

text \<open>\<open>age\<close> is \<open>meta.age().as_secs()\<close>, compared after a cast to \<open>i64\<close>.\<close>

definition cache_hit_filter :: "u64 \<Rightarrow> ('tc, 'md) RequestCtx \<Rightarrow> bool outcome \<times> ('tc, 'md) RequestCtx" where
  "cache_hit_filter age ctx =
     (case Option.bind (grpc_meta ctx) (\<lambda>m. Option.bind (method_spec m) cache_spec) of
        None \<Rightarrow> (Panic, ctx)
      | Some c \<Rightarrow>
          (Returns (sint age < sint (scast (cache_ttl (descriptor c)) :: 64 word)),
           set_attribute (FlagAttribute ''cache_hit'' True) ctx))"

definition upstream_response_body_filter ::
    "('pe, 'h, 'rh, 'ses) pingora \<Rightarrow> 'ses \<Rightarrow> bool \<Rightarrow> 'ses" where
  "upstream_response_body_filter PG s end_of_stream =
     (if end_of_stream then cache_disable PG ''no trailers in request'' s else s)"

definition upstream_response_trailer_filter ::
    "('pe, 'h, 'rh, 'ses) pingora \<Rightarrow> 'h header_map \<Rightarrow> 'ses \<Rightarrow> 'h \<Rightarrow> 'ses" where
  "upstream_response_trailer_filter PG H s upstream_trailers =
     (case GrpcStatus_parse H upstream_trailers of
        Inl e \<Rightarrow> cache_disable PG ''invalid trailers'' s
      | Inr status \<Rightarrow> if \<not> is_ok status then cache_disable PG ''non-cachable trailers'' s else s)"

text \<open>The arguments of \<open>CacheMeta::new\<close>. \<open>checked_add\<close> is that of \<open>SystemTime\<close>, in seconds; \<open>now1\<close> and
  \<open>now2\<close> are the two readings of the clock.\<close>

record ('time, 'resp) new_meta =
  fresh_until :: 'time
  created :: 'time
  stale_while_revalidate_sec :: u32
  stale_if_error_sec :: u32
  resp_header :: 'resp

definition response_cache_filter ::
    "('time \<Rightarrow> nat \<Rightarrow> 'time option) \<Rightarrow> 'time \<Rightarrow> 'time \<Rightarrow> 'resp \<Rightarrow> ('time, 'resp) new_meta outcome" where
  "response_cache_filter checked_add now1 now2 resp =
     bind_outcome (unwrap (checked_add now1 60)) (\<lambda>fresh.
       Returns \<lparr>fresh_until = fresh, created = now2, stale_while_revalidate_sec = 10,
         stale_if_error_sec = 10, resp_header = resp\<rparr>)"

text \<open>What the callback gives pingora's \<open>HttpPeer\<close>: the arguments of its constructor, and the protocol.\<close>

datatype ALPN = H1 | H2 | H2H1

record HttpPeer =
  peer_addr :: "u32 \<times> u16"
  peer_tls :: bool
  peer_sni :: string
  peer_alpn :: ALPN

text \<open>\<open>select\<close> is the round robin load balancer's selection, with the balancer's next state folded into the
  choice.\<close>

definition upstream_peer ::
    "(nat \<Rightarrow> bytes \<Rightarrow> nat \<Rightarrow> Backend option) \<Rightarrow> ('tc, 'md) RequestCtx
      \<Rightarrow> (('pe proxy_error + HttpPeer) \<times> ('tc, 'md) RequestCtx) outcome" where
  "upstream_peer select ctx =
     bind_outcome (unwrap (grpc_meta ctx)) (\<lambda>m.
     bind_outcome (unwrap (load_balancer (service_data m))) (\<lambda>lb.
       case select lb '''' 256 of
         Some backend \<Rightarrow>
           bind_outcome (unwrap (as_inet backend)) (\<lambda>inet.
             let peer = \<lparr>peer_addr = inet, peer_tls = False, peer_sni = '''', peer_alpn = H2\<rparr>
             in Returns (Inr peer, set_attribute (AddrAttribute ''upstream'' inet) ctx))
       | None \<Rightarrow> Returns (Inl (HTTPStatus 502), ctx)))"

text \<open>A peer that speaks HTTP/2 in clear text.\<close>

abbreviation h2c_peer :: "u32 \<times> u16 \<Rightarrow> HttpPeer" where
  "h2c_peer inet \<equiv> \<lparr>peer_addr = inet, peer_tls = False, peer_sni = '''', peer_alpn = H2\<rparr>"

definition logging :: "bool \<Rightarrow> ('tc, 'md) RequestCtx \<Rightarrow> ('tc, 'md) RequestCtx" where
  "logging failed ctx = ctx\<lparr>span := span ctx @ (if failed then [RecordError, ErrorStatus ''failed while processing request'', End] else [End])\<rparr>"

section \<open>Laws of the session\<close>

text \<open>Buffering and reading the body leave the request header alone; removing a header removes it from the
  header map and leaves the path alone.\<close>

definition session_laws :: "('pe, 'h, 'rh, 'ses) pingora \<Rightarrow> 'h header_map \<Rightarrow> bool" where
  "session_laws PG H \<longleftrightarrow>
     (\<forall>s. req_header PG (enable_retry_buffering PG s) = req_header PG s)
     \<and> (\<forall>s r s'. read_request_body PG s = (r, s') \<longrightarrow> req_header PG s' = req_header PG s)
     \<and> (\<forall>k s. ses_headers PG (remove_header PG k s) = hm_remove H (ses_headers PG s) k
          \<and> rh_raw_path PG (req_header PG (remove_header PG k s)) = rh_raw_path PG (req_header PG s))"

text \<open>A request body that ends: a measure that every chunk read decreases.\<close>

definition body_ends :: "('pe, 'h, 'rh, 'ses) pingora \<Rightarrow> ('ses \<Rightarrow> nat) \<Rightarrow> bool" where
  "body_ends PG rem \<longleftrightarrow> (\<forall>s b s'. read_request_body PG s = (Inr (Some b), s') \<longrightarrow> rem s' < rem s)"

lemma drain_body_total:
  assumes "body_ends PG rem"
  shows "\<exists>r s'. drain_body PG s = Some (r, s')"
proof (induction s rule: measure_induct_rule [of rem])
  case (less s)
  obtain x s1 where x: "read_request_body PG s = (x, s1)" by force
  show ?case
  proof (cases "\<exists>b. x = Inr (Some b)")
    case True
    then have "rem s1 < rem s" using assms x unfolding body_ends_def by blast
    from less [OF this] True x show ?thesis by (subst drain_body.simps) auto
  next
    case False
    then consider e where "x = Inl e" | "x = Inr None" by (metis not_None_eq old.sum.exhaust)
    then show ?thesis by cases (subst drain_body.simps, simp add: x)+
  qed
qed

text \<open>What every read leaves alone, reading the whole body leaves alone.\<close>

lemma drain_body_frame:
  fixes PG :: "('a, 'b, 'c, 'd) pingora"
  assumes "drain_body PG s = Some (r, s')"
    and frame: "\<And>s r s'. read_request_body PG s = (r, s') \<Longrightarrow> f s' = f s"
  shows "f s' = f s"
proof -
  have "PG = PG \<longrightarrow> f (snd (r, s')) = f s"
  proof (rule drain_body.raw_induct [where P = "\<lambda>PG' s1 y. PG' = PG \<longrightarrow> f (snd y) = f s1", OF _ assms(1)],
      intro impI)
    fix g :: "('a, 'b, 'c, 'd) pingora \<Rightarrow> 'd \<Rightarrow> (('a + unit) \<times> 'd) option" and PG' s1 y
    assume IH: "\<And>PG' s1 y. g PG' s1 = Some y \<Longrightarrow> PG' = PG \<longrightarrow> f (snd y) = f s1"
      and y: "(case read_request_body PG' s1 of (Inl e, s') \<Rightarrow> Some (Inl e, s')
        | (Inr None, s') \<Rightarrow> Some (Inr (), s') | (Inr (Some b), s') \<Rightarrow> g PG' s') = Some y" and "PG' = PG"
    obtain x s2 where x: "read_request_body PG s1 = (x, s2)" by force
    have "f s2 = f s1" using x by (rule frame)
    moreover have "f (snd y) = f s2"
      using y IH [of PG s2 y] x \<open>PG' = PG\<close> by (auto split: sum.splits option.splits)
    ultimately show "f (snd y) = f s1" by simp
  qed
  then show ?thesis by simp
qed

lemma drain_body_header:
  assumes "session_laws PG H" and "drain_body PG s = Some (r, s')"
  shows "req_header PG s' = req_header PG s"
  using assms(2) by (rule drain_body_frame) (use assms(1) in \<open>simp add: session_laws_def\<close>)

lemma remove_headers:
  assumes "session_laws PG H"
  shows "ses_headers PG (fold (remove_header PG) ks s) = fold (\<lambda>k h. hm_remove H h k) ks (ses_headers PG s)"
    and "rh_raw_path PG (req_header PG (fold (remove_header PG) ks s)) = rh_raw_path PG (req_header PG s)"
  using assms by (induction ks arbitrary: s) (simp_all add: session_laws_def)

section \<open>The cases of a request\<close>

lemma set_attribute_frame [simp]:
  "do_cache (set_attribute e ctx) = do_cache ctx" "grpc_meta (set_attribute e ctx) = grpc_meta ctx"
  by (simp_all add: set_attribute_def)

text \<open>The part of \<open>request_filter\<close> after the service was found.\<close>

definition found_service ::
    "('pe, 'h, 'rh, 'ses) pingora \<Rightarrow> 'h header_map \<Rightarrow> 'md GrpcMeta \<Rightarrow> 'ses \<Rightarrow> ('tc, 'md) RequestCtx
      \<Rightarrow> (('pe proxy_error + bool) \<times> 'ses \<times> ('tc, 'md) RequestCtx) option" where
  "found_service PG H m s ctx =
     (case cacheable m of
        None \<Rightarrow> Some (Inr False, s, set_attribute (FlagAttribute ''cache_enabled'' (do_cache ctx)) ctx)
      | Some c \<Rightarrow>
          (case drain_body PG (enable_retry_buffering PG s) of
             None \<Rightarrow> None
           | Some (Inl e, s) \<Rightarrow> Some (Inl (SessionError e), s, ctx\<lparr>do_cache := True\<rparr>)
           | Some (Inr _, s) \<Rightarrow>
               if retry_buffer_truncated PG s then Some (Inl (HTTPStatus 413), s, ctx\<lparr>do_cache := True\<rparr>)
               else Some (Inr False, fold (remove_header PG) (find_strip_headers H (ses_headers PG s) (vary_set m) {}) s,
                 set_attribute (FlagAttribute ''cache_enabled'' True) (ctx\<lparr>do_cache := True\<rparr>))))"

lemma vary_set_returns: "\<exists>vs. make_vary_headers_set H h = Inr vs"
  by (simp add: make_vary_headers_set_def)

lemma request_filter_cases:
  obtains (bad_path) e where "parse_grpc_path (rh_raw_path PG (req_header PG s)) = Inl e"
      "request_filter PG H sv s ctx = Some (Inl (HTTPStatus 400), s, ctx)"
  | (unknown) nm meth ctx1 where "parse_grpc_path (rh_raw_path PG (req_header PG s)) = Inr (nm, meth)"
      "sv nm = None \<or> (\<exists>data. sv nm = Some data \<and> load_balancer data = None)"
      "request_filter PG H sv s ctx = Some (Inl (HTTPStatus 404), s, ctx1)" "do_cache ctx1 = do_cache ctx"
  | (found) nm meth data vs ctx1 where "parse_grpc_path (rh_raw_path PG (req_header PG s)) = Inr (nm, meth)"
      "sv nm = Some data" "load_balancer data \<noteq> None" "make_vary_headers_set H (ses_headers PG s) = Inr vs"
      "request_filter PG H sv s ctx =
         found_service PG H \<lparr>service_data = data, gm_method_name = meth, vary_set = vs\<rparr> s ctx1"
      "do_cache ctx1 = do_cache ctx"
      "grpc_meta ctx1 = Some \<lparr>service_data = data, gm_method_name = meth, vary_set = vs\<rparr>"
proof (cases "parse_grpc_path (rh_raw_path PG (req_header PG s))")
  case (Inl e)
  then show ?thesis by (intro bad_path) (simp_all add: request_filter_def)
next
  case (Inr p)
  obtain nm meth where p: "p = (nm, meth)" by force
  let ?ctx = "set_attribute (TextAttribute ''grpc_method'' meth) (set_attribute (TextAttribute ''grpc_service'' nm) ctx)"
  show ?thesis
  proof (cases "\<exists>data. sv nm = Some data \<and> load_balancer data \<noteq> None")
    case False
    then have no: "sv nm = None \<or> (\<exists>data. sv nm = Some data \<and> load_balancer data = None)" by (cases "sv nm") auto
    with Inr p show ?thesis
      by (intro unknown [of nm meth ?ctx]) (auto simp: request_filter_def Let_def)
  next
    case True
    then obtain data where d: "sv nm = Some data" "load_balancer data \<noteq> None" by blast
    obtain vs where vs: "make_vary_headers_set H (ses_headers PG s) = Inr vs" using vary_set_returns by metis
    let ?m = "\<lparr>service_data = data, gm_method_name = meth, vary_set = vs\<rparr>"
    have "request_filter PG H sv s ctx = found_service PG H ?m s (?ctx\<lparr>grpc_meta := Some ?m\<rparr>)"
    proof (cases "cacheable ?m")
      case None
      then show ?thesis using Inr p d vs by (simp add: request_filter_def found_service_def Let_def)
    next
      case (Some c)
      then show ?thesis
        using Inr p d vs
        by (cases "drain_body PG (enable_retry_buffering PG s)")
          (auto simp: request_filter_def found_service_def Let_def split: sum.split)
    qed
    with Inr p d vs show ?thesis by (intro found [of nm meth data vs "?ctx\<lparr>grpc_meta := Some ?m\<rparr>"]) simp_all
  qed
qed

lemma found_service_results:
  assumes "found_service PG H m s ctx = Some (r, s', ctx')"
  shows "(r = Inr False \<or> r = Inl (HTTPStatus 413) \<or> (\<exists>e. r = Inl (SessionError e)))
    \<and> grpc_meta ctx' = grpc_meta ctx \<and> (do_cache ctx' \<longrightarrow> do_cache ctx \<or> cacheable m \<noteq> None)"
  using assms by (auto simp: found_service_def split: option.splits prod.splits sum.splits if_splits)

lemma found_service_accepts:
  assumes "found_service PG H m s ctx = Some (Inr b, s', ctx')"
  shows "\<not> b \<and> grpc_meta ctx' = grpc_meta ctx
    \<and> (cacheable m = None \<and> s' = s \<and> do_cache ctx' = do_cache ctx
       \<or> (\<exists>c s1. cacheable m = Some c \<and> do_cache ctx'
            \<and> drain_body PG (enable_retry_buffering PG s) = Some (Inr (), s1) \<and> \<not> retry_buffer_truncated PG s1
            \<and> s' = fold (remove_header PG) (find_strip_headers H (ses_headers PG s1) (vary_set m) {}) s1))"
proof (cases "cacheable m")
  case None
  with assms show ?thesis by (auto simp: found_service_def)
next
  case (Some c)
  then obtain r s1 where d: "drain_body PG (enable_retry_buffering PG s) = Some (r, s1)"
    using assms by (auto simp: found_service_def split: option.splits)
  with assms Some show ?thesis
    by (cases r) (auto simp: found_service_def split: if_splits)
qed

lemma cacheable_Some:
  "cacheable m = Some c \<longleftrightarrow>
     (\<exists>sp ms. service_spec (service_data m) = Some sp \<and> methods sp (gm_method_name m) = Some ms
        \<and> cache_spec ms = Some c \<and> 0 < sint (cache_ttl (descriptor c)))"
  by (auto simp: cacheable_def method_spec_def bind_eq_Some_conv split: option.splits if_splits)

lemma accepted_cases:
  assumes "request_filter PG H sv s ctx = Some (Inr b, s', ctx')"
  obtains nm meth data vs where "parse_grpc_path (rh_raw_path PG (req_header PG s)) = Inr (nm, meth)"
    "sv nm = Some data" "load_balancer data \<noteq> None" "make_vary_headers_set H (ses_headers PG s) = Inr vs" "\<not> b"
    "grpc_meta ctx' = Some \<lparr>service_data = data, gm_method_name = meth, vary_set = vs\<rparr>"
    "cacheable \<lparr>service_data = data, gm_method_name = meth, vary_set = vs\<rparr> = None \<and> s' = s \<and> do_cache ctx' = do_cache ctx
       \<or> (\<exists>c s1. cacheable \<lparr>service_data = data, gm_method_name = meth, vary_set = vs\<rparr> = Some c \<and> do_cache ctx'
            \<and> drain_body PG (enable_retry_buffering PG s) = Some (Inr (), s1) \<and> \<not> retry_buffer_truncated PG s1
            \<and> s' = fold (remove_header PG) (find_strip_headers H (ses_headers PG s1) vs {}) s1)"
proof (cases rule: request_filter_cases [of PG s H sv ctx])
  case (found nm meth data vs ctx1)
  let ?m = "\<lparr>service_data = data, gm_method_name = meth, vary_set = vs\<rparr>"
  have "found_service PG H ?m s ctx1 = Some (Inr b, s', ctx')" using found(5) assms by simp
  from found_service_accepts [OF this] found show ?thesis
    by (intro that [of nm meth data vs]) simp_all
qed (use assms in simp_all)

lemma request_filter_total:
  assumes "body_ends PG rem"
  shows "\<exists>r s' ctx'. request_filter PG H sv s ctx = Some (r, s', ctx')"
proof (cases rule: request_filter_cases [of PG s H sv ctx])
  case (found nm meth data vs ctx1)
  obtain r s1 where d: "drain_body PG (enable_retry_buffering PG s) = Some (r, s1)"
    using drain_body_total [OF assms] by blast
  show ?thesis
    unfolding found(5)
    by (cases "cacheable \<lparr>service_data = data, gm_method_name = meth, vary_set = vs\<rparr>"; cases r)
      (simp_all add: found_service_def d)
qed auto

section \<open>Properties\<close>

subsection \<open>A concrete request\<close>

record demo_session =
  ds_path :: bytes
  ds_headers :: "(string \<times> bytes) list"
  ds_chunks :: "bytes list"
  ds_buffer :: "bytes option"
  ds_cached :: bool

definition demo_pingora :: "(unit, (string \<times> bytes) list, bytes \<times> (string \<times> bytes) list, demo_session) pingora" where
  "demo_pingora = \<lparr>req_header = (\<lambda>s. (ds_path s, ds_headers s)), rh_raw_path = fst, rh_headers = snd,
     remove_header = (\<lambda>k s. s\<lparr>ds_headers := filter (\<lambda>e. fst e \<noteq> k) (ds_headers s)\<rparr>),
     enable_retry_buffering = (\<lambda>s. s\<lparr>ds_buffer := Some []\<rparr>),
     read_request_body = (\<lambda>s. case ds_chunks s of [] \<Rightarrow> (Inr None, s)
       | c # cs \<Rightarrow> (Inr (Some c), s\<lparr>ds_chunks := cs, ds_buffer := map_option (\<lambda>b. b @ c) (ds_buffer s)\<rparr>)),
     retry_buffer_truncated = (\<lambda>s. 65536 < (case ds_buffer s of Some b \<Rightarrow> length b | None \<Rightarrow> 0)),
     get_retry_buffer = (\<lambda>s. case ds_buffer s of Some [] \<Rightarrow> None | b \<Rightarrow> b),
     cache_enable = (\<lambda>s. s\<lparr>ds_cached := True\<rparr>), cache_disable = (\<lambda>_ s. s\<lparr>ds_cached := False\<rparr>),
     cache_enabled = ds_cached\<rparr>"

lemma demo_session_laws: "session_laws demo_pingora demo_headers"
  by (auto simp: session_laws_def demo_pingora_def demo_headers_def split: list.splits)

lemma demo_body_ends: "body_ends demo_pingora (\<lambda>s. length (ds_chunks s))"
  by (auto simp: body_ends_def demo_pingora_def split: list.splits)

definition demo_request :: demo_session where
  "demo_request = \<lparr>ds_path = ''/example.TestService/GetData'',
     ds_headers = [(''te'', ''trailers''), (''authorization'', ''x'')], ds_chunks = [''ab'', ''c''],
     ds_buffer = None, ds_cached = False\<rparr>"

definition demo_data :: "(string \<times> i32 option) ServiceData" where
  "demo_data = \<lparr>generation = 0, service_spec = Some \<lparr>service = demo_service, passthrough = False,
     methods = [''GetData'' \<mapsto> \<lparr>method_name = ''GetData'', method_descriptor = (''GetData'', Some 3600),
       cache_spec = Some \<lparr>hash_on = [], descriptor = \<lparr>cache_ttl = 3600\<rparr>\<rparr>\<rparr>]\<rparr>, load_balancer = Some 0\<rparr>"

abbreviation demo_table :: "string \<rightharpoonup> (string \<times> i32 option) ServiceData" where
  "demo_table \<equiv> [''example.TestService'' \<mapsto> demo_data]"

abbreviation demo_filter :: "((unit proxy_error + bool) \<times> demo_session \<times> (unit, string \<times> i32 option) RequestCtx) option" where
  "demo_filter \<equiv> request_filter demo_pingora demo_headers demo_table demo_request new_ctx"

lemma demo_path: "parse_grpc_path ''/example.TestService/GetData'' = Inr (''example.TestService'', ''GetData'')"
  unfolding parse_grpc_path_Inr by (auto intro!: ascii_is_utf8)

lemma demo_drain_chunks:
  "drain_body demo_pingora (s\<lparr>ds_chunks := cs, ds_buffer := Some b\<rparr>) =
     Some (Inr (), s\<lparr>ds_chunks := [], ds_buffer := Some (b @ concat cs)\<rparr>)"
  by (induction cs arbitrary: b) (subst drain_body.simps, simp add: demo_pingora_def)+

lemma demo_drain:
  "drain_body demo_pingora (enable_retry_buffering demo_pingora (demo_request\<lparr>ds_chunks := cs\<rparr>)) =
     Some (Inr (), demo_request\<lparr>ds_chunks := [], ds_buffer := Some (concat cs)\<rparr>)"
  using demo_drain_chunks [of "[]" cs demo_request] by (simp add: demo_pingora_def)

lemma demo_accepts_chunks:
  assumes "length (concat cs) \<le> 65536"
  shows "\<exists>ctx'. request_filter demo_pingora demo_headers demo_table (demo_request\<lparr>ds_chunks := cs\<rparr>) ctx =
     Some (Inr False, demo_request\<lparr>ds_headers := [(''te'', ''trailers'')], ds_chunks := [], ds_buffer := Some (concat cs)\<rparr>, ctx')
     \<and> do_cache ctx'"
proof -
  let ?r = "demo_request\<lparr>ds_chunks := cs\<rparr>" and ?d = "demo_request\<lparr>ds_chunks := [], ds_buffer := Some (concat cs)\<rparr>"
  let ?m = "\<lparr>service_data = demo_data, gm_method_name = ''GetData'', vary_set = {}\<rparr>"
  have v: "make_vary_headers_set demo_headers (ses_headers demo_pingora ?r) = Inr {}"
    by (simp add: make_vary_headers_set_def demo_headers_def demo_pingora_def demo_request_def)
  have c: "cacheable ?m = Some \<lparr>hash_on = [], descriptor = \<lparr>cache_ttl = 3600\<rparr>\<rparr>"
    by (simp add: cacheable_def method_spec_def demo_data_def)
  have p: "parse_grpc_path (rh_raw_path demo_pingora (req_header demo_pingora ?r))
      = Inr (''example.TestService'', ''GetData'')"
    using demo_path by (simp add: demo_pingora_def demo_request_def)
  have t: "\<not> retry_buffer_truncated demo_pingora ?d" using assms by (simp add: demo_pingora_def)
  have f: "fold (remove_header demo_pingora) (find_strip_headers demo_headers (ses_headers demo_pingora ?d) {} {}) ?d
    = ?d\<lparr>ds_headers := [(''te'', ''trailers'')]\<rparr>"
    by (simp add: find_strip_headers_def CORE_HEADERS_def demo_headers_def demo_pingora_def demo_request_def)
  have lb: "load_balancer demo_data \<noteq> None" by (simp add: demo_data_def)
  show ?thesis
    by (cases rule: request_filter_cases [of demo_pingora ?r demo_headers demo_table ctx])
      (use p lb v c t f demo_drain [of cs] in \<open>auto simp: found_service_def\<close>)
qed

lemma demo_accepts:
  "\<exists>ctx'. request_filter demo_pingora demo_headers demo_table demo_request ctx =
     Some (Inr False, demo_request\<lparr>ds_headers := [(''te'', ''trailers'')], ds_chunks := [], ds_buffer := Some ''abc''\<rparr>, ctx')
     \<and> do_cache ctx'"
  using demo_accepts_chunks [of "[''ab'', ''c'']" ctx] by (simp add: demo_request_def)

lemma demo_accepted:
  "\<exists>ctx. demo_filter = Some (Inr False, demo_request\<lparr>ds_headers := [(''te'', ''trailers'')], ds_chunks := [],
     ds_buffer := Some ''abc''\<rparr>, ctx) \<and> do_cache ctx"
  by (rule demo_accepts)

text \<open>C19. Which requests are refused: status 400 exactly for paths that are not of the form
  \<open>/service/method\<close>, 404 exactly for well-formed paths to a service without an entry or without a load
  balancer, 413 exactly for cacheable requests whose body does not fit the buffer; an invalid header is
  never reported.\<close>

theorem refused_requests:
  "((\<exists>s' ctx'. request_filter PG H sv s ctx = Some (Inl (HTTPStatus 400), s', ctx')) \<longleftrightarrow>
      (\<exists>e. parse_grpc_path (rh_raw_path PG (req_header PG s)) = Inl e))
   \<and> ((\<exists>s' ctx'. request_filter PG H sv s ctx = Some (Inl (HTTPStatus 404), s', ctx')) \<longleftrightarrow>
      (\<exists>nm meth. parse_grpc_path (rh_raw_path PG (req_header PG s)) = Inr (nm, meth)
         \<and> Option.bind (sv nm) load_balancer = None))
   \<and> ((\<exists>s' ctx'. request_filter PG H sv s ctx = Some (Inl (HTTPStatus 413), s', ctx')) \<longleftrightarrow>
      (\<exists>nm meth data vs c s1. parse_grpc_path (rh_raw_path PG (req_header PG s)) = Inr (nm, meth)
         \<and> sv nm = Some data \<and> load_balancer data \<noteq> None \<and> make_vary_headers_set H (ses_headers PG s) = Inr vs
         \<and> cacheable \<lparr>service_data = data, gm_method_name = meth, vary_set = vs\<rparr> = Some c
         \<and> drain_body PG (enable_retry_buffering PG s) = Some (Inr (), s1) \<and> retry_buffer_truncated PG s1))
   \<and> (\<nexists>s' ctx'. request_filter PG H sv s ctx = Some (Inl InvalidHTTPHeader, s', ctx'))"
proof (cases rule: request_filter_cases [of PG s H sv ctx])
  case (found nm meth data vs ctx1)
  let ?m = "\<lparr>service_data = data, gm_method_name = meth, vary_set = vs\<rparr>"
  show ?thesis
  proof (cases "cacheable ?m")
    case None
    with found show ?thesis by (auto simp: found_service_def)
  next
    case (Some c)
    show ?thesis
    proof (cases "drain_body PG (enable_retry_buffering PG s)")
      case None
      with found Some show ?thesis by (auto simp: found_service_def)
    next
      case d: (Some rs)
      then show ?thesis
        using found Some by (cases rs; cases "fst rs") (auto simp: found_service_def split: if_splits)
    qed
  qed
qed auto

text \<open>C15. The caching decision: an accepted request is routed by the entry of the service in its path, is never
  answered by the filter itself, and is cached exactly when the specification of that service has the
  method with a positive time to live.\<close>

theorem accepted_request_decision:
  assumes "request_filter PG H sv s new_ctx = Some (Inr b, s', ctx)"
  shows "\<not> b \<and> (\<exists>nm meth data m. rh_raw_path PG (req_header PG s) = ''/'' @ nm @ ''/'' @ meth
    \<and> sv nm = Some data \<and> load_balancer data \<noteq> None
    \<and> grpc_meta ctx = Some m \<and> service_data m = data \<and> gm_method_name m = meth
    \<and> (do_cache ctx \<longleftrightarrow> (\<exists>sp ms c. service_spec data = Some sp \<and> methods sp meth = Some ms
         \<and> cache_spec ms = Some c \<and> 0 < sint (cache_ttl (descriptor c)))))"
  using assms
proof (cases rule: accepted_cases)
  case (1 nm meth data vs)
  let ?m = "\<lparr>service_data = data, gm_method_name = meth, vary_set = vs\<rparr>"
  have "do_cache ctx \<longleftrightarrow> (\<exists>c. cacheable ?m = Some c)" using 1(7) by (auto simp: new_ctx_def)
  moreover have "rh_raw_path PG (req_header PG s) = ''/'' @ nm @ ''/'' @ meth"
    using 1(1) by (simp add: parse_grpc_path_Inr)
  ultimately show ?thesis
    using 1(2-6) unfolding cacheable_Some by auto
qed

theorem accepted_request_decision_witness:
  "\<exists>s' ctx. demo_filter = Some (Inr False, s', ctx) \<and> do_cache ctx
     \<and> (\<exists>m. grpc_meta ctx = Some m \<and> gm_method_name m = ''GetData'' \<and> service_data m = demo_data)"
proof -
  obtain s' ctx where a: "demo_filter = Some (Inr False, s', ctx)" "do_cache ctx" using demo_accepted by blast
  obtain nm meth data m where
    p: "rh_raw_path demo_pingora (req_header demo_pingora demo_request) = ''/'' @ nm @ ''/'' @ meth"
    and m: "demo_table nm = Some data" "grpc_meta ctx = Some m" "service_data m = data" "gm_method_name m = meth"
    and c: "do_cache ctx \<longleftrightarrow> (\<exists>sp ms c. service_spec data = Some sp \<and> methods sp meth = Some ms
         \<and> cache_spec ms = Some c \<and> 0 < sint (cache_ttl (descriptor c)))"
    using accepted_request_decision [OF a(1)] by blast
  have d: "data = demo_data" using m(1) by (simp split: if_splits)
  then have "meth = ''GetData''" using c a(2) by (auto simp: demo_data_def split: if_splits)
  with a m d show ?thesis by blast
qed

text \<open>C16. No header of a cached request reaches the upstream unless it is a core header or named by the
  request's \<open>vary\<close> headers; requests that are not cached keep all their headers.\<close>

theorem cached_request_headers:
  assumes "header_laws H" and "session_laws PG H"
    and "request_filter PG H sv s new_ctx = Some (Inr b, s', ctx)"
  shows "rh_raw_path PG (req_header PG s') = rh_raw_path PG (req_header PG s)
    \<and> (if do_cache ctx then
         (\<exists>vs. make_vary_headers_set H (ses_headers PG s) = Inr vs
            \<and> set (hm_keys H (ses_headers PG s')) = set (hm_keys H (ses_headers PG s)) \<inter> (CORE_HEADERS \<union> vs))
       else s' = s)"
  using assms(3)
proof (cases rule: accepted_cases)
  case (1 nm meth data vs)
  from 1(7) show ?thesis
  proof (elim disjE exE conjE)
    fix c s1
    assume d: "drain_body PG (enable_retry_buffering PG s) = Some (Inr (), s1)" and c: "do_cache ctx"
      and s': "s' = fold (remove_header PG) (find_strip_headers H (ses_headers PG s1) vs {}) s1"
    have h: "req_header PG s1 = req_header PG s"
      using drain_body_header [OF assms(2) d] assms(2) by (simp add: session_laws_def)
    have "set (hm_keys H (ses_headers PG s')) = set (hm_keys H (ses_headers PG s)) \<inter> (CORE_HEADERS \<union> vs)"
      unfolding s' remove_headers(1) [OF assms(2)] using strip_keys [OF assms(1)] by (simp add: h)
    with c 1(4) show ?thesis unfolding s' remove_headers(2) [OF assms(2)] by (simp add: h)
  qed (simp add: new_ctx_def)
qed

theorem cached_request_headers_witness:
  "\<exists>s' ctx. demo_filter = Some (Inr False, s', ctx)
     \<and> set (hm_keys demo_headers (ses_headers demo_pingora s')) = {''te''}"
proof -
  obtain s' ctx where a: "demo_filter = Some (Inr False, s', ctx)" "do_cache ctx" using demo_accepted by blast
  have "make_vary_headers_set demo_headers (ses_headers demo_pingora demo_request) = Inr {}"
    by (simp add: make_vary_headers_set_def demo_headers_def demo_pingora_def demo_request_def)
  then have "set (hm_keys demo_headers (ses_headers demo_pingora s'))
      = set (hm_keys demo_headers (ses_headers demo_pingora demo_request)) \<inter> CORE_HEADERS"
    using cached_request_headers [OF demo_header_laws demo_session_laws a(1)] a(2) by auto
  also have "\<dots> = {''te''}" by (auto simp: demo_headers_def demo_pingora_def demo_request_def CORE_HEADERS_def)
  finally show ?thesis using a(1) by blast
qed

text \<open>An accepted request gets an upstream or status 502: the callback that chooses the peer does not panic,
  it returns 502 exactly when the load balancer of the request's service has no backend to offer, and the
  address of the backend otherwise.\<close>

theorem accepted_request_peer:
  assumes "request_filter PG H sv s new_ctx = Some (Inr b, s', ctx)"
    and "\<forall>lb key n backend. select lb key n = Some backend \<longrightarrow> as_inet backend \<noteq> None"
  shows "\<exists>m lb. grpc_meta ctx = Some m \<and> load_balancer (service_data m) = Some lb
    \<and> (case select lb '''' 256 of
         None \<Rightarrow> upstream_peer select ctx = Returns (Inl (HTTPStatus 502), ctx)
       | Some backend \<Rightarrow> \<exists>inet ctx'. as_inet backend = Some inet \<and> upstream_peer select ctx = Returns (Inr (h2c_peer inet), ctx'))"
  using assms(1)
proof (cases rule: accepted_cases)
  case (1 nm meth data vs)
  obtain lb where lb: "load_balancer data = Some lb" using 1(3) by auto
  show ?thesis
  proof (cases "select lb '''' 256")
    case None
    then show ?thesis using 1(6) lb by (simp add: upstream_peer_def)
  next
    case (Some backend)
    then obtain inet where "as_inet backend = Some inet" using assms(2) by (metis not_None_eq)
    then show ?thesis using 1(6) lb Some by (simp add: upstream_peer_def)
  qed
qed

theorem accepted_request_peer_witness:
  "\<exists>s' ctx ctx'. demo_filter = Some (Inr False, s', ctx)
     \<and> upstream_peer (\<lambda>lb _ _. Some (Backend (Inet 42 50051) 1)) ctx = Returns (Inr (h2c_peer (42, 50051)) :: unit proxy_error + _, ctx')"
proof -
  obtain s' ctx where a: "demo_filter = Some (Inr False, s', ctx)" using demo_accepted by blast
  have "\<exists>ctx'. upstream_peer (\<lambda>lb _ _. Some (Backend (Inet 42 50051) 1)) ctx
      = Returns (Inr (h2c_peer (42, 50051)) :: unit proxy_error + _, ctx')"
    using accepted_request_peer [OF a, of "\<lambda>lb _ _. Some (Backend (Inet 42 50051) 1)"] by auto
  with a show ?thesis by blast
qed

text \<open>C18. The hit filter tells entries by their age: for every cached request and every age that fits the
  signed comparison, the callback does not panic and returns true exactly when the age of the cache entry
  in seconds is below the \<open>cache_ttl\<close> of the method's options.\<close>

theorem hit_filter_freshness:
  assumes "request_filter PG H sv s new_ctx = Some (Inr b, s', ctx)" and "do_cache ctx" and "unat age < 2 ^ 63"
  shows "\<exists>nm meth data sp ms c. rh_raw_path PG (req_header PG s) = ''/'' @ nm @ ''/'' @ meth
    \<and> sv nm = Some data \<and> service_spec data = Some sp \<and> methods sp meth = Some ms \<and> cache_spec ms = Some c
    \<and> fst (cache_hit_filter age ctx) = Returns (int (unat age) < sint (cache_ttl (descriptor c)))"
  using assms(1)
proof (cases rule: accepted_cases)
  case (1 nm meth data vs)
  let ?m = "\<lparr>service_data = data, gm_method_name = meth, vary_set = vs\<rparr>"
  from 1(7) assms(2) obtain c where "cacheable ?m = Some c" by (auto simp: new_ctx_def)
  then obtain sp ms where c: "service_spec data = Some sp" "methods sp meth = Some ms" "cache_spec ms = Some c"
    by (auto simp: cacheable_Some)
  have "sint age = int (unat age)" using assms(3) by (rule sint_unat_u64)
  then have "fst (cache_hit_filter age ctx) = Returns (int (unat age) < sint (cache_ttl (descriptor c)))"
    using 1(6) c by (simp add: cache_hit_filter_def method_spec_def sint_scast_i32)
  moreover have "rh_raw_path PG (req_header PG s) = ''/'' @ nm @ ''/'' @ meth"
    using 1(1) by (simp add: parse_grpc_path_Inr)
  ultimately show ?thesis using 1(2) c by blast
qed

theorem hit_filter_freshness_witness:
  "\<exists>s' ctx. demo_filter = Some (Inr False, s', ctx)
     \<and> fst (cache_hit_filter 3599 ctx) = Returns True \<and> fst (cache_hit_filter 3600 ctx) = Returns False"
proof -
  obtain s' ctx where a: "demo_filter = Some (Inr False, s', ctx)" "do_cache ctx" using demo_accepted by blast
  have "fst (cache_hit_filter age ctx) = Returns (int (unat age) < 3600)" if small: "unat age < 2 ^ 63" for age
  proof -
    obtain nm meth data sp ms c where n: "demo_table nm = Some data"
      "service_spec data = Some sp" "methods sp meth = Some ms" "cache_spec ms = Some c"
      and f: "fst (cache_hit_filter age ctx) = Returns (int (unat age) < sint (cache_ttl (descriptor c)))"
      using hit_filter_freshness [OF a small] by blast
    have "sint (cache_ttl (descriptor c)) = 3600" using n by (auto simp: demo_data_def split: if_splits)
    with f show ?thesis by (simp only:)
  qed
  from this [of 3599] this [of 3600] a(1) show ?thesis by auto
qed

text \<open>Only successful responses stay in the cache: the trailer callback leaves the session alone exactly for
  a zero gRPC status, and otherwise disables caching; so does the body callback when a response ends
  without trailers.\<close>

theorem only_ok_responses_cached:
  "(if \<exists>n > 0. hm_get H t ''grpc-status'' = Some (replicate n CHR ''0'')
        \<or> hm_get H t ''grpc-status'' = Some (CHR ''+'' # replicate n CHR ''0'')
    then upstream_response_trailer_filter PG H s t = s
    else \<exists>reason. upstream_response_trailer_filter PG H s t = cache_disable PG reason s)
   \<and> upstream_response_body_filter PG s True = cache_disable PG ''no trailers in request'' s
   \<and> upstream_response_body_filter PG s False = s"
  unfolding status_ok [symmetric]
  by (auto simp: upstream_response_trailer_filter_def upstream_response_body_filter_def split: sum.splits)

definition demo_ctx :: "(unit, string \<times> i32 option) RequestCtx" where
  "demo_ctx = new_ctx\<lparr>grpc_meta := Some \<lparr>service_data = demo_data, gm_method_name = ''GetData'', vary_set = {}\<rparr>\<rparr>"

section \<open>The sketch of the request logic\<close>

text \<open>\<open>proxy/logic.rs\<close>, which is not compiled yet: the states, and the only operation, which parses the path and
  is \<open>todo!()\<close> after that.\<close>

datatype CacheState = CacheState

datatype ProxyLogicState = InitState | DoCache CacheState | Bypass

definition ProxyLogicState_init :: ProxyLogicState where
  "ProxyLogicState_init = InitState"

definition process_req_headers ::
    "('pe, 'h, 'rh, 'ses) pingora \<Rightarrow> ProxyLogicState \<Rightarrow> 'rh \<Rightarrow> ('pe proxy_error + ProxyLogicState) outcome" where
  "process_req_headers PG st header =
     (case parse_grpc_path (rh_raw_path PG header) of
        Inl cause \<Rightarrow> Returns (Inl (HTTPStatus 400))
      | Inr (nm, meth) \<Rightarrow> Panic)"

end
