(* ===== verification/Request_Lifecycle.thy ===== *)
theory Request_Lifecycle
  imports Proxy Redis_Replicas
begin

text \<open>
  The callbacks of \<open>grcache-proxy/src/proxy/mod.rs\<close> in the orders in which pingora may call them: a step relation on
  the phase, the session and the context of one request. It is the environment in which the callbacks run, and
  allows more than pingora does: the order is the one noted in the comment above the callbacks, and what pingora and
  the outside world decide (the answers of the cache storage and of the upstream, where in the HTTP/2 stream a
  response ends, whether a stale entry is revalidated or used, connection failures and retries, the load
  balancer's choice, the routing table at the time of the request) is left open. The lemmas show which callback
  can panic, which responses are left to the cache, and how the span of a request is built.
\<close>

section \<open>Phases\<close>

text \<open>The frame that ends the stream of a response: its header, a chunk of its body, or its trailers.\<close>

datatype 'h ending = HeaderEnd | BodyEnd | TrailersEnd 'h

datatype 'h phase =
    Arrived
  | Traced
  | Filtered
  | Keying
  | Lookup
  | Connecting
  | Connected
  | Receiving
  | Answered
  | HitServed \<comment> \<open>from the cache, with what \<open>read_body\<close> returns\<close>
  | Served "'h ending"
  | Failed
  | Logged "'h phase"
  | Panicked

text \<open>What pingora's session keeps of a request for its cache: the key; the metadata made of the upstream's
  response header and the chunks of its body, which go to the miss handler; and the entry that was found, from
  which the request is answered or which is kept for later.\<close>

record ('key, 'meta) exchange =
  x_key :: "'key option"
  x_meta :: "'meta option"
  x_chunks :: "(bytes \<times> bool) list"
  x_hit :: "('meta \<times> RedisCacheHit) option"

definition no_exchange :: "('key, 'meta) exchange" where
  "no_exchange = \<lparr>x_key = None, x_meta = None, x_chunks = [], x_hit = None\<rparr>"

definition received :: "bytes option \<Rightarrow> bool \<Rightarrow> ('key, 'meta) exchange \<Rightarrow> ('key, 'meta) exchange" where
  "received data end_of_stream k =
     (case data of Some b \<Rightarrow> k\<lparr>x_chunks := x_chunks k @ [(b, end_of_stream)]\<rparr> | None \<Rightarrow> k)"

record ('tc, 'md, 'h, 'ses, 'key, 'meta) request =
  phase :: "'h phase"
  session :: 'ses
  rctx :: "('tc, 'md) RequestCtx"
  rcache :: "('key, 'meta) exchange"

text \<open>The proxy and its surroundings. \<open>tables\<close> and \<open>selects\<close> are the routing tables and load balancer
  states that may be met, \<open>clock\<close> the readings of the clock, \<open>responses\<close> the upstreams' response headers;
  \<open>cache_meta_new\<close> is \<open>CacheMeta::new\<close>.\<close>

record ('pe, 'h, 'rh, 'ses, 'tc, 'md, 'key, 'time, 'resp, 'meta) proxy_env =
  pg :: "('pe, 'h, 'rh, 'ses) pingora"
  hm :: "'h header_map"
  px :: "('h, 'tc) propagation"
  otel :: otel_global
  tables :: "(string \<rightharpoonup> 'md ServiceData) set"
  selects :: "(nat \<Rightarrow> bytes \<Rightarrow> nat \<Rightarrow> Backend option) set"
  key_of :: "bytes \<Rightarrow> 'key"
  key_default :: "'rh \<Rightarrow> 'key"
  checked_add :: "'time \<Rightarrow> nat \<Rightarrow> 'time option"
  clock :: "'time set"
  responses :: "'resp set"
  cache_meta_new :: "('time, 'resp) new_meta \<Rightarrow> 'meta"

definition arrived :: "'ses \<Rightarrow> ('tc, 'md, 'h, 'ses, 'key, 'meta) request" where
  "arrived s = \<lparr>phase = Arrived, session = s, rctx = new_ctx, rcache = no_exchange\<rparr>"

inductive request_step ::
    "('pe, 'h, 'rh, 'ses, 'tc, 'md, 'key, 'time, 'resp, 'meta) proxy_env
      \<Rightarrow> ('tc, 'md, 'h, 'ses, 'key, 'meta) request \<Rightarrow> ('tc, 'md, 'h, 'ses, 'key, 'meta) request \<Rightarrow> bool"
  for E :: "('pe, 'h, 'rh, 'ses, 'tc, 'md, 'key, 'time, 'resp, 'meta) proxy_env" where
  early: "request_step E \<lparr>phase = Arrived, session = s, rctx = c, rcache = k\<rparr>
     \<lparr>phase = Traced, session = s, rctx = early_request_filter (pg E) (px E) (otel E) s c, rcache = k\<rparr>"
| refused: "sv \<in> tables E \<Longrightarrow> request_filter (pg E) (hm E) sv s c = Some (Inl e, s', c') \<Longrightarrow>
     request_step E \<lparr>phase = Traced, session = s, rctx = c, rcache = k\<rparr> \<lparr>phase = Failed, session = s', rctx = c', rcache = k\<rparr>"
| filtered: "sv \<in> tables E \<Longrightarrow> request_filter (pg E) (hm E) sv s c = Some (Inr sent, s', c') \<Longrightarrow>
     request_step E \<lparr>phase = Traced, session = s, rctx = c, rcache = k\<rparr>
       \<lparr>phase = (if sent then Answered else Filtered), session = s', rctx = c', rcache = k\<rparr>"
| cache_filter: "s' = request_cache_filter (pg E) s c \<Longrightarrow>
     request_step E \<lparr>phase = Filtered, session = s, rctx = c, rcache = k\<rparr>
       \<lparr>phase = (if cache_enabled (pg E) s' then Keying else Connecting), session = s', rctx = c, rcache = k\<rparr>"
| key: "cache_key_callback (pg E) (hm E) (key_of E) (key_default E) s c = Returns cache_key \<Longrightarrow>
     request_step E \<lparr>phase = Keying, session = s, rctx = c, rcache = k\<rparr> 
       \<lparr>phase = Lookup, session = s, rctx = c, rcache = k\<lparr>x_key := Some cache_key\<rparr>\<rparr>"
| key_panic: "cache_key_callback (pg E) (hm E) (key_of E) (key_default E) s c = Panic \<Longrightarrow>
     request_step E \<lparr>phase = Keying, session = s, rctx = c, rcache = k\<rparr> \<lparr>phase = Panicked, session = s, rctx = c, rcache = k\<rparr>"
| miss: "request_step E \<lparr>phase = Lookup, session = s, rctx = c, rcache = k\<rparr> \<lparr>phase = Connecting, session = s, rctx = c, rcache = k\<rparr>"
| lookup_error: "request_step E \<lparr>phase = Lookup, session = s, rctx = c, rcache = k\<rparr>
     \<lparr>phase = Connecting, session = cache_disable (pg E) reason s, rctx = c, rcache = k\<rparr>"
| hit: "cache_hit_filter age c = (Returns b, c') \<Longrightarrow>
     request_step E \<lparr>phase = Lookup, session = s, rctx = c, rcache = k\<rparr> 
       \<lparr>phase = HitServed, session = s, rctx = c', rcache = k\<lparr>x_hit := Some entry\<rparr>\<rparr>"
| hit_unused: "cache_hit_filter age c = (Returns b, c') \<Longrightarrow>
     request_step E \<lparr>phase = Lookup, session = s, rctx = c, rcache = k\<rparr>
       \<lparr>phase = Connecting, session = s, rctx = c', rcache = k\<lparr>x_hit := Some entry\<rparr>\<rparr>"
| stale: "ph = Connecting \<or> ph = HitServed \<Longrightarrow>
     request_step E \<lparr>phase = Lookup, session = s, rctx = c, rcache = k\<rparr>
       \<lparr>phase = ph, session = s, rctx = c, rcache = k\<lparr>x_hit := Some entry\<rparr>\<rparr>"
| hit_panic: "cache_hit_filter age c = (Panic, c') \<Longrightarrow>
     request_step E \<lparr>phase = Lookup, session = s, rctx = c, rcache = k\<rparr> \<lparr>phase = Panicked, session = s, rctx = c', rcache = k\<rparr>"
| peer: "select \<in> selects E \<Longrightarrow> upstream_peer select c = Returns (Inr inet :: 'pe proxy_error + _, c') \<Longrightarrow>
     request_step E \<lparr>phase = Connecting, session = s, rctx = c, rcache = k\<rparr> \<lparr>phase = Connected, session = s, rctx = c', rcache = k\<rparr>"
| no_peer: "select \<in> selects E \<Longrightarrow> upstream_peer select c = Returns (Inl e :: 'pe proxy_error + _, c') \<Longrightarrow>
     request_step E \<lparr>phase = Connecting, session = s, rctx = c, rcache = k\<rparr> \<lparr>phase = Failed, session = s, rctx = c', rcache = k\<rparr>"
| peer_panic: "select \<in> selects E \<Longrightarrow>
     upstream_peer select c = (Panic :: (('pe proxy_error + _) \<times> _) outcome) \<Longrightarrow>
     request_step E \<lparr>phase = Connecting, session = s, rctx = c, rcache = k\<rparr> \<lparr>phase = Panicked, session = s, rctx = c, rcache = k\<rparr>"
| retry: "request_step E \<lparr>phase = Connected, session = s, rctx = c, rcache = k\<rparr>
     \<lparr>phase = Connecting, session = s, rctx = c, rcache = k\<rparr>"
| reuse: "ph = Connecting \<or> ph = Connected \<Longrightarrow> x_hit k \<noteq> None \<Longrightarrow>
     request_step E \<lparr>phase = ph, session = s, rctx = c, rcache = k\<rparr> \<lparr>phase = HitServed, session = s, rctx = c, rcache = k\<rparr>"
| failed: "ph = Connected \<or> ph = Receiving \<or> ph = HitServed \<Longrightarrow>
     request_step E \<lparr>phase = ph, session = s, rctx = c, rcache = k\<rparr> \<lparr>phase = Failed, session = s, rctx = c, rcache = k\<rparr>"
| response: "\<not> cache_enabled (pg E) s \<Longrightarrow>
     request_step E \<lparr>phase = Connected, session = s, rctx = c, rcache = k\<rparr>
       \<lparr>phase = (if end_of_stream then Served HeaderEnd else Receiving), session = s, rctx = c, rcache = k\<rparr>"
| response_cache: "cache_enabled (pg E) s \<Longrightarrow> now1 \<in> clock E \<Longrightarrow> now2 \<in> clock E \<Longrightarrow> resp \<in> responses E \<Longrightarrow>
     response_cache_filter (checked_add E) now1 now2 resp = Returns meta \<Longrightarrow>
     request_step E \<lparr>phase = Connected, session = s, rctx = c, rcache = k\<rparr>
       \<lparr>phase = (if end_of_stream then Served HeaderEnd else Receiving), session = s, rctx = c,
        rcache = received (if end_of_stream then Some [] else None) end_of_stream (k\<lparr>x_meta := Some (cache_meta_new E meta)\<rparr>)\<rparr>"
| response_panic: "cache_enabled (pg E) s \<Longrightarrow> now1 \<in> clock E \<Longrightarrow> now2 \<in> clock E \<Longrightarrow> resp \<in> responses E \<Longrightarrow>
     response_cache_filter (checked_add E) now1 now2 resp = Panic \<Longrightarrow>
     request_step E \<lparr>phase = Connected, session = s, rctx = c, rcache = k\<rparr> \<lparr>phase = Panicked, session = s, rctx = c, rcache = k\<rparr>"
| body: "request_step E \<lparr>phase = Receiving, session = s, rctx = c, rcache = k\<rparr>
     \<lparr>phase = (if end_of_stream then Served BodyEnd else Receiving),
      session = upstream_response_body_filter (pg E) s end_of_stream, rctx = c, rcache = received data end_of_stream k\<rparr>"
| trailers: "request_step E \<lparr>phase = Receiving, session = s, rctx = c, rcache = k\<rparr>
     \<lparr>phase = Served (TrailersEnd t), session = upstream_response_trailer_filter (pg E) (hm E) s t, rctx = c, rcache = k\<rparr>"
| logged: "ph \<in> {Answered, HitServed, Failed} \<or> (\<exists>e. ph = Served e) \<Longrightarrow>
     request_step E \<lparr>phase = ph, session = s, rctx = c, rcache = k\<rparr>
       \<lparr>phase = Logged ph, session = s, rctx = logging (ph = Failed) c, rcache = k\<rparr>"

text \<open>The steps in which pingora does not use the cache storage: all but the lookup of a key and the end of a
  response that is to be stored.\<close>

definition quiet_step ::
    "('pe, 'h, 'rh, 'ses, 'tc, 'md, 'key, 'time, 'resp, 'meta) proxy_env
      \<Rightarrow> ('tc, 'md, 'h, 'ses, 'key, 'meta) request \<Rightarrow> ('tc, 'md, 'h, 'ses, 'key, 'meta) request \<Rightarrow> bool" where
  "quiet_step E r r' \<longleftrightarrow> request_step E r r' \<and> phase r \<noteq> Lookup
     \<and> \<not> ((\<exists>e. phase r' = Served e) \<and> cache_enabled (pg E) (session r'))"

section \<open>Laws\<close>

text \<open>Documented behaviour of pingora's session cache: enabling and disabling it show, reading the request
  and removing headers leave it alone.\<close>

definition cache_laws :: "('pe, 'h, 'rh, 'ses) pingora \<Rightarrow> bool" where
  "cache_laws PG \<longleftrightarrow>
     (\<forall>s. cache_enabled PG (cache_enable PG s)) \<and> (\<forall>reason s. \<not> cache_enabled PG (cache_disable PG reason s))
     \<and> (\<forall>s. cache_enabled PG (enable_retry_buffering PG s) = cache_enabled PG s)
     \<and> (\<forall>s r s'. read_request_body PG s = (r, s') \<longrightarrow> cache_enabled PG s' = cache_enabled PG s)
     \<and> (\<forall>k s. cache_enabled PG (remove_header PG k s) = cache_enabled PG s)"

text \<open>Load balancers offer internet addresses only, and adding a minute to the time does not overflow.\<close>

definition env_laws :: "('pe, 'h, 'rh, 'ses, 'tc, 'md, 'key, 'time, 'resp, 'meta) proxy_env \<Rightarrow> bool" where
  "env_laws E \<longleftrightarrow> cache_laws (pg E)
     \<and> (\<forall>select \<in> selects E. \<forall>lb key n b. select lb key n = Some b \<longrightarrow> as_inet b \<noteq> None)
     \<and> (\<forall>now \<in> clock E. checked_add E now 60 \<noteq> None)"

lemma drain_body_cache:
  assumes laws: "cache_laws PG" and "drain_body PG s = Some (r, s')"
  shows "cache_enabled PG s' = cache_enabled PG s"
  using assms(2) by (rule drain_body_frame) (use laws in \<open>simp add: cache_laws_def\<close>)

lemma remove_headers_cache:
  assumes "cache_laws PG"
  shows "cache_enabled PG (fold (remove_header PG) ks s) = cache_enabled PG s"
  using assms by (induction ks arbitrary: s) (simp_all add: cache_laws_def)

section \<open>The invariant of a request\<close>

text \<open>A request that was accepted: it has a service with a load balancer, and is cached exactly if its method
  is cacheable.\<close>

definition routed :: "('tc, 'md) RequestCtx \<Rightarrow> bool" where
  "routed c \<longleftrightarrow> (\<exists>m. grpc_meta c = Some m \<and> load_balancer (service_data m) \<noteq> None
     \<and> (do_cache c \<longleftrightarrow> cacheable m \<noteq> None))"

abbreviation ok_trailers :: "'h header_map \<Rightarrow> 'h \<Rightarrow> bool" where
  "ok_trailers H t \<equiv> \<exists>st. GrpcStatus_parse H t = Inr st \<and> is_ok st"

fun phase_ok ::
    "('pe, 'h, 'rh, 'ses) pingora \<Rightarrow> 'h header_map \<Rightarrow> 'ses \<Rightarrow> 'ses \<Rightarrow> ('tc, 'md) RequestCtx \<Rightarrow> 'h phase \<Rightarrow> bool" where
  "phase_ok PG H s0 s c Arrived \<longleftrightarrow> s = s0 \<and> \<not> do_cache c"
| "phase_ok PG H s0 s c Traced \<longleftrightarrow> s = s0 \<and> \<not> do_cache c"
| "phase_ok PG H s0 s c Filtered \<longleftrightarrow> routed c \<and> \<not> cache_enabled PG s"
| "phase_ok PG H s0 s c Keying \<longleftrightarrow> routed c \<and> do_cache c"
| "phase_ok PG H s0 s c Lookup \<longleftrightarrow> routed c \<and> do_cache c"
| "phase_ok PG H s0 s c Connecting \<longleftrightarrow> routed c \<and> (cache_enabled PG s \<longrightarrow> do_cache c)"
| "phase_ok PG H s0 s c Connected \<longleftrightarrow> routed c \<and> (cache_enabled PG s \<longrightarrow> do_cache c)"
| "phase_ok PG H s0 s c Receiving \<longleftrightarrow> routed c \<and> (cache_enabled PG s \<longrightarrow> do_cache c)"
| "phase_ok PG H s0 s c Answered \<longleftrightarrow> False"
| "phase_ok PG H s0 s c HitServed \<longleftrightarrow> routed c"
| "phase_ok PG H s0 s c (Served e) \<longleftrightarrow>
     routed c \<and> (cache_enabled PG s \<longrightarrow> do_cache c \<and> (e = HeaderEnd \<or> (\<exists>t. e = TrailersEnd t \<and> ok_trailers H t)))"
| "phase_ok PG H s0 s c Failed \<longleftrightarrow> True"
| "phase_ok PG H s0 s c (Logged ph) \<longleftrightarrow> phase_ok PG H s0 s c ph"
| "phase_ok PG H s0 s c Panicked \<longleftrightarrow> do_cache c \<and> get_retry_buffer PG s = None"

definition request_invar ::
    "('pe, 'h, 'rh, 'ses, 'tc, 'md, 'key, 'time, 'resp, 'meta) proxy_env \<Rightarrow> 'ses \<Rightarrow> ('tc, 'md, 'h, 'ses, 'key, 'meta) request \<Rightarrow> bool" where
  "request_invar E s0 r \<longleftrightarrow> phase_ok (pg E) (hm E) s0 (session r) (rctx r) (phase r)"

lemma routed_frame [simp]:
  "routed (set_attribute e c) = routed c" "routed (logging b c) = routed c" "do_cache (logging b c) = do_cache c"
  by (simp_all add: routed_def logging_def)

lemma accepted_routed:
  assumes laws: "cache_laws PG" and c: "\<not> do_cache c" and s: "\<not> cache_enabled PG s"
    and f: "request_filter PG H sv s c = Some (Inr sent, s', c')"
  shows "\<not> sent \<and> phase_ok PG H s0 s' c' Filtered"
  using f
proof (cases rule: accepted_cases)
  case (1 nm meth data vs)
  let ?m = "\<lparr>service_data = data, gm_method_name = meth, vary_set = vs\<rparr>"
  have m: "grpc_meta c' = Some ?m" "load_balancer (service_data ?m) \<noteq> None" using 1 by simp_all
  from 1(7) show ?thesis
  proof (elim disjE exE conjE)
    fix cs s1
    assume d: "drain_body PG (enable_retry_buffering PG s) = Some (Inr (), s1)" "\<not> retry_buffer_truncated PG s1"
      and s': "s' = fold (remove_header PG) (find_strip_headers H (ses_headers PG s1) vs {}) s1"
      and k: "do_cache c'" "cacheable ?m = Some cs"
    have "\<not> cache_enabled PG s1"
      using drain_body_cache [OF laws d(1)] s laws by (simp add: cache_laws_def)
    then show ?thesis
      using 1(5) m k by (simp add: s' remove_headers_cache [OF laws] routed_def)
  qed (use 1(5) c s m in \<open>simp add: routed_def\<close>)
qed

lemma routed_key:
  assumes "routed c"
  shows "cache_key_callback PG H k d s c =
    (if get_retry_buffer PG s = None then Panic else Returns (d (req_header PG s)))"
  using assms by (auto simp: routed_def cache_key_callback_def Let_def)

lemma routed_hit:
  assumes "routed c" and "do_cache c"
  shows "\<exists>b. cache_hit_filter age c = (Returns b, set_attribute (FlagAttribute ''cache_hit'' True) c)"
proof -
  obtain m cs where "grpc_meta c = Some m" "cacheable m = Some cs" using assms by (auto simp: routed_def)
  then show ?thesis by (auto simp: cacheable_Some cache_hit_filter_def method_spec_def)
qed

lemma routed_peer:
  assumes "upstream_peer select c = x"
    and "routed c" and "\<forall>lb key n b. select lb key n = Some b \<longrightarrow> as_inet b \<noteq> None"
  shows "x = Returns (Inl (HTTPStatus 502), c)
    \<or> (\<exists>inet. x = Returns (Inr (h2c_peer inet), set_attribute (AddrAttribute ''upstream'' inet) c))"
proof -
  obtain m lb where m: "grpc_meta c = Some m" "load_balancer (service_data m) = Some lb"
    using assms(2) by (auto simp: routed_def)
  show ?thesis
  proof (cases "select lb '''' 256")
    case None
    with m assms(1) show ?thesis by (simp add: upstream_peer_def)
  next
    case (Some b)
    then obtain inet where "as_inet b = Some inet" using assms(3) by (metis not_None_eq)
    with m Some assms(1) show ?thesis by (cases inet) (auto simp: upstream_peer_def)
  qed
qed

lemma trailer_filter_cache:
  assumes "cache_laws PG" and "cache_enabled PG (upstream_response_trailer_filter PG H s t)"
  shows "cache_enabled PG s \<and> ok_trailers H t"
  using assms by (auto simp: upstream_response_trailer_filter_def cache_laws_def split: sum.splits if_splits)

lemma request_invar_step:
  assumes laws: "env_laws E" and start: "\<not> cache_enabled (pg E) s0"
    and step: "request_step E r r'" and inv: "request_invar E s0 r"
  shows "request_invar E s0 r'"
proof -
  have cl: "cache_laws (pg E)" using laws by (simp add: env_laws_def)
  have clD: "cache_enabled (pg E) (cache_enable (pg E) s)" "\<not> cache_enabled (pg E) (cache_disable (pg E) reason s)" for s reason
    using cl by (simp_all add: cache_laws_def)
  show ?thesis
    using step
  proof (cases rule: request_step.cases)
    case (filtered sv s c sent s' c')
    with inv start have "\<not> sent \<and> phase_ok (pg E) (hm E) s0 s' c' Filtered"
      by (intro accepted_routed [OF cl _ _ filtered(4), of s0]) (auto simp: request_invar_def)
    with filtered show ?thesis by (simp add: request_invar_def)
  next
    case (key_panic s c)
    with inv show ?thesis using routed_key [of c "pg E" "hm E" "key_of E" "key_default E" s]
      by (auto simp: request_invar_def split: if_splits)
  next
    case (hit age c b c' s)
    with inv routed_hit [of c age] show ?thesis by (auto simp: request_invar_def)
  next
    case (hit_unused age c b c' s)
    with inv routed_hit [of c age] show ?thesis by (auto simp: request_invar_def)
  next
    case (hit_panic age c c' s)
    with inv routed_hit [of c age] show ?thesis by (auto simp: request_invar_def)
  next
    case (peer select c inet c' s)
    with inv routed_peer [OF peer(4)] laws show ?thesis by (auto simp: request_invar_def env_laws_def)
  next
    case (peer_panic select c s)
    with inv routed_peer [OF peer_panic(4)] laws show ?thesis by (auto simp: request_invar_def env_laws_def)
  next
    case (response_panic s now1 now2 resp c)
    with laws have False by (auto simp: env_laws_def response_cache_filter_def)
    then show ?thesis ..
  next
    case (reuse ph k s c)
    with inv show ?thesis by (auto simp: request_invar_def)
  next
    case (trailers s c k t)
    with inv trailer_filter_cache [OF cl] show ?thesis by (auto simp: request_invar_def)
  next
    case (body s c k e)
    with inv clD show ?thesis by (auto simp: request_invar_def upstream_response_body_filter_def)
  qed (use inv in \<open>auto simp: request_invar_def request_cache_filter_def early_request_filter_def clD\<close>)
qed

section \<open>The exchange with the cache\<close>

text \<open>Metadata for the cache is that of an upstream's response header, fresh for a minute. A request that is to
  be stored has a key and metadata when its response arrives, only a request with a key has an entry, and a response
  that ends with its header has no body.\<close>

definition fresh_meta :: "('pe, 'h, 'rh, 'ses, 'tc, 'md, 'key, 'time, 'resp, 'meta) proxy_env \<Rightarrow> 'meta \<Rightarrow> bool" where
  "fresh_meta E m \<longleftrightarrow> (\<exists>now1 \<in> clock E. \<exists>now2 \<in> clock E. \<exists>resp \<in> responses E. \<exists>fresh. checked_add E now1 60 = Some fresh
     \<and> m = cache_meta_new E \<lparr>fresh_until = fresh, created = now2, stale_while_revalidate_sec = 10,
         stale_if_error_sec = 10, resp_header = resp\<rparr>)"

fun exchange_ok :: "bool \<Rightarrow> ('key, 'meta) exchange \<Rightarrow> 'h phase \<Rightarrow> bool" where
  "exchange_ok en x Lookup \<longleftrightarrow> x_key x \<noteq> None \<and> x_chunks x = []"
| "exchange_ok en x Connecting \<longleftrightarrow> (en \<or> x_hit x \<noteq> None \<longrightarrow> x_key x \<noteq> None) \<and> x_chunks x = []"
| "exchange_ok en x Connected \<longleftrightarrow> (en \<or> x_hit x \<noteq> None \<longrightarrow> x_key x \<noteq> None) \<and> x_chunks x = []"
| "exchange_ok en x Receiving \<longleftrightarrow> (en \<longrightarrow> x_key x \<noteq> None \<and> x_meta x \<noteq> None)"
| "exchange_ok en x (Served e) \<longleftrightarrow> (en \<longrightarrow> x_key x \<noteq> None \<and> x_meta x \<noteq> None) \<and> (e = HeaderEnd \<longrightarrow> concat (map fst (x_chunks x)) = [])"
| "exchange_ok en x HitServed \<longleftrightarrow> x_key x \<noteq> None \<and> x_hit x \<noteq> None"
| "exchange_ok en x Failed \<longleftrightarrow> True"
| "exchange_ok en x Answered \<longleftrightarrow> True"
| "exchange_ok en x Panicked \<longleftrightarrow> True"
| "exchange_ok en x (Logged ph) \<longleftrightarrow> exchange_ok en x ph"
| "exchange_ok en x _ \<longleftrightarrow> x_hit x = None \<and> x_chunks x = []"

definition exchange_invar ::
    "('pe, 'h, 'rh, 'ses, 'tc, 'md, 'key, 'time, 'resp, 'meta) proxy_env \<Rightarrow> ('tc, 'md, 'h, 'ses, 'key, 'meta) request \<Rightarrow> bool" where
  "exchange_invar E r \<longleftrightarrow> (\<forall>m. x_meta (rcache r) = Some m \<longrightarrow> fresh_meta E m)
     \<and> exchange_ok (cache_enabled (pg E) (session r)) (rcache r) (phase r)"

lemma received_frame [simp]:
  "x_key (received d e k) = x_key k" "x_meta (received d e k) = x_meta k" "x_hit (received d e k) = x_hit k"
  by (simp_all add: received_def split: option.split)

lemma exchange_invar_arrived: "exchange_invar E (arrived s)"
  by (simp add: exchange_invar_def arrived_def no_exchange_def)

lemma exchange_invar_step:
  assumes laws: "cache_laws (pg E)" and step: "request_step E r r'" and inv: "exchange_invar E r"
  shows "exchange_invar E r'"
  using step
proof (cases rule: request_step.cases)
  case (response_cache s now1 now2 resp meta e c k)
  then have "fresh_meta E (cache_meta_new E meta)"
    unfolding fresh_meta_def response_cache_filter_def by (cases "checked_add E now1 60") auto
  with response_cache inv show ?thesis by (auto simp: exchange_invar_def received_def)
next
  case (trailers s c k t)
  with inv trailer_filter_cache [OF laws, of "hm E" s t] show ?thesis by (auto simp: exchange_invar_def)
next
  case (logged ph s c k)
  with inv show ?thesis by (auto simp: exchange_invar_def)
next
  case (failed ph s c k)
  with inv show ?thesis by (auto simp: exchange_invar_def)
next
  case (stale ph s c k)
  with inv show ?thesis by (auto simp: exchange_invar_def)
next
  case (reuse ph k s c)
  with inv show ?thesis by (auto simp: exchange_invar_def)
next
  case (body s c k e d)
  with inv laws show ?thesis by (auto simp: exchange_invar_def upstream_response_body_filter_def cache_laws_def)
qed (use inv laws in \<open>simp_all add: exchange_invar_def cache_laws_def\<close>)

section \<open>The span of a request\<close>

fun is_attribute :: "'tc span_event \<Rightarrow> bool" where
  "is_attribute (TextAttribute k v) = True"
| "is_attribute (FlagAttribute k b) = True"
| "is_attribute (AddrAttribute k a) = True"
| "is_attribute _ = False"

text \<open>A span in a trace context with attributes set so far.\<close>

definition open_span :: "'tc \<Rightarrow> 'tc span_event list \<Rightarrow> bool" where
  "open_span tc sp \<longleftrightarrow> (\<exists>as. sp = StartServer tc # as \<and> list_all is_attribute as)"

definition closed_span :: "'tc \<Rightarrow> bool \<Rightarrow> 'tc span_event list \<Rightarrow> bool" where
  "closed_span tc failed sp \<longleftrightarrow>
     (\<exists>as. sp = StartServer tc # as @ (if failed then [RecordError, ErrorStatus ''failed while processing request''] else []) @ [End] \<and> list_all is_attribute as)"

definition extracted_context ::
    "('pe, 'h, 'rh, 'ses, 'tc, 'md, 'key, 'time, 'resp, 'meta) proxy_env \<Rightarrow> 'ses \<Rightarrow> 'tc" where
  "extracted_context E s = extract_context_from_headers (px E) (otel E) (ses_headers (pg E) s)"

definition span_invar ::
    "('pe, 'h, 'rh, 'ses, 'tc, 'md, 'key, 'time, 'resp, 'meta) proxy_env \<Rightarrow> 'ses \<Rightarrow> ('tc, 'md, 'h, 'ses, 'key, 'meta) request \<Rightarrow> bool" where
  "span_invar E s0 r \<longleftrightarrow>
     (case phase r of
        Arrived \<Rightarrow> session r = s0 \<and> span (rctx r) = [StartNoop]
      | Logged ph \<Rightarrow> closed_span (extracted_context E s0) (ph = Failed) (span (rctx r))
      | _ \<Rightarrow> open_span (extracted_context E s0) (span (rctx r)))"

lemma open_span_attribute:
  "is_attribute e \<Longrightarrow> open_span tc (span c) \<Longrightarrow> open_span tc (span (set_attribute e c))"
  by (auto simp: open_span_def set_attribute_def)

lemma request_filter_span:
  assumes "request_filter PG H sv s c = Some (r, s', c')" and "open_span tc (span c)"
  shows "open_span tc (span c')"
proof -
  have meta: "span (c\<lparr>grpc_meta := m\<rparr>) = span c" "span (c\<lparr>do_cache := b\<rparr>) = span c" for c :: "('a, 'b) RequestCtx" and m b
    by simp_all
  show ?thesis
    using assms
    by (auto simp: request_filter_def Let_def meta intro!: open_span_attribute
        split: sum.splits prod.splits option.splits if_splits)
qed

lemma hit_filter_span:
  "cache_hit_filter age c = (r, c') \<Longrightarrow> open_span tc (span c) \<Longrightarrow> open_span tc (span c')"
  by (auto simp: cache_hit_filter_def intro!: open_span_attribute split: option.splits)

lemma upstream_peer_span:
  "upstream_peer select c = Returns (r, c') \<Longrightarrow> open_span tc (span c) \<Longrightarrow> open_span tc (span c')"
  by (auto simp: upstream_peer_def result_simps intro!: open_span_attribute split: option.splits)

lemma span_invar_step:
  assumes step: "request_step E r r'" and inv: "span_invar E s0 r"
  shows "span_invar E s0 r'"
  using step
proof (cases rule: request_step.cases)
  case (early s c)
  with inv show ?thesis
    by (simp add: span_invar_def open_span_def early_request_filter_def extracted_context_def Let_def)
next
  case (logged ph s c)
  then have "open_span (extracted_context E s0) (span c)" using inv by (auto simp: span_invar_def)
  with logged show ?thesis by (auto simp: span_invar_def open_span_def closed_span_def logging_def)
qed (use inv in \<open>auto simp: span_invar_def intro: request_filter_span hit_filter_span upstream_peer_span\<close>)

interpretation req: invariant_system "\<lambda>r. r = arrived s0" "request_step E"
  "\<lambda>r. span_invar E s0 r
     \<and> (env_laws E \<and> \<not> cache_enabled (pg E) s0 \<longrightarrow> request_invar E s0 r)"
  for E :: "('pe, 'h, 'rh, 'ses, 'tc, 'md, 'key, 'time, 'resp, 'meta) proxy_env" and s0
proof
  fix r :: "('tc, 'md, 'h, 'ses, 'key, 'meta) request"
  assume "r = arrived s0"
  then show "span_invar E s0 r
      \<and> (env_laws E \<and> \<not> cache_enabled (pg E) s0 \<longrightarrow> request_invar E s0 r)"
    by (simp add: arrived_def span_invar_def request_invar_def new_ctx_def)
qed (blast intro: span_invar_step request_invar_step)

lemma connecting_progress:
  fixes E :: "('pe, 'h, 'rh, 'ses, 'tc, 'md, 'key, 'time, 'resp, 'meta) proxy_env"
  assumes laws: "env_laws E" and "routed c" and sel: "select \<in> selects E"
  shows "\<exists>r'. request_step E \<lparr>phase = Connecting, session = s, rctx = c, rcache = k\<rparr> r'"
proof -
  have "\<forall>lb key n b. select lb key n = Some b \<longrightarrow> as_inet b \<noteq> None"
    using laws sel unfolding env_laws_def by blast
  with assms(2) consider "upstream_peer select c = Returns (Inl (HTTPStatus 502) :: 'pe proxy_error + _, c)"
    | inet where "upstream_peer select c = Returns (Inr (h2c_peer inet) :: 'pe proxy_error + _,
        set_attribute (AddrAttribute ''upstream'' inet) c)"
    using routed_peer [OF refl, of c select] by metis
  then show ?thesis
  proof cases
    case 1
    from no_peer [OF sel this] show ?thesis by (intro exI)
  next
    case (2 inet)
    from peer [OF sel this] show ?thesis by (intro exI)
  qed
qed

lemma request_progress:
  fixes E :: "('pe, 'h, 'rh, 'ses, 'tc, 'md, 'key, 'time, 'resp, 'meta) proxy_env"
  assumes laws: "env_laws E" and inv: "request_invar E s0 r" and body: "body_ends (pg E) rem"
    and ne: "sv \<in> tables E" "select \<in> selects E"
  shows "phase r = Panicked \<or> (\<exists>ph. phase r = Logged ph) \<or> (\<exists>r'. request_step E r r')"
proof -
  obtain ph s c k where r: "r = \<lparr>phase = ph, session = s, rctx = c, rcache = k\<rparr>" by (cases r)
  consider "ph = Arrived" | "ph = Traced" | "ph = Filtered" | "ph = Keying" | "ph = Lookup" | "ph = Connecting"
    | "ph = Connected" | "ph = Receiving" | "ph \<in> {Answered, HitServed, Failed} \<or> (\<exists>e. ph = Served e)"
    | ph' where "ph = Logged ph'" | "ph = Panicked"
    by (cases ph) auto
  then show ?thesis
  proof cases
    case 2
    obtain x s' c' where x: "request_filter (pg E) (hm E) sv s c = Some (x, s', c')"
      using request_filter_total [OF body] by blast
    then show ?thesis using refused [OF ne(1)] filtered [OF ne(1)] unfolding r 2 by (cases x) blast+
  next
    case 4
    then show ?thesis
      using key_panic [of E s c k] key [of E s c _ k] unfolding r 4
      by (cases "cache_key_callback (pg E) (hm E) (key_of E) (key_default E) s c") blast+
  next
    case 6
    then have "routed c" using inv r by (simp add: request_invar_def)
    with connecting_progress [OF laws _ ne(2)] show ?thesis unfolding r 6 by blast
  next
    case 7
    then have "request_step E r \<lparr>phase = Failed, session = s, rctx = c, rcache = k\<rparr>"
      unfolding r by (intro failed disjI1)
    then show ?thesis by (intro disjI2 exI)
  qed (use early [of E s c k] cache_filter [OF refl, of E s c k] miss [of E s c k] trailers [of E s c k] logged [of ph E s c k]
      in \<open>auto simp only: r request.simps phase.inject\<close>)
qed

section \<open>A complete request\<close>

definition demo_env ::
    "(unit, (string \<times> bytes) list, bytes \<times> (string \<times> bytes) list, demo_session, unit, string \<times> i32 option, bytes, nat, unit, unit)
      proxy_env" where
  "demo_env = \<lparr>pg = demo_pingora, hm = demo_headers, px = \<lparr>extract_with_context = (\<lambda>_ tc _. tc), current_context = ()\<rparr>,
     otel = otel_default, tables = {demo_table}, selects = {\<lambda>_ _ _. Some (Backend (Inet 42 50051) 1)},
     key_of = (\<lambda>h. h), key_default = fst, checked_add = (\<lambda>t n. Some (t + n)), clock = {0}, responses = {()},
     cache_meta_new = (\<lambda>_. ())\<rparr>"

lemma demo_env_laws: "env_laws demo_env" "\<not> cache_enabled (pg demo_env) demo_request"
proof -
  have pg: "pg demo_env = demo_pingora" by (simp add: demo_env_def)
  have "cache_laws demo_pingora" by (auto simp: cache_laws_def demo_pingora_def split: list.splits)
  then show "env_laws demo_env" by (simp add: env_laws_def demo_env_def)
  show "\<not> cache_enabled (pg demo_env) demo_request" by (simp add: pg demo_pingora_def demo_request_def)
qed

abbreviation demo_trailers :: "(string \<times> bytes) list" where
  "demo_trailers \<equiv> [(''grpc-status'', ''0'')]"

lemma demo_env_parts:
  "pg demo_env = demo_pingora" "hm demo_env = demo_headers" "demo_table \<in> tables demo_env"
  "(\<lambda>_ _ _. Some (Backend (Inet 42 50051) 1)) \<in> selects demo_env" "0 \<in> clock demo_env" "() \<in> responses demo_env"
  by (simp_all add: demo_env_def)

lemma quiet_run_step: "(quiet_step E)\<^sup>*\<^sup>* r r' \<Longrightarrow> (request_step E)\<^sup>*\<^sup>* r r'"
  by (erule rtranclp_mono [THEN predicate2D, rotated]) (auto simp: quiet_step_def)

text \<open>The request up to the lookup of its key.\<close>

lemma demo_keyed:
  obtains s c k where
    "(quiet_step demo_env)\<^sup>*\<^sup>* (arrived demo_request)
       \<lparr>phase = Lookup, session = s, rctx = c, rcache = no_exchange\<lparr>x_key := Some k\<rparr>\<rparr>"
    "cache_enabled demo_pingora s" "routed c" "do_cache c"
proof -
  define c1 :: "(unit, string \<times> i32 option) RequestCtx" where
    "c1 = early_request_filter demo_pingora (px demo_env) (otel demo_env) demo_request new_ctx"
  obtain s2 c2 where f: "request_filter demo_pingora demo_headers demo_table demo_request c1 = Some (Inr False, s2, c2)"
    "do_cache c2" "get_retry_buffer demo_pingora s2 \<noteq> None"
    using demo_accepts [of c1] by (auto simp: demo_pingora_def)
  let ?f = "\<lparr>phase = Filtered, session = s2, rctx = c2, rcache = no_exchange\<rparr>"
  have "quiet_step demo_env (arrived demo_request) \<lparr>phase = Traced, session = demo_request, rctx = c1, rcache = no_exchange\<rparr>"
    using early [of demo_env demo_request new_ctx no_exchange] unfolding c1_def arrived_def demo_env_parts quiet_step_def by simp
  moreover have "quiet_step demo_env \<lparr>phase = Traced, session = demo_request, rctx = c1, rcache = no_exchange\<rparr> ?f"
    using filtered [of demo_table demo_env demo_request c1 False s2 c2 no_exchange] f demo_env_parts
    by (simp add: quiet_step_def)
  ultimately have run: "(quiet_step demo_env)\<^sup>*\<^sup>* (arrived demo_request) ?f" by (meson r_into_rtranclp rtranclp_trans)
  have "request_invar demo_env demo_request ?f"
    using req.invar_reachable [OF refl quiet_run_step [OF run]] demo_env_laws by simp
  then have i: "routed c2" by (simp add: request_invar_def demo_env_parts)
  let ?s = "cache_enable demo_pingora s2" and ?k = "key_default demo_env (req_header demo_pingora (cache_enable demo_pingora s2))"
  have e: "cache_enabled demo_pingora ?s" "get_retry_buffer demo_pingora ?s \<noteq> None"
    using f(3) by (simp_all add: demo_pingora_def)
  have "quiet_step demo_env ?f \<lparr>phase = Keying, session = ?s, rctx = c2, rcache = no_exchange\<rparr>"
    using cache_filter [OF refl, of demo_env s2 c2 no_exchange] e f(2)
    by (simp add: request_cache_filter_def demo_env_parts quiet_step_def)
  moreover have "request_step demo_env \<lparr>phase = Keying, session = ?s, rctx = c2, rcache = no_exchange\<rparr>
      \<lparr>phase = Lookup, session = ?s, rctx = c2, rcache = no_exchange\<lparr>x_key := Some ?k\<rparr>\<rparr>"
    by (rule key) (use routed_key [OF i, of demo_pingora demo_headers "key_of demo_env" "key_default demo_env"] e(2) demo_env_parts in simp)
  then have "quiet_step demo_env \<lparr>phase = Keying, session = ?s, rctx = c2, rcache = no_exchange\<rparr>
      \<lparr>phase = Lookup, session = ?s, rctx = c2, rcache = no_exchange\<lparr>x_key := Some ?k\<rparr>\<rparr>" by (simp add: quiet_step_def)
  ultimately show ?thesis using that run e(1) i f(2) by (meson rtranclp.rtrancl_into_rtrancl)
qed

text \<open>A request that is to be cached, from the choice of its upstream to the response, and its end.\<close>

lemma demo_answered:
  fixes c :: "(unit, string \<times> i32 option) RequestCtx" and k :: "(bytes, unit) exchange"
  assumes e: "cache_enabled demo_pingora s" and c: "routed c"
  obtains r r' where
    "(quiet_step demo_env)\<^sup>*\<^sup>* \<lparr>phase = Connecting, session = s, rctx = c, rcache = k\<rparr> r" "request_step demo_env r r'"
    "phase r = Receiving" "phase r' = Served (TrailersEnd demo_trailers)" "cache_enabled demo_pingora (session r')"
    "rcache r' = k\<lparr>x_meta := Some (), x_chunks := x_chunks k @ [(''abc'', False)]\<rparr>"
proof -
  obtain m lb where "grpc_meta c = Some m" "load_balancer (service_data m) = Some lb" using c by (auto simp: routed_def)
  then have "\<exists>c'. upstream_peer (\<lambda>_ _ _. Some (Backend (Inet 42 50051) 1)) c
      = Returns (Inr (h2c_peer (42, 50051)) :: unit proxy_error + _, c')"
    by (simp add: upstream_peer_def)
  then obtain c' where p: "request_step demo_env \<lparr>phase = Connecting, session = s, rctx = c, rcache = k\<rparr>
      \<lparr>phase = Connected, session = s, rctx = c', rcache = k\<rparr>" using peer [OF demo_env_parts(4)] by blast
  let ?k = "k\<lparr>x_meta := Some (cache_meta_new demo_env \<lparr>fresh_until = 60, created = 0, stale_while_revalidate_sec = 10,
    stale_if_error_sec = 10, resp_header = ()\<rparr>)\<rparr>"
  have h: "request_step demo_env \<lparr>phase = Connected, session = s, rctx = c', rcache = k\<rparr>
      \<lparr>phase = Receiving, session = s, rctx = c', rcache = ?k\<rparr>"
    using response_cache [OF _ demo_env_parts(5,5,6), where end_of_stream = False and s = s and c = c' and k = k] e demo_env_parts
    by (simp add: response_cache_filter_def demo_env_def received_def)
  let ?r = "\<lparr>phase = Receiving, session = s, rctx = c', rcache = received (Some ''abc'') False ?k\<rparr>"
  have b: "request_step demo_env \<lparr>phase = Receiving, session = s, rctx = c', rcache = ?k\<rparr> ?r"
    using body [of demo_env s c' ?k False "Some ''abc''"] by (simp add: upstream_response_body_filter_def)
  have "ok_trailers demo_headers demo_trailers" unfolding status_ok by (intro exI [of _ 1]) (simp add: demo_headers_def)
  then have "upstream_response_trailer_filter demo_pingora demo_headers s demo_trailers = s"
    by (auto simp: upstream_response_trailer_filter_def)
  then have t: "request_step demo_env ?r (?r\<lparr>phase := Served (TrailersEnd demo_trailers)\<rparr>)"
    using trailers [of demo_env s c' "rcache ?r" demo_trailers] by (simp add: demo_env_parts)
  have "quiet_step demo_env \<lparr>phase = Connecting, session = s, rctx = c, rcache = k\<rparr>
      \<lparr>phase = Connected, session = s, rctx = c', rcache = k\<rparr>"
    "quiet_step demo_env \<lparr>phase = Connected, session = s, rctx = c', rcache = k\<rparr>
      \<lparr>phase = Receiving, session = s, rctx = c', rcache = ?k\<rparr>"
    "quiet_step demo_env \<lparr>phase = Receiving, session = s, rctx = c', rcache = ?k\<rparr> ?r"
    unfolding quiet_step_def using p h b by simp_all
  then have "(quiet_step demo_env)\<^sup>*\<^sup>* \<lparr>phase = Connecting, session = s, rctx = c, rcache = k\<rparr> ?r" by (rule three_steps)
  from that [OF this t] e show ?thesis by (simp add: received_def)
qed

lemma demo_served:
  "\<exists>r. (request_step demo_env)\<^sup>*\<^sup>* (arrived demo_request) r \<and> phase r = Served (TrailersEnd demo_trailers)
     \<and> cache_enabled (pg demo_env) (session r)"
proof -
  obtain s c k where a: "(quiet_step demo_env)\<^sup>*\<^sup>* (arrived demo_request)
      \<lparr>phase = Lookup, session = s, rctx = c, rcache = no_exchange\<lparr>x_key := Some k\<rparr>\<rparr>"
    "cache_enabled demo_pingora s" "routed c" using demo_keyed by metis
  obtain r r' where b: "(quiet_step demo_env)\<^sup>*\<^sup>*
      \<lparr>phase = Connecting, session = s, rctx = c, rcache = no_exchange\<lparr>x_key := Some k\<rparr>\<rparr> r"
    "request_step demo_env r r'" "phase r' = Served (TrailersEnd demo_trailers)" "cache_enabled demo_pingora (session r')"
    using demo_answered [OF a(2,3)] by metis
  have "(request_step demo_env)\<^sup>*\<^sup>* (arrived demo_request) r'"
    using quiet_run_step [OF a(1)] miss [of demo_env s c] quiet_run_step [OF b(1)] b(2)
    by (meson rtranclp.rtrancl_into_rtrancl rtranclp_trans)
  with b(3,4) show ?thesis by (auto simp: demo_env_parts)
qed

lemma demo_run:
  "\<exists>r. (request_step demo_env)\<^sup>*\<^sup>* (arrived demo_request) r \<and> phase r = Logged (Served (TrailersEnd demo_trailers))
     \<and> cache_enabled (pg demo_env) (session r)"
proof -
  obtain r where r: "(request_step demo_env)\<^sup>*\<^sup>* (arrived demo_request) r" "phase r = Served (TrailersEnd demo_trailers)"
    "cache_enabled (pg demo_env) (session r)" using demo_served by blast
  let ?r = "\<lparr>phase = Logged (phase r), session = session r, rctx = logging False (rctx r), rcache = rcache r\<rparr>"
  have "request_step demo_env \<lparr>phase = phase r, session = session r, rctx = rctx r, rcache = rcache r\<rparr> ?r"
    using logged [of "phase r" demo_env "session r" "rctx r" "rcache r"] r(2) by simp
  then have "request_step demo_env r ?r" by (cases r) simp
  from rtranclp.rtrancl_into_rtrancl [OF r(1) this] r(2,3) show ?thesis
    by (intro exI [of _ ?r]) simp
qed

lemma served_cached:
  assumes "(request_step E)\<^sup>*\<^sup>* (arrived s0) r" and "env_laws E" and "\<not> cache_enabled (pg E) s0"
    and "phase r = Served e \<or> phase r = Logged (Served e)" and "cache_enabled (pg E) (session r)"
  shows "\<exists>m c. grpc_meta (rctx r) = Some m \<and> cacheable m = Some c \<and> 0 < sint (cache_ttl (descriptor c))
    \<and> (e = HeaderEnd \<or> (\<exists>t. e = TrailersEnd t \<and> (\<exists>n > 0. hm_get (hm E) t ''grpc-status'' = Some (replicate n CHR ''0'')
        \<or> hm_get (hm E) t ''grpc-status'' = Some (CHR ''+'' # replicate n CHR ''0''))))"
proof -
  have "request_invar E s0 r" using req.invar_reachable [OF refl assms(1)] assms(2,3) by blast
  then have "routed (rctx r)" "do_cache (rctx r)" "e = HeaderEnd \<or> (\<exists>t. e = TrailersEnd t \<and> ok_trailers (hm E) t)"
    using assms(4,5) by (auto simp: request_invar_def)
  moreover from this(1,2) obtain m c where "grpc_meta (rctx r) = Some m" "cacheable m = Some c"
    by (auto simp: routed_def)
  ultimately show ?thesis unfolding status_ok by (auto simp: cacheable_Some)
qed

text \<open>A response that ends with its header, as gRPC sends errors (trailers only), reaches no filter that looks at its
  status: it stays with the cache.\<close>

lemma header_only_response_cached:
  assumes "env_laws E" and "cache_enabled (pg E) s" and "now \<in> clock E" and "resp \<in> responses E"
  shows "\<exists>k'. request_step E \<lparr>phase = Connected, session = s, rctx = c, rcache = k\<rparr>
    \<lparr>phase = Served HeaderEnd, session = s, rctx = c, rcache = k'\<rparr>"
proof -
  obtain meta where "response_cache_filter (checked_add E) now now resp = Returns meta"
    using assms(1,3) by (auto simp: env_laws_def response_cache_filter_def)
  from response_cache [OF assms(2,3,3,4) this, where end_of_stream = True] show ?thesis by auto
qed

section \<open>Properties\<close>

text \<open>Where a request can panic: in every order of events that the environment allows, starting from a
  session without cache, only \<open>cache_key_callback\<close> panics, exactly when the retry buffer hands out no body for a
  request that is to be cached; and until the request is logged there is always a next callback.\<close>

lemma request_runs:
  assumes "(request_step E)\<^sup>*\<^sup>* (arrived s0) r" and "env_laws E" and "\<not> cache_enabled (pg E) s0"
    and "body_ends (pg E) rem" and "tables E \<noteq> {}" and "selects E \<noteq> {}"
  shows "(phase r = Panicked \<longrightarrow> do_cache (rctx r) \<and> get_retry_buffer (pg E) (session r) = None)
    \<and> (phase r = Keying \<longrightarrow> (\<forall>r'. request_step E r r' \<longrightarrow>
        (phase r' = Panicked \<longleftrightarrow> get_retry_buffer (pg E) (session r) = None)))
    \<and> (phase r = Panicked \<or> (\<exists>ph. phase r = Logged ph) \<or> (\<exists>r'. request_step E r r'))"
proof (intro conjI impI allI)
  have i: "request_invar E s0 r" using req.invar_reachable [OF refl assms(1)] assms(2,3) by blast
  then show "do_cache (rctx r)" "get_retry_buffer (pg E) (session r) = None" if "phase r = Panicked"
    using that by (simp_all add: request_invar_def)
  show "phase r = Panicked \<or> (\<exists>ph. phase r = Logged ph) \<or> (\<exists>r'. request_step E r r')"
    using request_progress [OF assms(2) i assms(4)] assms(5,6) by blast
  show "phase r' = Panicked \<longleftrightarrow> get_retry_buffer (pg E) (session r) = None" if "phase r = Keying" "request_step E r r'" for r'
    using that(2,1) i routed_key [of "rctx r" "pg E" "hm E" "key_of E" "key_default E" "session r"]
    by cases (auto simp: request_invar_def split: if_splits)
qed

text \<open>C5. Which responses are left to the cache: in every order of events, when a response has been served from
  the upstream and the session's cache is still enabled, the request's method has a positive time to live, and
  the response ended with trailers of gRPC status zero, or with its header. In the latter case nothing has looked at
  its status (\<open>header_only_response_cached\<close>).\<close>

theorem cached_responses_ok:
  assumes "(request_step E)\<^sup>*\<^sup>* (arrived s0) r" and "env_laws E" and "\<not> cache_enabled (pg E) s0"
    and "phase r = Served e \<or> phase r = Logged (Served e)" and "cache_enabled (pg E) (session r)"
  shows "\<exists>m c. grpc_meta (rctx r) = Some m \<and> cacheable m = Some c \<and> 0 < sint (cache_ttl (descriptor c))
    \<and> (e = HeaderEnd \<or> (\<exists>t. e = TrailersEnd t \<and> (\<exists>n > 0. hm_get (hm E) t ''grpc-status'' = Some (replicate n CHR ''0'')
        \<or> hm_get (hm E) t ''grpc-status'' = Some (CHR ''+'' # replicate n CHR ''0''))))"
  using assms by (rule served_cached)

theorem cached_responses_ok_witness:
  "\<exists>r m c. (request_step demo_env)\<^sup>*\<^sup>* (arrived demo_request) r \<and> cache_enabled (pg demo_env) (session r)
     \<and> grpc_meta (rctx r) = Some m \<and> cacheable m = Some c"
  using demo_run cached_responses_ok [OF _ demo_env_laws] by metis

text \<open>C35. Every request has one span: from the first callback on it is open with attributes only, and once the
  request is logged it has been ended, with the error recorded exactly if the request failed. Its parent is the
  context that the request's headers describe to the last installed propagator that finds one there, and the
  current context if none does; in particular if no propagator is installed, as by \<open>main\<close>.\<close>

theorem request_span:
  assumes "(request_step E)\<^sup>*\<^sup>* (arrived s0) r" and "propagation_law (px E) remote"
    and "headers = ses_headers (pg E) s0" and "installed = text_map_propagator (otel E)"
  shows "\<exists>tc. ((\<exists>ps p qs. installed = ps @ p # qs \<and> remote p headers = Some tc \<and> (\<forall>q \<in> set qs. remote q headers = None))
        \<or> (\<forall>p \<in> set installed. remote p headers = None) \<and> tc = current_context (px E))
    \<and> (phase r \<noteq> Arrived \<and> (\<nexists>ph. phase r = Logged ph) \<longrightarrow> open_span tc (span (rctx r)))
    \<and> (\<forall>ph. phase r = Logged ph \<longrightarrow> closed_span tc (ph = Failed) (span (rctx r)))"
proof -
  have "span_invar E s0 r" using req.invar_reachable [OF refl assms(1)] by blast
  then have "(phase r \<noteq> Arrived \<and> (\<nexists>ph. phase r = Logged ph) \<longrightarrow> open_span (extracted_context E s0) (span (rctx r)))
    \<and> (\<forall>ph. phase r = Logged ph \<longrightarrow> closed_span (extracted_context E s0) (ph = Failed) (span (rctx r)))"
    by (auto simp: span_invar_def split: phase.splits)
  moreover have "(\<exists>ps p qs. installed = ps @ p # qs \<and> remote p headers = Some (extracted_context E s0) \<and> (\<forall>q \<in> set qs. remote q headers = None))
      \<or> (\<forall>p \<in> set installed. remote p headers = None) \<and> extracted_context E s0 = current_context (px E)"
    unfolding extracted_context_def assms(3,4) by (rule extract_last [OF assms(2)])
  ultimately show ?thesis by blast
qed

text \<open>A request in whose headers an installed propagator finds a context.\<close>

definition traced_env ::
    "(unit, (string \<times> bytes) list, bytes \<times> (string \<times> bytes) list, demo_session, nat, string \<times> i32 option, bytes, nat, unit, unit)
      proxy_env" where
  "traced_env = \<lparr>pg = demo_pingora, hm = demo_headers, px = \<lparr>extract_with_context = (\<lambda>_ _ _. 7), current_context = 0\<rparr>,
     otel = \<lparr>text_map_propagator = [TraceContextPropagator], tracer_provider = None\<rparr>, tables = {demo_table}, selects = {},
     key_of = (\<lambda>h. h), key_default = fst, checked_add = (\<lambda>t n. Some (t + n)), clock = {0}, responses = {()},
     cache_meta_new = (\<lambda>_. ())\<rparr>"

theorem request_span_witness:
  "\<exists>r. (request_step traced_env)\<^sup>*\<^sup>* (arrived demo_request) r \<and> open_span 7 (span (rctx r))"
proof -
  let ?r = "\<lparr>phase = Traced, session = demo_request,
    rctx = early_request_filter (pg traced_env) (px traced_env) (otel traced_env) demo_request
      (new_ctx :: (nat, string \<times> i32 option) RequestCtx), rcache = no_exchange :: (bytes, unit) exchange\<rparr>"
  have run: "(request_step traced_env)\<^sup>*\<^sup>* (arrived demo_request) ?r" unfolding arrived_def by (rule r_into_rtranclp) (rule early)
  have "propagation_law (px traced_env) (\<lambda>_ _. Some 7)" by (simp add: propagation_law_def traced_env_def)
  from request_span [OF run this refl refl] have "open_span 7 (span (rctx ?r))" by (auto simp: traced_env_def)
  with run show ?thesis by blast
qed

end
