(* ===== verification/Caching.thy ===== *)
theory Caching
  imports Request_Lifecycle Redis_Replicas
begin

text \<open>
  The proxy and its cache storage together: any number of requests, each running through the callbacks of
  \<open>proxy/mod.rs\<close>, share the replicas of \<open>redis_replicas.rs\<close>. pingora looks the key of a request up in the storage and
  goes on as the answer says, and at the end of a response whose session still has its cache enabled it finishes
  the miss handler that was given the chunks of the body. Commands may fail, and replicas may lose entries at
  any time. The lemmas show where a response from the cache comes from, and what the choice of the cache key
  means for it.
\<close>

section \<open>Requests and the storage\<close>

text \<open>The outside world with the replicas, and all requests so far.\<close>

record ('w, 'r) serving =
  outside :: 'w
  requests :: "'r list"

text \<open>How pingora goes on after a lookup: to the upstream after a miss, without the cache after an error, and
  after a hit it has the entry, from which it answers the request, or which it keeps while it asks the upstream.\<close>

definition answers ::
    "('pe, 'h, 'rh, 'ses, 'tc, 'md, 'key, 'time, 'resp, 'meta) proxy_env \<Rightarrow> 'pe + ('meta \<times> RedisCacheHit) option
      \<Rightarrow> ('tc, 'md, 'h, 'ses, 'key, 'meta) request \<Rightarrow> ('tc, 'md, 'h, 'ses, 'key, 'meta) request \<Rightarrow> bool" where
  "answers E x r r' \<longleftrightarrow>
     (case x of
        Inl e \<Rightarrow> phase r' = Connecting \<and> rcache r' = rcache r \<and> (\<exists>reason. session r' = cache_disable (pg E) reason (session r))
      | Inr None \<Rightarrow> phase r' = Connecting \<and> session r' = session r \<and> rctx r' = rctx r \<and> rcache r' = rcache r
      | Inr (Some (meta, hit)) \<Rightarrow> session r' = session r \<and> x_hit (rcache r') = Some (meta, hit))"

inductive serve_step ::
    "('pe, 'h, 'rh, 'ses, 'tc, 'md, 'key, 'time, 'resp, 'meta) proxy_env \<Rightarrow> 'lb select_with \<Rightarrow> ('be, 'pe, 'meta, 'key) codec
      \<Rightarrow> ('w, 'pool, 'conn, 'ce, 're) redis_io \<Rightarrow> ('w \<Rightarrow> 'pool \<Rightarrow> bytes \<rightharpoonup> bytes)
      \<Rightarrow> ('w, ('tc, 'md, 'h, 'ses, 'key, 'meta) request) serving \<Rightarrow> ('w, ('tc, 'md, 'h, 'ses, 'key, 'meta) request) serving \<Rightarrow> bool"
  for E :: "('pe, 'h, 'rh, 'ses, 'tc, 'md, 'key, 'time, 'resp, 'meta) proxy_env" and sel :: "'lb select_with"
    and K :: "('be, 'pe, 'meta, 'key) codec" and IO :: "('w, 'pool, 'conn, 'ce, 're) redis_io"
    and stored :: "'w \<Rightarrow> 'pool \<Rightarrow> bytes \<rightharpoonup> bytes" where
  arrive: "\<not> cache_enabled (pg E) s0 \<Longrightarrow>
     serve_step E sel K IO stored st (st\<lparr>requests := requests st @ [arrived s0]\<rparr>)"
| advance: "i < length (requests st) \<Longrightarrow> quiet_step E (requests st ! i) r' \<Longrightarrow>
     serve_step E sel K IO stored st (st\<lparr>requests := (requests st)[i := r']\<rparr>)"
| looked_up: "i < length (requests st) \<Longrightarrow> phase (requests st ! i) = Lookup \<Longrightarrow> x_key (rcache (requests st ! i)) = Some key \<Longrightarrow>
     lookup sel K IO R key (outside st) = (Returns x, w') \<Longrightarrow> request_step E (requests st ! i) r' \<Longrightarrow>
     answers E x (requests st ! i) r' \<Longrightarrow>
     serve_step E sel K IO stored st (st\<lparr>outside := w', requests := (requests st)[i := r']\<rparr>)"
| lookup_panic: "i < length (requests st) \<Longrightarrow> phase (requests st ! i) = Lookup \<Longrightarrow> x_key (rcache (requests st ! i)) = Some key \<Longrightarrow>
     lookup sel K IO R key (outside st) = (Panic, w') \<Longrightarrow>
     serve_step E sel K IO stored st (st\<lparr>outside := w', requests := (requests st)[i := (requests st ! i)\<lparr>phase := Panicked\<rparr>]\<rparr>)"
| finished: "i < length (requests st) \<Longrightarrow> request_step E (requests st ! i) r' \<Longrightarrow>
     phase r' = Served e \<Longrightarrow> cache_enabled (pg E) (session r') \<Longrightarrow> x_key (rcache r') = Some key \<Longrightarrow> x_meta (rcache r') = Some meta \<Longrightarrow>
     store_entry sel K IO R key meta (x_chunks (rcache r')) (outside st) = (Returns x, w') \<Longrightarrow>
     serve_step E sel K IO stored st (st\<lparr>outside := w', requests := (requests st)[i := r']\<rparr>)"
| finish_panic: "i < length (requests st) \<Longrightarrow> request_step E (requests st ! i) r' \<Longrightarrow>
     phase r' = Served e \<Longrightarrow> cache_enabled (pg E) (session r') \<Longrightarrow> x_key (rcache r') = Some key \<Longrightarrow> x_meta (rcache r') = Some meta \<Longrightarrow>
     store_entry sel K IO R key meta (x_chunks (rcache r')) (outside st) = (Panic, w') \<Longrightarrow>
     serve_step E sel K IO stored st (st\<lparr>outside := w', requests := (requests st)[i := r'\<lparr>phase := Panicked\<rparr>]\<rparr>)"
| evicted: "(\<And>p. stored w' p \<subseteq>\<^sub>m stored (outside st) p) \<Longrightarrow>
     serve_step E sel K IO stored st (st\<lparr>outside := w'\<rparr>)"

section \<open>The invariant\<close>

text \<open>What an upstream answered a request with, to be stored under the hash of the request's key.\<close>

definition upstream_answer ::
    "('pe, 'h, 'rh, 'ses, 'tc, 'md, 'key, 'time, 'resp, 'meta) proxy_env \<Rightarrow> ('be, 'pe, 'meta, 'key) codec
      \<Rightarrow> ('tc, 'md, 'h, 'ses, 'key, 'meta) request \<Rightarrow> bytes \<Rightarrow> 'meta \<Rightarrow> bytes \<Rightarrow> bool" where
  "upstream_answer E K q k meta body \<longleftrightarrow>
     (\<exists>key m c e. x_key (rcache q) = Some key \<and> primary_bin K key = k
        \<and> x_meta (rcache q) = Some meta \<and> fresh_meta E meta \<and> body = concat (map fst (x_chunks (rcache q)))
        \<and> grpc_meta (rctx q) = Some m \<and> cacheable m = Some c
        \<and> (phase q = Served e \<or> phase q = Logged (Served e))
        \<and> (e = HeaderEnd \<and> body = [] \<or> (\<exists>t. e = TrailersEnd t \<and> ok_trailers (hm E) t)))"

definition answered_in ::
    "('pe, 'h, 'rh, 'ses, 'tc, 'md, 'key, 'time, 'resp, 'meta) proxy_env \<Rightarrow> ('be, 'pe, 'meta, 'key) codec
      \<Rightarrow> ('tc, 'md, 'h, 'ses, 'key, 'meta) request list \<Rightarrow> bytes \<Rightarrow> 'meta \<Rightarrow> bytes \<Rightarrow> bool" where
  "answered_in E K rs k meta body \<longleftrightarrow> (\<exists>q \<in> set rs. upstream_answer E K q k meta body)"

definition request_sound ::
    "('pe, 'h, 'rh, 'ses, 'tc, 'md, 'key, 'time, 'resp, 'meta) proxy_env \<Rightarrow> ('tc, 'md, 'h, 'ses, 'key, 'meta) request \<Rightarrow> bool" where
  "request_sound E r \<longleftrightarrow> phase r = Panicked
     \<or> (\<exists>s0. \<not> cache_enabled (pg E) s0 \<and> request_invar E s0 r) \<and> exchange_invar E r"

definition hit_sound ::
    "('pe, 'h, 'rh, 'ses, 'tc, 'md, 'key, 'time, 'resp, 'meta) proxy_env \<Rightarrow> ('be, 'pe, 'meta, 'key) codec
      \<Rightarrow> ('tc, 'md, 'h, 'ses, 'key, 'meta) request list \<Rightarrow> ('tc, 'md, 'h, 'ses, 'key, 'meta) request \<Rightarrow> bool" where
  "hit_sound E K rs r \<longleftrightarrow> (\<forall>m hit. x_hit (rcache r) = Some (m, hit) \<longrightarrow>
     (\<exists>key. x_key (rcache r) = Some key \<and> answered_in E K rs (primary_bin K key) m (hit_data hit)))"

definition serve_invar ::
    "('pe, 'h, 'rh, 'ses, 'tc, 'md, 'key, 'time, 'resp, 'meta) proxy_env \<Rightarrow> ('be, 'pe, 'meta, 'key) codec
      \<Rightarrow> ('w \<Rightarrow> 'pool \<Rightarrow> bytes \<rightharpoonup> bytes) \<Rightarrow> ('w, ('tc, 'md, 'h, 'ses, 'key, 'meta) request) serving \<Rightarrow> bool" where
  "serve_invar E K stored st \<longleftrightarrow>
     (\<forall>k m b. redis_holds K stored (outside st) k m b \<longrightarrow> answered_in E K (requests st) k m b)
     \<and> (\<forall>r \<in> set (requests st). request_sound E r \<and> hit_sound E K (requests st) r)"

lemma request_sound_step:
  assumes "env_laws E" and "request_sound E r" and "request_step E r r'"
  shows "request_sound E r'"
proof (cases "phase r = Panicked")
  case True
  with assms(3) show ?thesis by cases simp_all
next
  case False
  then obtain s0 where s0: "\<not> cache_enabled (pg E) s0" "request_invar E s0 r" "exchange_invar E r"
    using assms(2) by (auto simp: request_sound_def)
  have "exchange_invar E r'" by (rule exchange_invar_step [OF _ assms(3) s0(3)]) (use assms(1) in \<open>simp add: env_laws_def\<close>)
  with request_invar_step [OF assms(1) s0(1) assms(3) s0(2)] s0(1) show ?thesis unfolding request_sound_def by blast
qed

lemma upstream_answer_step:
  assumes "upstream_answer E K q k m b" and "request_step E q q'"
  shows "upstream_answer E K q' k m b"
proof -
  obtain e where "phase q = Served e \<or> phase q = Logged (Served e)"
    using assms(1) unfolding upstream_answer_def by blast
  with assms(2) have "phase q = Served e" "phase q' = Logged (Served e)" "rcache q' = rcache q"
    "grpc_meta (rctx q') = grpc_meta (rctx q)"
    by (cases, auto simp: logging_def)+
  with assms(1) show ?thesis unfolding upstream_answer_def by auto
qed

text \<open>A response that was just completed and is to be stored is an upstream's answer.\<close>

lemma upstream_answer_served:
  assumes "request_sound E q" and "phase q = Served e" and "cache_enabled (pg E) (session q)"
    and "x_key (rcache q) = Some key" and "x_meta (rcache q) = Some m"
  shows "upstream_answer E K q (primary_bin K key) m (concat (map fst (x_chunks (rcache q))))"
  using assms by (auto simp: request_sound_def upstream_answer_def request_invar_def exchange_invar_def routed_def)

lemma answered_in_mono: "answered_in E K rs k m b \<Longrightarrow> set rs \<subseteq> set rs' \<Longrightarrow> answered_in E K rs' k m b"
  by (auto simp: answered_in_def)

lemma answered_in_update:
  assumes "answered_in E K rs k m b" and "i < length rs"
    and kept: "\<And>k m b. upstream_answer E K (rs ! i) k m b \<Longrightarrow> upstream_answer E K r' k m b"
  shows "answered_in E K (rs[i := r']) k m b"
proof -
  obtain j where j: "j < length rs" "upstream_answer E K (rs ! j) k m b"
    using assms(1) unfolding answered_in_def by (metis in_set_conv_nth)
  then have "upstream_answer E K (rs[i := r'] ! j) k m b" using kept by (cases "j = i") simp_all
  then show ?thesis using j(1) unfolding answered_in_def by (metis length_list_update nth_mem)
qed

text \<open>The invariant after a step of one request.\<close>

lemma serve_invar_update:
  assumes inv: "serve_invar E K stored st" and i: "i < length (requests st)" and r': "request_sound E r'"
    and kept: "\<And>k m b. upstream_answer E K (requests st ! i) k m b \<Longrightarrow> upstream_answer E K r' k m b"
    and held: "\<And>k m b. redis_holds K stored w' k m b \<Longrightarrow>
      redis_holds K stored (outside st) k m b \<or> upstream_answer E K r' k m b"
    and hit: "hit_sound E K (requests st) r'"
  shows "serve_invar E K stored (st\<lparr>outside := w', requests := (requests st)[i := r']\<rparr>)"
proof -
  let ?rs = "(requests st)[i := r']"
  have mono: "answered_in E K ?rs k m b" if "answered_in E K (requests st) k m b" for k m b
    by (rule answered_in_update [OF that i kept])
  have mem: "r' \<in> set ?rs" using i by (rule set_update_memI)
  have "answered_in E K ?rs k m b" if "redis_holds K stored w' k m b" for k m b
    using held [OF that] inv mono mem unfolding serve_invar_def answered_in_def by blast
  moreover have "request_sound E r \<and> hit_sound E K ?rs r" if "r \<in> set ?rs" for r
  proof -
    have "request_sound E r \<and> hit_sound E K (requests st) r"
      using that set_update_subset_insert [of "requests st" i r'] inv r' hit unfolding serve_invar_def by blast
    then show ?thesis using mono unfolding hit_sound_def by blast
  qed
  ultimately show ?thesis unfolding serve_invar_def by simp
qed

text \<open>A request gets its entry from a lookup, and its key before that.\<close>

lemma hit_frame:
  assumes "request_step E r r'" and "phase r \<noteq> Lookup" and "request_sound E r" and "x_hit (rcache r') = Some y"
  shows "x_hit (rcache r) = Some y \<and> x_key (rcache r') = x_key (rcache r)"
proof (cases "phase r = Keying")
  case True
  with assms(3) have "x_hit (rcache r) = None" by (auto simp: request_sound_def exchange_invar_def)
  with assms(1,4) True show ?thesis by cases auto
next
  case False
  with assms(1,2,4) show ?thesis by cases (auto split: if_splits)
qed

lemma hit_sound_kept:
  assumes "request_step E r r'" and "phase r \<noteq> Lookup" and "request_sound E r" and "hit_sound E K rs r"
  shows "hit_sound E K rs r'"
  using hit_frame [OF assms(1-3)] assms(4) unfolding hit_sound_def by auto

lemma lookup_step_frame:
  assumes "request_step E r r'" and "phase r = Lookup"
  shows "x_key (rcache r') = x_key (rcache r)"
  using assms by cases auto

lemma unanswered:
  "phase q = Lookup \<Longrightarrow> \<not> upstream_answer E K q k m b"
  "request_step E q q' \<Longrightarrow> phase q' = Served e \<Longrightarrow> \<not> upstream_answer E K q k m b \<and> phase q \<noteq> Lookup"
  by (auto simp: upstream_answer_def elim: request_step.cases)

lemma serve_invar_arrive:
  assumes inv: "serve_invar E K stored st" and "\<not> cache_enabled (pg E) s0"
  shows "serve_invar E K stored (st\<lparr>requests := requests st @ [arrived s0]\<rparr>)"
proof -
  have "request_sound E (arrived s0)" "hit_sound E K rs (arrived s0)" for rs
    using assms(2) exchange_invar_arrived [of E s0]
    by (auto simp: request_sound_def hit_sound_def request_invar_def arrived_def new_ctx_def no_exchange_def)
  with inv show ?thesis unfolding serve_invar_def by (fastforce simp: hit_sound_def intro: answered_in_mono)
qed

text \<open>What the storage returns to a lookup was an upstream's answer.\<close>

lemma hit_sound_lookup:
  assumes laws: "codec_laws K \<and> redis_laws IO pool_of stored \<and> redis_frame IO pool_of stored"
    and inv: "serve_invar E K stored st" and "lookup sel K IO R key (outside st) = (Returns x, w')"
    and "request_step E r r'" and "phase r = Lookup" and key: "x_key (rcache r) = Some key" and ans: "answers E x r r'"
    and "hit_sound E K (requests st) r"
  shows "hit_sound E K (requests st) r'"
proof (cases "\<exists>m hit. x = Inr (Some (m, hit))")
  case True
  then obtain m hit where x: "x = Inr (Some (m, hit))" by blast
  have "redis_holds K stored (outside st) (primary_bin K key) m (hit_data hit)"
    by (rule rs.lookup_holds [OF laws assms(3) [unfolded x]])
  with ans key lookup_step_frame [OF assms(4,5)] inv show ?thesis by (simp add: x answers_def hit_sound_def serve_invar_def)
next
  case False
  then have "rcache r' = rcache r" using ans by (auto simp: answers_def split: sum.splits option.splits)
  with assms(8) show ?thesis by (simp add: hit_sound_def)
qed

lemma serve_invar_step:
  assumes env: "env_laws E" and laws: "codec_laws K \<and> redis_laws IO pool_of stored \<and> redis_frame IO pool_of stored"
    and inv: "serve_invar E K stored st" and step: "serve_step E sel K IO stored st st'"
  shows "serve_invar E K stored st'"
proof -
  have at: "request_sound E (requests st ! i)" "hit_sound E K (requests st) (requests st ! i)" if "i < length (requests st)" for i
    using inv that by (simp_all add: serve_invar_def)
  show ?thesis
    using step
  proof cases
    case (arrive s0)
    with inv show ?thesis by (simp add: serve_invar_arrive)
  next
    case (advance i r')
    have r': "request_step E (requests st ! i) r'" "phase (requests st ! i) \<noteq> Lookup" using advance(3) by (simp_all add: quiet_step_def)
    from serve_invar_update [where w' = "outside st", OF inv advance(2) request_sound_step [OF env at(1) r'(1)]
        upstream_answer_step [OF _ r'(1)] _ hit_sound_kept [OF r' at]] advance(2)
    show ?thesis unfolding advance(1) by simp
  next
    case (looked_up i key R x w' r')
    show ?thesis unfolding looked_up(1)
      by (intro serve_invar_update inv looked_up(2) request_sound_step [OF env at(1) looked_up(6)]
          hit_sound_lookup [OF laws inv looked_up(5,6,3,4,7) at(2)])
        (use unanswered(1) [OF looked_up(3), of E K] looked_up(2) rs.lookup_frame [OF laws looked_up(5)] in auto)
  next
    case (lookup_panic i key R w')
    show ?thesis unfolding lookup_panic(1)
      by (intro serve_invar_update inv lookup_panic(2))
        (use unanswered(1) [OF lookup_panic(3), of E K] at(2) [OF lookup_panic(2)] rs.lookup_frame [OF laws lookup_panic(5)] in
          \<open>auto simp: request_sound_def hit_sound_def\<close>)
  next
    case (finished i r' e key meta R x w')
    note u = unanswered(2) [OF finished(3,4), of K]
    have r': "request_sound E r'" by (rule request_sound_step [OF env at(1) [OF finished(2)] finished(3)])
    have "redis_holds K stored (outside st) k m b \<or> upstream_answer E K r' k m b" if "redis_holds K stored w' k m b" for k m b
      using rs.store_adds [OF laws finished(8) that] upstream_answer_served [OF r' finished(4-7), of K] by auto
    then show ?thesis unfolding finished(1)
      by (intro serve_invar_update inv finished(2) r' hit_sound_kept [OF finished(3) _ at]) (use u finished(2) in auto)
  next
    case (finish_panic i r' e key meta R w')
    note u = unanswered(2) [OF finish_panic(3,4), of K]
    have "hit_sound E K (requests st) r'" by (rule hit_sound_kept [OF finish_panic(3) _ at]) (use u finish_panic(2) in auto)
    then show ?thesis unfolding finish_panic(1)
      by (intro serve_invar_update inv finish_panic(2))
        (use u rs.store_panic [OF laws finish_panic(8)] in \<open>auto simp: request_sound_def hit_sound_def\<close>)
  next
    case (evicted w')
    have "redis_holds K stored (outside st) k m b" if "redis_holds K stored w' k m b" for k m b
      using evicted(2) that by (rule redis_holds_mono)
    with inv show ?thesis unfolding evicted(1) serve_invar_def by simp
  qed
qed

interpretation serve: invariant_system
  "\<lambda>st. (\<forall>p. stored (outside st) p = Map.empty) \<and> requests st = []" "serve_step E sel K IO stored"
  "\<lambda>st. env_laws E \<and> codec_laws K \<and> redis_laws IO pool_of stored \<and> redis_frame IO pool_of stored \<longrightarrow> serve_invar E K stored st"
  for E :: "('pe, 'h, 'rh, 'ses, 'tc, 'md, 'key, 'time, 'resp, 'meta) proxy_env" and sel :: "'lb select_with"
    and K :: "('be, 'pe, 'meta, 'key) codec" and IO :: "('w, 'pool, 'conn, 'ce, 're) redis_io" and pool_of stored
  by standard (simp add: serve_invar_def redis_holds_def, blast intro: serve_invar_step)

section \<open>Properties\<close>

text \<open>C11. A response from the cache is an earlier response of an upstream: starting from empty replicas, with any
  number of requests interleaved with each other, with failing commands and with lost entries, when a request is
  answered from the cache, at once, after a revalidation or because the upstream failed, its metadata are those, and
  every \<open>read_body\<close> of the hit handler returns the whole body, of the response with which an upstream answered
  another request with the same key hash, for a method with a positive time to live; and that response ended
  with gRPC status zero in its trailers, or had a header only; the metadata were made of a response header, to be
  fresh for a minute.\<close>

theorem hits_are_upstream_responses:
  fixes E :: "('pe, 'h, 'rh, 'ses, 'tc, 'md, 'key, 'time, 'resp, 'meta) proxy_env"
  assumes "env_laws E" and "codec_laws K" and "redis_laws IO pool_of stored" and "redis_frame IO pool_of stored"
    and "\<And>p. stored w0 p = Map.empty"
    and "(serve_step E sel K IO stored)\<^sup>*\<^sup>* \<lparr>outside = w0, requests = []\<rparr> st"
    and "r \<in> set (requests st)" and "phase r = HitServed \<or> phase r = Logged HitServed"
  shows "\<exists>q \<in> set (requests st). \<exists>key key' meta hit body m c e.
    x_hit (rcache r) = Some (meta, hit) \<and> (read_body hit :: ('pe + bytes option) \<times> RedisCacheHit) = (Inr (Some body), hit)
    \<and> x_meta (rcache q) = Some meta \<and> fresh_meta E meta \<and> body = concat (map fst (x_chunks (rcache q)))
    \<and> x_key (rcache r) = Some key \<and> x_key (rcache q) = Some key' \<and> primary_bin K key' = primary_bin K key
    \<and> grpc_meta (rctx q) = Some m \<and> cacheable m = Some c \<and> 0 < sint (cache_ttl (descriptor c))
    \<and> (phase q = Served e \<or> phase q = Logged (Served e))
    \<and> (e = HeaderEnd \<and> body = [] \<or> (\<exists>t status. e = TrailersEnd t \<and> GrpcStatus_parse (hm E) t = Inr status \<and> is_ok status))"
proof -
  have inv: "serve_invar E K stored st"
    using serve.invar_reachable [where pool_of = pool_of, OF _ assms(6)] assms(1-5) by simp
  then have "request_sound E r" "hit_sound E K (requests st) r" using assms(7) by (simp_all add: serve_invar_def)
  moreover from this(1) assms(8) obtain meta hit where h: "x_hit (rcache r) = Some (meta, hit)"
    by (auto simp: request_sound_def exchange_invar_def)
  ultimately obtain key q where q: "x_key (rcache r) = Some key" "q \<in> set (requests st)"
    "upstream_answer E K q (primary_bin K key) meta (hit_data hit)"
    unfolding hit_sound_def answered_in_def by blast
  from q(3) obtain key' m c e where "x_key (rcache q) = Some key'" "primary_bin K key' = primary_bin K key"
    "x_meta (rcache q) = Some meta" "fresh_meta E meta" "hit_data hit = concat (map fst (x_chunks (rcache q)))"
    "grpc_meta (rctx q) = Some m" "cacheable m = Some c" "phase q = Served e \<or> phase q = Logged (Served e)"
    "e = HeaderEnd \<and> hit_data hit = [] \<or> (\<exists>t. e = TrailersEnd t \<and> ok_trailers (hm E) t)"
    unfolding upstream_answer_def by (elim exE conjE) (rule that; assumption)
  with h q(1,2) show ?thesis
    by (intro bexI [OF _ q(2)] exI [of _ key] exI [of _ key'] exI [of _ meta] exI [of _ hit] exI [of _ "hit_data hit"]
        exI [of _ m] exI [of _ c] exI [of _ e]) (auto simp: read_body_def cacheable_Some)
qed

lemma demo_redis_laws: "codec_laws demo_codec" "redis_laws demo_io (\<lambda>c. c) (\<lambda>w. w)" "redis_frame demo_io (\<lambda>c. c) (\<lambda>w. w)"
  by (auto simp: codec_laws_def demo_codec_def redis_laws_def redis_frame_def demo_io_def split: if_splits)

text \<open>The runs of one request are runs of the whole.\<close>

lemma advance_run:
  assumes "(quiet_step E)\<^sup>*\<^sup>* r r'" and "i < length (requests st)" and "requests st ! i = r"
  shows "(serve_step E sel K IO stored)\<^sup>*\<^sup>* st (st\<lparr>requests := (requests st)[i := r']\<rparr>)"
  using assms(1)
proof (induction rule: rtranclp_induct)
  case base
  have "st\<lparr>requests := (requests st)[i := r]\<rparr> = st" using assms(3) by auto
  then show ?case by simp
next
  case (step q q')
  have "serve_step E sel K IO stored (st\<lparr>requests := (requests st)[i := q]\<rparr>) (st\<lparr>requests := (requests st)[i := q']\<rparr>)"
    using advance [of i "st\<lparr>requests := (requests st)[i := q]\<rparr>" E q'] step(2) assms(2) by simp
  with step(3) show ?case by (rule rtranclp.rtrancl_into_rtrancl)
qed

abbreviation demo_serve where
  "demo_serve \<equiv> serve_step demo_env demo_select demo_codec demo_io (\<lambda>w. w)"

text \<open>A request arrives and gets a key.\<close>

lemma demo_arrival:
  obtains s c k where
    "\<And>st. demo_serve\<^sup>*\<^sup>* st (st\<lparr>requests := requests st @
       [\<lparr>phase = Lookup, session = s, rctx = c, rcache = no_exchange\<lparr>x_key := Some k\<rparr>\<rparr>]\<rparr>)"
    "cache_enabled demo_pingora s" "routed c" "do_cache c"
proof -
  obtain s c k where a: "(quiet_step demo_env)\<^sup>*\<^sup>* (arrived demo_request)
      \<lparr>phase = Lookup, session = s, rctx = c, rcache = no_exchange\<lparr>x_key := Some k\<rparr>\<rparr>"
    "cache_enabled demo_pingora s" "routed c" "do_cache c" by (rule demo_keyed)
  have "demo_serve\<^sup>*\<^sup>* st (st\<lparr>requests := requests st @
      [\<lparr>phase = Lookup, session = s, rctx = c, rcache = no_exchange\<lparr>x_key := Some k\<rparr>\<rparr>]\<rparr>)" for st
  proof -
    let ?st = "st\<lparr>requests := requests st @ [arrived demo_request]\<rparr>"
    have "demo_serve st ?st" by (rule arrive) (rule demo_env_laws)+
    moreover have "demo_serve\<^sup>*\<^sup>* ?st (?st\<lparr>requests := (requests ?st)[length (requests st) :=
        \<lparr>phase = Lookup, session = s, rctx = c, rcache = no_exchange\<lparr>x_key := Some k\<rparr>\<rparr>]\<rparr>)"
      by (rule advance_run [OF a(1)]) simp_all
    ultimately show ?thesis by (simp add: converse_rtranclp_into_rtranclp)
  qed
  with a(2-4) show ?thesis by (intro that) blast+
qed

text \<open>Two requests with the same key: the first one is answered by the upstream, the second one from the cache.\<close>

lemma demo_two_requests:
  obtains st r where "demo_serve\<^sup>*\<^sup>* \<lparr>outside = (\<lambda>_. Map.empty), requests = []\<rparr> st" "r \<in> set (requests st)"
    "phase r = HitServed" "x_hit (rcache r) = Some ((), \<lparr>hit_data = ''abc''\<rparr>)"
proof -
  obtain s c k where a: "\<And>st. demo_serve\<^sup>*\<^sup>* st (st\<lparr>requests := requests st @
      [\<lparr>phase = Lookup, session = s, rctx = c, rcache = no_exchange\<lparr>x_key := Some k\<rparr>\<rparr>]\<rparr>)"
    "cache_enabled demo_pingora s" "routed c" "do_cache c" using demo_arrival by metis
  let ?x = "no_exchange\<lparr>x_key := Some k\<rparr> :: (bytes, unit) exchange"
  let ?l = "\<lparr>phase = Lookup, session = s, rctx = c, rcache = ?x\<rparr>" and ?e = "(\<lambda>_. Map.empty) :: nat \<Rightarrow> bytes \<rightharpoonup> bytes"
  let ?c = "\<lparr>phase = Connecting, session = s, rctx = c, rcache = ?x\<rparr>"
  obtain r r' where b: "(quiet_step demo_env)\<^sup>*\<^sup>* ?c r" "request_step demo_env r r'"
    "phase r = Receiving" "phase r' = Served (TrailersEnd demo_trailers)" "cache_enabled demo_pingora (session r')"
    "rcache r' = ?x\<lparr>x_meta := Some (), x_chunks := x_chunks ?x @ [(''abc'', False)]\<rparr>"
    using demo_answered [OF a(2,3), of ?x] by metis
  let ?w = "?e(7 := [k \<mapsto> CHR 0x00 # ''abc''])"
  have l: "lookup demo_select demo_codec demo_io demo_pools k ?e = (Returns (Inr None), ?e)"
    "lookup demo_select demo_codec demo_io demo_pools k ?w = (Returns (Inr (Some ((), \<lparr>hit_data = ''abc''\<rparr>))), ?w)"
    by (simp_all add: lookup_def demo_pool) (simp_all add: demo_io_def demo_codec_def)
  have f: "store_entry demo_select demo_codec demo_io demo_pools k () (x_chunks (rcache r')) ?e = (Returns (Inr 4), ?w)"
    by (simp add: b(6) no_exchange_def store_entry_def get_miss_handler_def demo_codec_def)
      (simp add: miss_finish_def write_body_def demo_pool [unfolded demo_codec_def, simplified] demo_io_def)
  have "demo_serve \<lparr>outside = ?e, requests = [?l]\<rparr> \<lparr>outside = ?e, requests = [?c]\<rparr>"
    using looked_up [of 0 "\<lparr>outside = ?e, requests = [?l]\<rparr>" k demo_select demo_codec demo_io demo_pools "Inr None" ?e demo_env ?c]
      l(1) miss [of demo_env s c ?x] by (simp add: answers_def)
  moreover have "demo_serve\<^sup>*\<^sup>* \<lparr>outside = ?e, requests = [?c]\<rparr> \<lparr>outside = ?e, requests = [r]\<rparr>"
    using advance_run [OF b(1), of 0 "\<lparr>outside = ?e, requests = [?c]\<rparr>"] by simp
  moreover have "demo_serve \<lparr>outside = ?e, requests = [r]\<rparr> \<lparr>outside = ?w, requests = [r']\<rparr>"
    using finished [of 0 "\<lparr>outside = ?e, requests = [r]\<rparr>" demo_env r' _ k "()" demo_select demo_codec demo_io demo_pools "Inr 4" ?w]
      b(2-6) f by (simp add: demo_env_parts)
  moreover obtain r2 where r2: "request_step demo_env ?l r2" "phase r2 = HitServed" "x_hit (rcache r2) = Some ((), \<lparr>hit_data = ''abc''\<rparr>)" "session r2 = session ?l"
  proof -
    obtain y c' where "cache_hit_filter 0 c = (Returns y, c')" using routed_hit [OF a(3,4)] by blast
    from that [OF hit [OF this, of demo_env s ?x "((), \<lparr>hit_data = ''abc''\<rparr>)"]] show ?thesis by simp
  qed
  moreover have "demo_serve \<lparr>outside = ?w, requests = [r', ?l]\<rparr> \<lparr>outside = ?w, requests = [r', r2]\<rparr>"
    using looked_up [of 1 "\<lparr>outside = ?w, requests = [r', ?l]\<rparr>" k demo_select demo_codec demo_io demo_pools _ ?w demo_env r2]
      l(2) r2 by (simp add: answers_def)
  ultimately have "demo_serve\<^sup>*\<^sup>* \<lparr>outside = ?e, requests = []\<rparr> \<lparr>outside = ?w, requests = [r', r2]\<rparr>"
    using a(1) [of "\<lparr>outside = ?e, requests = []\<rparr>"] a(1) [of "\<lparr>outside = ?w, requests = [r']\<rparr>"]
    by simp
  from that [OF this, of r2] r2(2,3) show ?thesis by simp
qed

theorem hits_are_upstream_responses_witness:
  "\<exists>st. \<exists>r \<in> set (requests st). \<exists>q \<in> set (requests st). demo_serve\<^sup>*\<^sup>* \<lparr>outside = (\<lambda>_. Map.empty), requests = []\<rparr> st
     \<and> x_hit (rcache r) = Some ((), \<lparr>hit_data = ''abc''\<rparr>) \<and> concat (map fst (x_chunks (rcache q))) = ''abc''"
proof -
  obtain st r where r: "demo_serve\<^sup>*\<^sup>* \<lparr>outside = (\<lambda>_. Map.empty), requests = []\<rparr> st" "r \<in> set (requests st)"
    "phase r = HitServed" "x_hit (rcache r) = Some ((), \<lparr>hit_data = ''abc''\<rparr>)" by (rule demo_two_requests)
  obtain q where "q \<in> set (requests st)" "concat (map fst (x_chunks (rcache q))) = ''abc''"
  proof -
    from hits_are_upstream_responses [OF demo_env_laws(1) demo_redis_laws _ r(1,2) disjI1 [OF r(3)]]
    obtain q meta hit body where "q \<in> set (requests st)" "x_hit (rcache r) = Some (meta, hit)"
      "(read_body hit :: (unit + bytes option) \<times> RedisCacheHit) = (Inr (Some body), hit)"
      "body = concat (map fst (x_chunks (rcache q)))" by blast
    with that [of q] r(4) show thesis by (simp add: read_body_def)
  qed
  with r(1,2,4) show ?thesis by auto
qed

text \<open>C38. Calls with different messages share a cache entry: although the bodies of two calls are hashed, calls with
  the same request header get the same cache key, so the response stored for the one is what a lookup
  for the other finds, whatever the two messages are.\<close>

theorem calls_share_entries:
  assumes "routed c" and "routed c'" and "get_retry_buffer PG s = Some message" and "get_retry_buffer PG s' = Some message'"
    and "req_header PG s = req_header PG s'"
    and "codec_laws K" and "redis_laws IO pool_of stored" and "redis_up IO"
    and "default_key (req_header PG s) = key" and "pool_for_hash sel R (primary_bin K key) = Some p"
    and "get_miss_handler K key meta = Inr m"
    and "bincode_serialize K \<lparr>cache_meta = miss_meta m, cd_data = concat (map fst chunks)\<rparr> = Inr bs"
  shows "\<exists>k w1 w2. cache_key_callback PG H key_of_hash default_key s c = Returns k
    \<and> cache_key_callback PG H key_of_hash default_key s' c' = Returns k
    \<and> store_entry sel K IO R k meta chunks w = (Returns (Inr (of_nat (Suc (length bs)))), w1)
    \<and> lookup sel K IO R k w1 = (Returns (Inr (Some (meta, \<lparr>hit_data = concat (map fst chunks)\<rparr>))), w2)"
proof -
  have k: "cache_key_callback PG H key_of_hash default_key s c = Returns key"
    "cache_key_callback PG H key_of_hash default_key s' c' = Returns key"
    using routed_key [OF assms(1), of PG H key_of_hash default_key s]
      routed_key [OF assms(2), of PG H key_of_hash default_key s'] assms(3-5,9) by simp_all
  obtain w1 w2 where "store_entry sel K IO R key meta chunks w = (Returns (Inr (of_nat (Suc (length bs)))), w1)"
    "lookup sel K IO R key w1 = (Returns (Inr (Some (meta, \<lparr>hit_data = concat (map fst chunks)\<rparr>))), w2)"
    using stored_entry_found [OF assms(6-8,11,10,12), of w] by blast
  with k show ?thesis by blast
qed

theorem calls_share_entries_witness:
  "\<exists>k w1 w2. cache_key_callback demo_pingora demo_headers (\<lambda>h. h) fst (demo_request\<lparr>ds_buffer := Some ''one''\<rparr>) (demo_ctx\<lparr>do_cache := True\<rparr>) = Returns k
     \<and> cache_key_callback demo_pingora demo_headers (\<lambda>h. h) fst (demo_request\<lparr>ds_buffer := Some ''two''\<rparr>) (demo_ctx\<lparr>do_cache := True\<rparr>) = Returns k
     \<and> lookup demo_select demo_codec demo_io demo_pools k w1 = (Returns (Inr (Some ((), \<lparr>hit_data = ''abc''\<rparr>))), w2)"
proof -
  let ?one = "demo_request\<lparr>ds_buffer := Some ''one''\<rparr>" and ?two = "demo_request\<lparr>ds_buffer := Some ''two''\<rparr>"
  have c: "routed (demo_ctx\<lparr>do_cache := True\<rparr>)"
    by (simp add: routed_def demo_ctx_def demo_data_def cacheable_def method_spec_def)
  have s: "get_retry_buffer demo_pingora ?one = Some ''one''" "get_retry_buffer demo_pingora ?two = Some ''two''"
    "req_header demo_pingora ?one = req_header demo_pingora ?two" by (simp_all add: demo_pingora_def)
  have m: "get_miss_handler demo_codec (fst (req_header demo_pingora ?one)) ()
      = Inr \<lparr>miss_meta = ([], []), miss_hash = fst (req_header demo_pingora ?one), miss_value = []\<rparr>"
    and b: "bincode_serialize demo_codec \<lparr>cache_meta = miss_meta \<lparr>miss_meta = ([], []), miss_hash = fst (req_header demo_pingora ?one),
        miss_value = []\<rparr>, cd_data = concat (map fst [(''ab'', False), (''c'', True)])\<rparr> = Inr ''abc''"
    by (simp_all add: get_miss_handler_def demo_codec_def)
  from calls_share_entries [where default_key = fst and chunks = "[(''ab'', False), (''c'', True)]" and R = demo_pools
      and sel = demo_select and p = 7 and key_of_hash = "\<lambda>h. h" and H = demo_headers and w = "\<lambda>_. Map.empty",
      OF c c s demo_redis_laws(1,2) demo_redis_up refl demo_pool m b]
  show ?thesis by (simp, blast)
qed

end
