(* ===== verification/Startup.thy ===== *)
theory Startup
  imports Service_Routes Pool_Service
begin

text \<open>
  \<open>grcache-proxy/src/main.rs\<close>: \<open>main\<close>, the services that it sets up, and their composition while they run: the configuration service with its loading tasks and discovery, the readiness task
  and the pool service of the cache. Parsing the arguments and the configuration file, and the server
  itself, are library code. \<open>main\<close> creates the cache backend outside of any tokio runtime and so panics. The lemmas
  show this, and of the services being set up inside of a runtime, what the readiness signal means, that the pools
  follow discovery, that every handle in use is refreshed, and when one of them panics.
\<close>

section \<open>Set-up\<close>

text \<open>The readiness endpoints as \<open>main\<close> makes them: the root, then one for the configuration service, then
  one for the cache backend; the root reports once everything is set up.\<close>

definition main_endpoints :: world where
  "main_endpoints = world_add True (world_add True world_new)"

definition main_world :: world where
  "main_world = world_ready 0 main_endpoints"

text \<open>The command line, and reading the configuration file: opening and reading it, and the TOML parser, are
  parameters. Every failure is unwrapped.\<close>

datatype ProxyCommands = Proxy

record Args =
  args_config :: string
  args_command :: ProxyCommands



text \<open>What \<open>main\<close> has set up when it calls \<open>run_forever\<close>: the state of discovery and of readiness, the services,
  and the options of the listening server.\<close>

record ('md, 'lb, 'pool) server =
  srv_dns_service :: dns_service
  srv_dns :: "'lb dns_state"
  srv_health :: world
  srv_config :: "'md K8SConfigService"
  srv_cache :: "'pool RedisReplicasCacheBackend"
  srv_h2c :: bool
  srv_tcp :: "string list"

text \<open>Setting up the services for a cache backend. \<open>runtime\<close> says whether this happens inside a tokio runtime, which
  the cache backend needs to spawn its readiness task.\<close>

definition main_services :: "'lb load_balancing \<Rightarrow> bool \<Rightarrow> CacheBackend \<Rightarrow> ('md, 'lb, 'pool) server outcome" where
  "main_services LB runtime backend =
     (case backend of
        RedisReplicas hostname prt \<Rightarrow>
          (let (dns_service, dns_discovery) = dns_service_new;
               k8s_config_service = K8SConfigService_new 1;
               (redis_discovery, d) = backends_for_hostname LB hostname prt dns_discovery
           in bind_outcome (RedisReplicasCacheBackend_new runtime redis_discovery 2) (\<lambda>redis_cache.
             Returns \<lparr>srv_dns_service = dns_service, srv_dns = d, srv_health = main_world, srv_config = k8s_config_service,
               srv_cache = redis_cache, srv_h2c = True, srv_tcp = [''0.0.0.0:50052'']\<rparr>)))"


section \<open>Running\<close>

text \<open>The running proxy: the state of the configuration service, which holds the shared discovery and
  readiness state, the discovery handle of the redis replicas, the service that maintains their pools, and whether
  the task that waits for the discovery of the replicas still runs.\<close>

record ('m, 'md, 'lb, 'pool) app =
  config :: "('m, 'md, 'lb) config_state"
  redis :: nat
  cache_pools :: "'pool pool_service"
  awaiting_discovery :: bool

text \<open>The server starts the background services.\<close>

definition run_forever ::
    "unit option \<Rightarrow> ('md, 'lb, 'pool) server \<Rightarrow> ('m, 'md, 'lb, 'pool) app outcome" where
  "run_forever client srv =
     bind_outcome (dns_service_start (srv_dns_service srv)) (\<lambda>_.
     bind_outcome (K8SConfigService_start client (srv_config srv) (srv_dns srv) (srv_health srv)) (\<lambda>st.
       Returns \<lparr>config = st, redis = rb_backends (srv_cache srv), cache_pools = start_pools (srv_cache srv),
         awaiting_discovery = True\<rparr>))"

abbreviation redis_handle :: "('m, 'md, 'lb, 'pool) app \<Rightarrow> 'lb handle" where
  "redis_handle a \<equiv> handles (discovery (config a)) ! redis a"

text \<open>The discovered replicas.\<close>

abbreviation replicas :: "('m, 'md, 'lb, 'pool) app \<Rightarrow> Backend set" where
  "replicas a \<equiv> backends (redis_handle a)"

abbreviation redis_alive :: "('m, 'md, 'lb, 'pool) app \<Rightarrow> bool" where
  "redis_alive a \<equiv> sender_alive (discovery (config a)) (redis a)"

text \<open>What the pool service does next, where \<open>bs\<close> enumerates the watched set, in the order of the tree set that
  it iterates over.\<close>

definition pool_service_step ::
    "bool \<Rightarrow> (u32 \<times> u16 \<Rightarrow> 'pool option) \<Rightarrow> ('m, 'md, 'lb, 'pool) app \<Rightarrow> 'pool pool_service outcome option" where
  "pool_service_step info build a =
     pool_step info build (redis_alive a) (sorted_list_of_set (replicas a)) (cache_pools a)"

text \<open>Endpoint 1 is the configuration service's, endpoint 2 the cache's. The cache holds a reference to its
  discovery handle for ever. A step that changes the watched set of replicas notifies the pool service.\<close>

inductive app_step ::
    "('m GrcacheService \<Rightarrow> ObjectRef) \<Rightarrow> 'lb load_balancing \<Rightarrow> ('pe, 'fdp, 'fd, 'sd, 'md) protobuf
      \<Rightarrow> (u32 \<times> u16 \<Rightarrow> 'pool option) \<Rightarrow> bool \<Rightarrow> ('m, 'md, 'lb, 'pool) app \<Rightarrow> ('m, 'md, 'lb, 'pool) app \<Rightarrow> bool"
  for from_obj :: "'m GrcacheService \<Rightarrow> ObjectRef" and LB :: "'lb load_balancing"
    and P :: "('pe, 'fdp, 'fd, 'sd, 'md) protobuf" and build :: "u32 \<times> u16 \<Rightarrow> 'pool option" and info :: bool where
  config_service: "config_step from_obj LB 1 P ev (config a) st \<Longrightarrow> clients (handles (discovery st) ! redis a) > 0 \<Longrightarrow>
     app_step from_obj LB P build info a
       (a\<lparr>config := st, cache_pools := sent (replicas a) (backends (handles (discovery st) ! redis a)) (cache_pools a)\<rparr>)"
| redis_ready: "awaiting_discovery a \<Longrightarrow>
     readiness_task (redis_handle a) (redis_alive a) 2 (health (config a)) = Some (Returns w) \<Longrightarrow>
     app_step from_obj LB P build info a (a\<lparr>config := (config a)\<lparr>health := w\<rparr>, awaiting_discovery := False\<rparr>)"
| redis_service: "pool_service_step info build a = Some (Returns ps) \<Longrightarrow>
     app_step from_obj LB P build info a (a\<lparr>cache_pools := ps\<rparr>)"

section \<open>Lemmas\<close>

lemma main_world_reachable: "health_step\<^sup>*\<^sup>* world_new main_world"
proof -
  have "health_step\<^sup>*\<^sup>* world_new main_endpoints"
    unfolding main_endpoints_def
    by (meson world_add_step converse_rtranclp_into_rtranclp r_into_rtranclp)
  moreover have "health_step\<^sup>*\<^sup>* main_endpoints main_world"
    unfolding main_world_def
    by (rule world_ready_run) (simp add: main_endpoints_def world_add_def world_new_def Health_add_def)
  ultimately show ?thesis by (rule rtranclp_trans)
qed

lemma main_world_state:
  "endpoints main_world = [False, True, True]" "calls main_world = [CallDone]" "\<not> ready (shared main_world)"
  by (simp_all add: main_world_def main_endpoints_def world_ready_def world_add_def world_new_def
      Health_new_def Health_add_def HealthEndpoint_ready_def)

lemma updated_health: "updated LB n st st' \<Longrightarrow> health st' = health st \<and> config_ready st' = config_ready st"
  by (auto elim!: updated.cases)

text \<open>Only a \<open>Ready\<close> of the watch touches the readiness state.\<close>

lemma health_of_step:
  assumes "config_step from_obj LB ep P ev st st'" and "refs_invar st"
  shows "health st' = health st \<and> config_ready st' = config_ready st
    \<or> health st' = world_ready ep (health st) \<and> config_ready st'"
  using assms(1)
proof cases
  case (changed ord c)
  from assms(2) changed(2,3) show ?thesis
    by (cases rule: handle_change_cases) (auto dest: updated_health)
qed simp_all

text \<open>The readiness state after \<open>main\<close>: the two endpoints that block, and what it means that one does not.\<close>

definition health_ok :: "bool \<Rightarrow> bool \<Rightarrow> bool \<Rightarrow> world \<Rightarrow> bool" where
  "health_ok caught_up awaiting discovered w \<longleftrightarrow>
     health_step\<^sup>*\<^sup>* main_world w \<and> set (calls w) \<subseteq> {CallDone}
     \<and> endpoints w = [False, \<not> caught_up, awaiting] \<and> (\<not> awaiting \<longrightarrow> discovered)"

lemma health_ok_main: "health_ok False True False main_world"
  by (auto simp: health_ok_def main_world_state)

lemma health_ok_mono: "health_ok c k d w \<Longrightarrow> (d \<longrightarrow> d') \<Longrightarrow> health_ok c k d' w"
  by (auto simp: health_ok_def)

lemma world_ready_calls: "set (calls w) \<subseteq> {CallDone} \<Longrightarrow> set (calls (world_ready i w)) \<subseteq> {CallDone}"
  by (auto simp: world_ready_def split: prod.splits)

lemma world_ready_endpoints: "endpoints (world_ready i w) = (endpoints w)[i := False]"
  by (simp add: world_ready_def HealthEndpoint_ready_def Let_def)

lemma health_ok_config: "health_ok c k d w \<Longrightarrow> health_ok True k d (world_ready 1 w)"
  using world_ready_run [of 1 w] world_ready_calls [of w 1]
  by (auto simp: health_ok_def world_ready_endpoints intro: rtranclp_trans)

lemma health_ok_redis: "health_ok c k True w \<Longrightarrow> health_ok c False True (world_ready 2 w)"
  using world_ready_run [of 2 w] world_ready_calls [of w 2]
  by (auto simp: health_ok_def world_ready_endpoints eval_nat_numeral intro: rtranclp_trans)



definition app_invar ::
    "'lb load_balancing \<Rightarrow> ('lb \<Rightarrow> Backend set) \<Rightarrow> ('m, 'md, 'lb, 'pool) app \<Rightarrow> bool" where
  "app_invar LB view a \<longleftrightarrow>
     refs_invar (config a) \<and> names_ok (config a) \<and> held_invar (config a) \<and> (dns_step LB)\<^sup>*\<^sup>* dns_new (discovery (config a))
     \<and> redis a < length (handles (discovery (config a))) \<and> clients (redis_handle a) > 0
     \<and> health_ok (config_ready (config a)) (awaiting_discovery a) (h_ready (redis_handle a)) (health (config a))
     \<and> (lb_law LB view \<longrightarrow> pool_invar (replicas a) (cache_pools a))"

lemma started_app:
  assumes "main_services LB True backend = Returns srv" and "run_forever client srv = Returns a"
  obtains hostname prt where "backend = RedisReplicas hostname prt"
    "a = \<lparr>config = config_init (snd (backends_for_hostname LB hostname prt dns_new)) main_world,
      redis = fst (backends_for_hostname LB hostname prt dns_new),
      cache_pools = \<lparr>ps_pools = Map.empty, unseen = True, ps_pc = Waiting\<rparr>, awaiting_discovery = True\<rparr>"
proof (cases backend)
  case (RedisReplicas hostname prt)
  show ?thesis
    by (rule that [OF RedisReplicas]) (use assms RedisReplicas in \<open>auto simp: main_services_def run_forever_def
        RedisReplicasCacheBackend_new_def dns_service_new_def dns_service_start_def Let_def config_start start_pools_def split: if_splits prod.splits\<close>)
qed

lemma app_invar_started:
  assumes "main_services LB True backend = Returns srv"
    and "run_forever client srv = Returns (a :: ('m, 'md, 'lb, 'pool) app)"
  shows "app_invar LB view a"
proof -
  obtain hostname prt where a: "a = \<lparr>config = config_init (snd (backends_for_hostname LB hostname prt dns_new)) main_world,
      redis = fst (backends_for_hostname LB hostname prt dns_new),
      cache_pools = \<lparr>ps_pools = Map.empty, unseen = True, ps_pc = Waiting\<rparr>, awaiting_discovery = True\<rparr>"
    using started_app [OF assms] by blast
  let ?g = "backends_for_hostname LB hostname prt dns_new"
  have "(dns_step LB)\<^sup>*\<^sup>* dns_new (snd ?g)" by (intro r_into_rtranclp dns_step.get)
  moreover have "fst ?g < length (handles (snd ?g))" "clients (handles (snd ?g) ! fst ?g) > 0"
    by (simp_all add: backends_for_hostname_def dns_new_def new_handle_def Let_def)
  moreover have "pool_invar W (\<lparr>ps_pools = Map.empty, unseen = True, ps_pc = Waiting\<rparr> :: 'pool pool_service)" for W by (simp add: pool_invar_def)
  ultimately show ?thesis
    using health_ok_mono [OF health_ok_main] by (simp add: a app_invar_def) (simp add: config_init_def names_ok_def)
qed

lemma replica_addresses:
  assumes "app_invar LB view a" and "lb_law LB view" and "b \<in> replicas a"
  shows "as_inet b \<noteq> None"
proof -
  have "\<exists>ip. b = Backend (Inet ip (snd (h_host_port (redis_handle a)))) 1"
    using assms dns_address [of LB "discovery (config a)" view "redis a" b] unfolding app_invar_def by blast
  then show ?thesis by auto
qed

lemma replicas_enum:
  assumes "app_invar LB view a"
  shows "set (sorted_list_of_set (replicas a)) = replicas a"
  using assms finite_backends [of LB "discovery (config a)" "redis a"] by (simp add: app_invar_def)

text \<open>Discovery of the replicas never ends, since the cache holds its handle.\<close>

lemma held_tended:
  assumes "app_invar LB view a" and "held (config a) h \<or> h = redis a"
  shows "live (discovery (config a)) h" "tended (discovery (config a)) h"
    "service_backends (discovery (config a)) (h_host_port (handles (discovery (config a)) ! h)) = Some h"
proof -
  have run: "(dns_step LB)\<^sup>*\<^sup>* dns_new (discovery (config a))" using assms(1) by (simp add: app_invar_def)
  have "h < length (handles (discovery (config a))) \<and> clients (handles (discovery (config a)) ! h) > 0"
    using assms unfolding app_invar_def held_invar_def by blast
  then show l: "live (discovery (config a)) h" by (simp add: live_def strong_count_def)
  show "tended (discovery (config a)) h"
    "service_backends (discovery (config a)) (h_host_port (handles (discovery (config a)) ! h)) = Some h"
    using dns.invar_reachable [OF refl run] l by (simp_all add: dns_invar_def dns_live_def)
qed

lemma redis_tended:
  assumes "app_invar LB view a"
  shows "tended (discovery (config a)) (redis a)" "redis_alive a"
  using held_tended [OF assms, of "redis a"] tended_sender_alive by auto

lemma app_invar_step:
  assumes "app_step from_obj LB P build info a a'" and inv: "app_invar LB view a"
  shows "app_invar LB view a'"
  using assms(1)
proof cases
  case (config_service ev st)
  let ?d = "discovery (config a)" and ?d' = "discovery st"
  have refs: "refs_invar (config a)" and run: "(dns_step LB)\<^sup>*\<^sup>* dns_new ?d" and held: "held_invar (config a)"
    using inv by (simp_all add: app_invar_def)
  have sh: "dns_shape ?d" using dns.invar_reachable [OF refl run] by (simp add: dns_invar_def)
  from discovery_of_step [OF config_service(2) refs] have d: "?d' = ?d \<or> dns_step LB ?d ?d'" .
  have r: "redis a < length (handles ?d') \<and> (h_ready (handles ?d ! redis a) \<longrightarrow> h_ready (handles ?d' ! redis a))"
    using d inv ready_step [of LB ?d ?d' "redis a"] handles_grow [of LB ?d ?d'] by (auto simp: app_invar_def)
  have "health_ok (config_ready (config a)) (awaiting_discovery a) (h_ready (handles ?d ! redis a)) (health (config a))"
    using inv by (simp add: app_invar_def)
  then have h: "health_ok (config_ready (config a)) (awaiting_discovery a) (h_ready (handles ?d' ! redis a)) (health (config a))"
    by (rule health_ok_mono) (use r in blast)
  from health_of_step [OF config_service(2) refs] 
  have "health_ok (config_ready st) (awaiting_discovery a) (h_ready (handles ?d' ! redis a)) (health st)"
    by (elim disjE conjE) (use h health_ok_config [OF h] in simp_all)
  moreover have "(dns_step LB)\<^sup>*\<^sup>* dns_new ?d'" using d run by (auto intro: rtranclp.rtrancl_into_rtrancl)
  ultimately show ?thesis
    using inv r config_service(3) refs_invar_step [OF config_service(2) refs] names_ok_step [OF config_service(2) refs] held_step [OF config_service(2) refs sh held]
    unfolding config_service(1) app_invar_def by (simp add: pool_invar_sent)
next
  case (redis_ready w)
  then have "h_ready (redis_handle a)" "w = world_ready 2 (health (config a))"
    by (auto simp: readiness_task_def split: if_splits)
  with inv health_ok_redis [of "config_ready (config a)" "awaiting_discovery a" "health (config a)"] show ?thesis
    unfolding redis_ready(1) app_invar_def by (simp add: refs_invar_def names_ok_def held_invar_def held_def)
next
  case (redis_service ps)
  have "pool_invar (replicas a) ps" if law: "lb_law LB view"
    by (rule pool_invar_step [OF _ replicas_enum [OF inv] replica_addresses [OF inv law]])
      (use inv law redis_service(2) in \<open>auto simp: app_invar_def pool_service_step_def\<close>)
  with inv show ?thesis unfolding redis_service(1) app_invar_def by simp
qed

interpretation proxy: invariant_system "\<lambda>a. \<exists>backend srv client.
    main_services LB True backend = Returns srv \<and> run_forever client srv = Returns a"
  "app_step from_obj LB P build info" "app_invar LB view" for from_obj LB P build info view
  by standard (auto intro: app_invar_started app_invar_step)

lemma app_reachable:
  assumes "main_services LB True backend = Returns srv" and "run_forever client srv = Returns a0"
    and "(app_step from_obj LB P build info)\<^sup>*\<^sup>* a0 a"
  shows "app_invar LB view a"
  using proxy.invar_reachable [OF _ assms(3)] assms(1,2) by blast

section \<open>Properties\<close>

text \<open>The proxy reports ready exactly when both the configuration service and the cache backend have:
  after \<open>main\<close>'s set-up, in every interleaving of the two endpoints' calls, readiness is not signalled
  while one of them has not reported, and is signalled once both have and no call is in flight.\<close>

theorem ready_when_both_report:
  assumes "health_step\<^sup>*\<^sup>* main_world w" and "length (endpoints w) = 3"
  shows "(armed 1 w \<or> armed 2 w \<longrightarrow> \<not> ready (shared w))
    \<and> (endpoints w = [False, False, False] \<and> set (calls w) \<subseteq> {CallDone} \<longrightarrow> ready (shared w))"
proof (intro conjI impI)
  have "unsignalled main_world" "armed 1 main_world" "armed 2 main_world"
    by (simp_all add: unsignalled_def armed_def main_world_state)
  then show "\<not> ready (shared w)" if "armed 1 w \<or> armed 2 w"
    using that unready_while_armed [OF main_world_reachable assms(1)] assms(2) by auto
  show "ready (shared w)" if "endpoints w = [False, False, False] \<and> set (calls w) \<subseteq> {CallDone}"
    using that ready_when_quiet [OF rtranclp_trans [OF main_world_reachable assms(1)]] by simp
qed

theorem ready_when_both_report_witness:
  "\<not> ready (shared (world_ready 1 main_world)) \<and> ready (shared (world_ready 2 (world_ready 1 main_world)))"
proof -
  let ?w1 = "world_ready 1 main_world" and ?w2 = "world_ready 2 (world_ready 1 main_world)"
  have "endpoints ?w1 = [False, False, True]" "endpoints ?w2 = [False, False, False]"
    "calls ?w2 = [CallDone, CallDone, CallDone]"
    by (simp_all add: world_ready_def main_world_state HealthEndpoint_ready_def Let_def)
  note e = this [unfolded One_nat_def]
  have r1: "health_step\<^sup>*\<^sup>* main_world ?w1" by (rule world_ready_run) (simp add: main_world_state)
  have "health_step\<^sup>*\<^sup>* ?w1 ?w2" by (rule world_ready_run) (use e(1) in simp)
  then have r2: "health_step\<^sup>*\<^sup>* main_world ?w2" using r1 by (rule rtranclp_trans [rotated])
  show ?thesis
    using ready_when_both_report [OF r1] ready_when_both_report [OF r2] by (simp add: e armed_def)
qed



subsection \<open>A concrete run\<close>

definition demo_server :: "('md, Backend set, 'pool) server" where
  "demo_server = \<lparr>srv_dns_service = \<lparr>has_commands = True\<rparr>, srv_dns = snd (backends_for_hostname demo_lb ''redis'' 6379 dns_new), srv_health = main_world,
     srv_config = K8SConfigService_new 1, srv_cache = \<lparr>rb_backends = 0, rb_pools = Map.empty, rb_health = 2\<rparr>,
     srv_h2c = True, srv_tcp = [''0.0.0.0:50052'']\<rparr>"

definition demo_app :: "('m, 'md, Backend set, 'pool) app" where
  "demo_app = \<lparr>config = config_init (snd (backends_for_hostname demo_lb ''redis'' 6379 dns_new)) main_world, redis = 0,
     cache_pools = \<lparr>ps_pools = Map.empty, unseen = True, ps_pc = Waiting\<rparr>, awaiting_discovery = True\<rparr>"

lemma demo_main: "main_services demo_lb True (RedisReplicas ''redis'' 6379) = Returns demo_server"
  by (simp add: main_services_def demo_server_def RedisReplicasCacheBackend_new_def dns_service_new_def
      backends_for_hostname_def dns_new_def Let_def)

lemma demo_run_forever: "run_forever (Some ()) demo_server = Returns demo_app"
  by (simp add: run_forever_def dns_service_start_def demo_server_def demo_app_def config_start start_pools_def)

lemma app_dns_run:
  assumes "(kept_step LB (redis a))\<^sup>*\<^sup>* (discovery (config a)) d" and "unseen (cache_pools a)"
    and "services (config a) = Map.empty" and "tasks (config a) = []"
  shows "(app_step from_obj LB P build info)\<^sup>*\<^sup>* a (a\<lparr>config := (config a)\<lparr>discovery := d\<rparr>\<rparr>)"
  using assms(1)
proof (induction rule: rtranclp_induct)
  case (step d1 d2)
  let ?a = "\<lambda>d. a\<lparr>config := (config a)\<lparr>discovery := d\<rparr>\<rparr>"
  have "config_step from_obj LB 1 P DiscoveryStep (config (?a d1)) ((config (?a d1))\<lparr>discovery := d2\<rparr>)"
    by (rule discovery_step) (use step.hyps(2) assms(3,4) in \<open>simp_all add: held_def kept_step_def\<close>)
  then have "app_step from_obj LB P build info (?a d1)
      ((?a d1)\<lparr>config := (config (?a d1))\<lparr>discovery := d2\<rparr>,
        cache_pools := sent (replicas (?a d1)) (backends (handles d2 ! redis a)) (cache_pools a)\<rparr>)"
    using app_step.config_service [of from_obj LB P DiscoveryStep "?a d1" "(config (?a d1))\<lparr>discovery := d2\<rparr>" build info]
      step.hyps(2) by (simp add: kept_step_def)
  moreover have "sent old new (cache_pools a) = cache_pools a" for old new
    using assms(2) by (cases "cache_pools a") (simp add: sent_def)
  ultimately show ?case using step.IH by (auto intro: rtranclp.rtrancl_into_rtrancl)
qed simp

text \<open>A run of the services to the point where the watch has caught up and the replica was discovered.\<close>

lemma demo_app_run:
  "\<exists>a. (app_step from_obj demo_lb P build info)\<^sup>*\<^sup>* demo_app (a :: ('m, 'md, Backend set, 'pool) app)
     \<and> config_ready (config a) \<and> redis a = 0 \<and> discovery (config a) = loop_check 0 0 demo_passed_on
     \<and> cache_pools a = \<lparr>ps_pools = Map.empty, unseen = True, ps_pc = Waiting\<rparr>"
proof -
  define a0 where "a0 = (demo_app :: ('m, 'md, Backend set, 'pool) app)"
  let ?st = "(config a0)\<lparr>config_ready := True, health := world_ready 1 (health (config a0))\<rparr>"
  have "config_step from_obj demo_lb 1 P (Changed (Inr Ready)) (config a0) ?st"
    by (rule changed [OF sorted_hash_order]) (simp add: handle_change_def)
  from app_step.config_service [OF this, where build = build and info = info]
  have c: "app_step from_obj demo_lb P build info a0 (a0\<lparr>config := ?st\<rparr>)"
    by (simp add: a0_def demo_app_def config_init_def sent_def backends_for_hostname_def dns_new_def new_handle_def Let_def)
  have "(kept_step demo_lb (redis (a0\<lparr>config := ?st\<rparr>)))\<^sup>*\<^sup>* (discovery (config (a0\<lparr>config := ?st\<rparr>))) (loop_check 0 0 demo_passed_on)"
    using demo_kept_run by (simp add: a0_def demo_app_def config_init_def)
  from converse_rtranclp_into_rtranclp [OF c app_dns_run [OF this]] show ?thesis
    by (intro exI conjI) (auto simp: a0_def demo_app_def config_init_def)
qed

abbreviation demo_build :: "u32 \<times> u16 \<Rightarrow> nat option" where
  "demo_build \<equiv> \<lambda>addr. Some 0"

abbreviation demo_app_step ::
    "(string, string \<times> i32 option, Backend set, nat) app \<Rightarrow> (string, string \<times> i32 option, Backend set, nat) app \<Rightarrow> bool" where
  "demo_app_step \<equiv> app_step demo_from_obj demo_lb demo_protobuf demo_build True"


subsection \<open>Pools\<close>

text \<open>A step of the pool service alone.\<close>

definition pool_turn ::
    "bool \<Rightarrow> (u32 \<times> u16 \<Rightarrow> 'pool option) \<Rightarrow> ('m, 'md, 'lb, 'pool) app \<Rightarrow> ('m, 'md, 'lb, 'pool) app \<Rightarrow> bool" where
  "pool_turn info build a a' \<longleftrightarrow> (\<exists>ps. pool_service_step info build a = Some (Returns ps) \<and> a' = a\<lparr>cache_pools := ps\<rparr>)"

lemma pool_turns:
  assumes W: "set (sorted_list_of_set (replicas a)) = replicas a" "\<And>b. b \<in> replicas a \<Longrightarrow> as_inet b \<noteq> None" and "builds build"
    and "pool_invar (replicas a) ps"
  shows "\<exists>n ps'. n \<le> work (replicas a) ps \<and> (pool_turn info build ^^ n) (a\<lparr>cache_pools := ps\<rparr>) (a\<lparr>cache_pools := ps'\<rparr>)
    \<and> work (replicas a) ps' = 0 \<and> dom (ps_pools ps') = replicas a"
  using assms(4)
proof (induction "work (replicas a) ps" arbitrary: ps rule: less_induct)
  case less
  note ok = pool_step_ok [OF less.prems assms(3) W, where info = info and alive = "redis_alive a"]
  show ?case
  proof (cases "work (replicas a) ps = 0")
    case True
    then show ?thesis using ok(2) by (intro exI [of _ 0] exI [of _ ps]) simp
  next
    case False
    then obtain ps1 where s: "pool_step info build (redis_alive a) (sorted_list_of_set (replicas a)) ps = Some (Returns ps1)"
      "pool_invar (replicas a) ps1" "work (replicas a) ps1 < work (replicas a) ps" using ok(1) by auto
    then obtain n ps' where n: "n \<le> work (replicas a) ps1"
      "(pool_turn info build ^^ n) (a\<lparr>cache_pools := ps1\<rparr>) (a\<lparr>cache_pools := ps'\<rparr>)"
      "work (replicas a) ps' = 0" "dom (ps_pools ps') = replicas a" using less.hyps by blast
    have "pool_turn info build (a\<lparr>cache_pools := ps\<rparr>) (a\<lparr>cache_pools := ps1\<rparr>)"
      using s(1) by (simp add: pool_turn_def pool_service_step_def)
    with n(2) have "(pool_turn info build ^^ Suc n) (a\<lparr>cache_pools := ps\<rparr>) (a\<lparr>cache_pools := ps'\<rparr>)" by (rule relpowp_Suc_I2 [rotated])
    with n s(3) show ?thesis by (intro exI [of _ "Suc n"] exI [of _ ps']) simp
  qed
qed

lemma pool_service_ok:
  assumes inv: "app_invar LB view a" and "lb_law LB view" and "builds build"
  shows "pool_service_step info build a \<noteq> Some Panic"
proof -
  have p: "pool_invar (replicas a) (cache_pools a)" using inv assms(2) by (simp add: app_invar_def)
  show ?thesis
    using pool_step_ok [OF p assms(3) replicas_enum [OF inv] replica_addresses [OF inv assms(2)],
        where info = info and alive = "redis_alive a"] redis_tended(2) [OF inv]
    by (cases "work (replicas a) (cache_pools a) = 0") (auto simp: pool_service_step_def)
qed

text \<open>C20. The pool service keeps up with discovery: in every run of the services that \<open>main\<close> sets up, inside of a runtime, provided that a pool can
  be built for every internet address, the service does not panic; whenever it waits with nothing unseen, there
  is a pool for exactly the discovered replicas; and from every state, its own steps, at most as many as it has
  backends to go through, lead there.\<close>

theorem pools_follow_discovery:
  assumes "main_services LB True backend = Returns srv" and "run_forever client srv = Returns a0"
    and "(app_step from_obj LB P build info)\<^sup>*\<^sup>* a0 a" and "lb_law LB view" and "builds build"
  shows "pool_service_step info build a \<noteq> Some Panic
    \<and> (ps_pc (cache_pools a) = Waiting \<and> \<not> unseen (cache_pools a) \<longrightarrow> dom (ps_pools (cache_pools a)) = replicas a)
    \<and> (\<exists>n ps. n \<le> work (replicas a) (cache_pools a) \<and> (pool_turn info build ^^ n) a (a\<lparr>cache_pools := ps\<rparr>)
        \<and> ps_pc ps = Waiting \<and> \<not> unseen ps \<and> dom (ps_pools ps) = replicas a)"
proof -
  have inv: "app_invar LB view a" by (rule app_reachable [OF assms(1-3)])
  have p: "pool_invar (replicas a) (cache_pools a)" using inv assms(4) by (simp add: app_invar_def)
  note W = replicas_enum [OF inv] replica_addresses [OF inv assms(4)]
  note ok = pool_step_ok [OF p assms(5) W, where info = info and alive = "redis_alive a"]
  have "pool_service_step info build a \<noteq> Some Panic" by (rule pool_service_ok [OF inv assms(4,5)])
  moreover have "\<exists>n ps. n \<le> work (replicas a) (cache_pools a)
      \<and> (pool_turn info build ^^ n) (a\<lparr>cache_pools := cache_pools a\<rparr>) (a\<lparr>cache_pools := ps\<rparr>)
      \<and> work (replicas a) ps = 0 \<and> dom (ps_pools ps) = replicas a" by (rule pool_turns [OF W assms(5) p])
  ultimately show ?thesis using ok(2) unfolding work_0 by simp
qed

theorem pools_follow_discovery_witness:
  "\<exists>a n ps. demo_app_step\<^sup>*\<^sup>* demo_app a \<and> n \<le> 3 \<and> (pool_turn True demo_build ^^ n) a (a\<lparr>cache_pools := ps\<rparr>)
     \<and> dom (ps_pools ps) = {Backend (Inet 42 6379) 1}"
proof -
  obtain a where r: "demo_app_step\<^sup>*\<^sup>* demo_app a" "replicas a = {Backend (Inet 42 6379) 1}"
    "cache_pools a = \<lparr>ps_pools = Map.empty, unseen = True, ps_pc = Waiting\<rparr>"
    using demo_app_run [of demo_from_obj demo_protobuf demo_build True] demo_ready_run(3) by metis
  then have "work (replicas a) (cache_pools a) = 3" by (simp add: work_def)
  with pools_follow_discovery [OF demo_main demo_run_forever r(1) demo_lb_law] r show ?thesis
    by (auto simp: builds_def)
qed

subsection \<open>Panics\<close>

text \<open>C34. What can bring a background service down: in every run of the services that \<open>main\<close> sets up, inside of a runtime, a refresh loop finds its
  table entry when it starts, the task that waits for discovery and the pool service (if pools can be built)
  do not panic, and the configuration service panics exactly when a resource is applied whose service name
  has no dot, or when the stream of changes ends, and on no other change.\<close>

theorem background_services_panic_iff:
  fixes nxt :: "('e + ('m GrcacheService, ObjectRef) ResourceChange) option"
  assumes "main_services LB True backend = Returns srv" and "run_forever client srv = Returns a0"
    and "(app_step from_obj LB P build info)\<^sup>*\<^sup>* a0 a" and "lb_law LB view" and "builds build" and "hash_order ord"
  shows "(\<forall>i < length (loops (discovery (config a))). loop_begin i (discovery (config a)) \<noteq> Panic)
    \<and> readiness_task (redis_handle a) (redis_alive a) 2 (health (config a)) \<noteq> Some Panic
    \<and> pool_service_step info build a \<noteq> Some Panic
    \<and> (handle_next from_obj LB ord 1 nxt (config a) = Panic \<longleftrightarrow>
        nxt = None \<or> (\<exists>obj. nxt = Some (Inr (Apply obj)) \<and> CHR ''.'' \<notin> set (service_name (spec obj))))"
proof (intro conjI allI impI)
  have inv: "app_invar LB view a" by (rule app_reachable [OF assms(1-3)])
  then have run: "(dns_step LB)\<^sup>*\<^sup>* dns_new (discovery (config a))" by (simp add: app_invar_def)
  then have sh: "dns_shape (discovery (config a))" using dns.invar_reachable [OF refl run] by (simp add: dns_invar_def)
  show "loop_begin i (discovery (config a)) \<noteq> Panic" if "i < length (loops (discovery (config a)))" for i
    using shape_loop(1,2) [OF sh that] sh unfolding dns_shape_def by (auto simp: loop_begin_def)
  show "readiness_task (redis_handle a) (redis_alive a) 2 (health (config a)) \<noteq> Some Panic"
    using redis_tended(2) [OF inv] by (simp add: readiness_task_def)
  show "pool_service_step info build a \<noteq> Some Panic"
    by (rule pool_service_ok [OF inv assms(4,5)])
  have "handle_change from_obj LB ord 1 c (config a) = Panic \<longleftrightarrow>
      (\<exists>obj. c = Inr (Apply obj) \<and> CHR ''.'' \<notin> set (service_name (spec obj)))" for c :: "'e + _"
    using inv handle_change_panics [OF _ assms(6), of "config a" from_obj LB 1 c] by (auto simp: app_invar_def names_ok_def)
  then show "handle_next from_obj LB ord 1 nxt (config a) = Panic \<longleftrightarrow>
      nxt = None \<or> (\<exists>obj. nxt = Some (Inr (Apply obj)) \<and> CHR ''.'' \<notin> set (service_name (spec obj)))"
    by (cases nxt) (simp_all add: handle_next_def)
qed

theorem background_services_panic_iff_witness:
  "handle_next demo_from_obj demo_lb sorted_list_of_set 1 (Some demo_bad)
     (config (demo_app :: (string, string \<times> i32 option, Backend set, nat) app)) = Panic"
  using background_services_panic_iff [OF demo_main demo_run_forever rtranclp.rtrancl_refl [of demo_app_step] demo_lb_law _
      sorted_hash_order, where nxt = "Some demo_bad"]
  by (auto simp: demo_object_def builds_def)

subsection \<open>Discovery behind the routes and the cache\<close>

text \<open>C30. Whatever the proxy uses is looked after: in every run of the services that \<open>main\<close> sets up, inside of a runtime, the handle behind every route,
  every loading task and the cache is the one discovery returns for its host and port, its refresh loop is queued
  or running on this very handle, and both its load balancers select from exactly the watched set, unless that
  loop is at this moment passing on a new one.\<close>

theorem used_handles_are_refreshed:
  assumes "main_services LB True backend = Returns srv" and "run_forever client srv = Returns a0"
    and "(app_step from_obj LB P build info)\<^sup>*\<^sup>* a0 a"
    and "(\<exists>n data. services (config a) n = Some data \<and> load_balancer data = Some h)
      \<or> h \<in> t_load_balancer ` set (tasks (config a)) \<or> h = redis a"
  shows "service_backends (discovery (config a)) (h_host_port (handles (discovery (config a)) ! h)) = Some h
    \<and> ((\<exists>c \<in> set (service_commands (discovery (config a))). cmd_chan c = h)
       \<or> (\<exists>l \<in> set (loops (discovery (config a))). attached h l))
    \<and> (lb_law LB view \<and> (\<forall>l \<in> set (loops (discovery (config a))). l_chan l = h \<longrightarrow> \<not> updating h l) \<longrightarrow>
         view (round_robin (handles (discovery (config a)) ! h)) = backends (handles (discovery (config a)) ! h)
         \<and> view (consistent (handles (discovery (config a)) ! h)) = backends (handles (discovery (config a)) ! h))"
proof -
  have inv: "app_invar LB view a" by (rule app_reachable [OF assms(1-3)])
  then have run: "(dns_step LB)\<^sup>*\<^sup>* dns_new (discovery (config a))" by (simp add: app_invar_def)
  have "held (config a) h \<or> h = redis a" using assms(4) by (auto simp: held_def)
  note h = held_tended [OF inv this]
  show ?thesis
    using h(2,3) balancers_in_step [OF run _ h(1)] unfolding tended_def by (meson nth_mem)
qed

text \<open>A routed service: its handle is held by the table and refreshed.\<close>

abbreviation demo_dns :: "Backend set dns_state" where
  "demo_dns \<equiv> snd (backends_for_hostname demo_lb ''redis'' 6379 dns_new)"

lemma demo_routed_step: "demo_app_step demo_app (demo_app\<lparr>config := demo_route_in demo_dns main_world\<rparr>)"
proof -
  let ?st = "demo_route_in demo_dns main_world"
  have "config_step demo_from_obj demo_lb 1 demo_protobuf
      (Changed (Inr (Apply (demo_object ''a'' ''example.TestService'' ''up'' None)))) (config_init demo_dns main_world) ?st"
    by (rule changed [OF sorted_hash_order demo_applied_in [OF sorted_hash_order]])
  moreover have "clients (handles (discovery ?st) ! 0) > 0"
    by (simp add: demo_route_in_def config_init_def backends_for_hostname_def dns_new_def new_handle_def demo_object_def Let_def)
  ultimately show ?thesis
    using app_step.config_service [of demo_from_obj demo_lb demo_protobuf _ demo_app ?st demo_build True]
    by (auto simp: demo_app_def sent_def)
qed

theorem used_handles_are_refreshed_witness:
  "\<exists>a data. demo_app_step\<^sup>*\<^sup>* demo_app a \<and> services (config a) ''example.TestService'' = Some data
     \<and> load_balancer data = Some 1 \<and> service_backends (discovery (config a)) (''up'', default_grpc_port) = Some 1"
proof -
  let ?a = "(demo_app :: (string, string \<times> i32 option, Backend set, nat) app)\<lparr>config := demo_route_in demo_dns main_world\<rparr>"
  obtain data where d: "services (config ?a) ''example.TestService'' = Some data" "load_balancer data = Some 1"
    "h_host_port (handles (discovery (config ?a)) ! 1) = (''up'', default_grpc_port)"
    by (simp add: demo_route_in_def route_services config_init_def newer_def compute_newer_def backends_for_hostname_def dns_new_def
        new_handle_def demo_object_def Let_def)
  have "service_backends (discovery (config ?a)) (h_host_port (handles (discovery (config ?a)) ! 1)) = Some 1"
    using used_handles_are_refreshed [OF demo_main demo_run_forever r_into_rtranclp [of demo_app_step, OF demo_routed_step], of 1]
      d(1,2) by blast
  with d demo_routed_step show ?thesis by (intro exI [of _ ?a] exI [of _ data]) auto
qed

text \<open>What a lookup sees of the running proxy while nothing changes the pools.\<close>

definition redis_view :: "('m, 'md, 'lb, 'pool) app \<Rightarrow> ('lb, 'pool) RedisPools" where
  "redis_view a = \<lparr>lb_consistent = consistent (redis_handle a), pools = ps_pools (cache_pools a),
     pools_later = ps_pools (cache_pools a)\<rparr>"

text \<open>pingora's selection: with no health checks every backend is healthy, and one that the caller accepts
  is selected if all are accepted.\<close>

definition select_some_law :: "'lb select_with \<Rightarrow> ('lb \<Rightarrow> Backend set) \<Rightarrow> bool" where
  "select_some_law sel view \<longleftrightarrow>
     (\<forall>lb k n accept. n > 0 \<and> finite (view lb) \<and> view lb \<noteq> {} \<and> (\<forall>b \<in> view lb. accept b True) \<longrightarrow>
        (\<exists>b \<in> view lb. sel lb k n accept = Some b))"

text \<open>No key is without a replica: in every run of the services that \<open>main\<close> sets up, inside of a runtime, once the pool service has caught up and
  the load balancers have the discovered set, if there is a replica at all, every key goes to the pool of a
  discovered replica; so a lookup then is a miss only for the replica's answer or a failed connection.\<close>

lemma every_key_has_a_pool:
  assumes "main_services LB True backend = Returns srv" and "run_forever client srv = Returns a0"
    and "(app_step from_obj LB P build info)\<^sup>*\<^sup>* a0 a" and "lb_law LB view" and "select_some_law sel view"
    and "ps_pc (cache_pools a) = Waiting" and "\<not> unseen (cache_pools a)"
    and "\<And>l. l \<in> set (loops (discovery (config a))) \<Longrightarrow> l_chan l = redis a \<Longrightarrow> \<not> updating (redis a) l"
    and "replicas a \<noteq> {}"
  shows "\<exists>b p. b \<in> replicas a \<and> ps_pools (cache_pools a) b = Some p
    \<and> select_backend sel (redis_view a) hash = Some b \<and> pool_for_hash sel (redis_view a) hash = Some p"
proof -
  have inv: "app_invar LB view a" by (rule app_reachable [OF assms(1-3)])
  then have run: "(dns_step LB)\<^sup>*\<^sup>* dns_new (discovery (config a))" and r: "redis a < length (handles (discovery (config a)))"
    by (simp_all add: app_invar_def)
  have v: "view (consistent (redis_handle a)) = replicas a"
    using balancers_in_step [OF run assms(4) held_tended(1) [OF inv]] assms(8) by blast
  have d: "dom (ps_pools (cache_pools a)) = replicas a"
    using inv assms(4,6,7) by (simp add: app_invar_def pool_invar_def)
  have "\<exists>b \<in> view (consistent (redis_handle a)). select_backend sel (redis_view a) hash = Some b"
    unfolding select_backend_def redis_view_def RedisPools.simps
    by (rule assms(5) [unfolded select_some_law_def, rule_format])
      (use v d assms(9) finite_backends [OF run r] in auto)
  then obtain b where b: "b \<in> replicas a" "select_backend sel (redis_view a) hash = Some b" using v by blast
  then obtain p where "ps_pools (cache_pools a) b = Some p" using d by blast
  with b show ?thesis by (auto simp: pool_for_hash_def redis_view_def)
qed

lemma pool_turns_app:
  assumes "(pool_turn info build ^^ n) a a'"
  shows "(app_step from_obj LB P build info)\<^sup>*\<^sup>* a a'"
  using relpowp_imp_rtranclp [OF assms]
  by (rule rtranclp_mono [THEN predicate2D, rotated]) (auto simp: pool_turn_def intro: app_step.redis_service)

definition demo_first :: "Backend set select_with" where
  "demo_first lb key n accept = find (\<lambda>b. accept b True) (sorted_list_of_set lb)"

lemma demo_first_law: "select_some_law demo_first (\<lambda>b. b)"
proof -
  have "\<exists>b \<in> lb. demo_first lb k n accept = Some b"
    if lb: "finite lb" "lb \<noteq> {}" "\<forall>b \<in> lb. accept b True" for lb k n accept
  proof (cases "sorted_list_of_set lb")
    case (Cons x xs)
    then have "x \<in> lb" using set_sorted_list_of_set [OF lb(1)] by auto
    with Cons lb(3) show ?thesis by (simp add: demo_first_def)
  qed (use lb in simp)
  then show ?thesis by (simp add: select_some_law_def)
qed

text \<open>A run in which a replica was discovered and its pool was built.\<close>

lemma demo_caught_up:
  "\<exists>a. demo_app_step\<^sup>*\<^sup>* demo_app a \<and> ps_pc (cache_pools a) = Waiting \<and> \<not> unseen (cache_pools a) \<and> replicas a \<noteq> {}
     \<and> (\<forall>l \<in> set (loops (discovery (config a))). \<not> updating (redis a) l)"
proof -
  obtain a where r: "demo_app_step\<^sup>*\<^sup>* demo_app a" "discovery (config a) = loop_check 0 0 demo_passed_on" "redis a = 0"
    using demo_app_run [of demo_from_obj demo_protobuf demo_build True] by blast
  have inv: "app_invar demo_lb (\<lambda>b. b) a" by (rule app_reachable [OF demo_main demo_run_forever r(1)])
  have "pool_invar (replicas a) (cache_pools a)" using inv demo_lb_law by (simp add: app_invar_def)
  from pool_turns [OF replicas_enum [OF inv] replica_addresses [OF inv demo_lb_law] _ this, of demo_build True]
  obtain n ps where t: "(pool_turn True demo_build ^^ n) a (a\<lparr>cache_pools := ps\<rparr>)" "ps_pc ps = Waiting" "\<not> unseen ps"
    by (auto simp: builds_def work_0)
  have "demo_app_step\<^sup>*\<^sup>* demo_app (a\<lparr>cache_pools := ps\<rparr>)" using r(1) pool_turns_app [OF t(1)] by (rule rtranclp_trans)
  with t(2,3) r(2,3) demo_ready_run(3,5) show ?thesis by (intro exI [of _ "a\<lparr>cache_pools := ps\<rparr>"]) simp
qed

end
