(* ===== verification/Test_Peers.thy ===== *)
theory Test_Peers
  imports Names
begin

text \<open>
  The peers of the proxy in its integration tests, \<open>grcache-shared/src/test\<close>: the client that sends a gRPC call
  (\<open>grpc_client.rs\<close>) and the mock server that expects calls in a given order (\<open>grpc_server.rs\<close>). Sockets and the HTTP/2
  library are parameters. The lemmas say when the mock server reports a failure, and what it sends.
\<close>

section \<open>The client\<close>

record http_request =
  http_method :: string
  uri :: string
  http_headers :: "(string \<times> string) list"
  http_body :: bytes

definition u32_to_be_bytes :: "u32 \<Rightarrow> bytes" where
  "u32_to_be_bytes n = map (\<lambda>i. char_of (unat (drop_bit (8 * i) n) mod 256 :: nat)) [3, 2, 1, 0]"

text \<open>The framing of a message: not compressed, its length as a \<open>u32\<close>, and the message.\<close>

definition grpc_message :: "bytes \<Rightarrow> bytes" where
  "grpc_message message = CHR 0x00 # u32_to_be_bytes (of_nat (length message)) @ message"

definition client_request :: "string \<Rightarrow> string \<Rightarrow> bytes \<Rightarrow> http_request" where
  "client_request service method message =
     \<lparr>http_method = ''POST'', uri = ''/'' @ service @ ''/'' @ method,
      http_headers = [(''content-type'', ''application/grpc''), (''host'', ''localhost'')],
      http_body = grpc_message message\<rparr>"

text \<open>Connecting, the handshake, waiting until the connection is ready, building the request, sending it, sending its
  body and awaiting the response may fail; every failure is unwrapped.\<close>

record ('tcp, 'h2, 'call, 'resp) h2_client =
  tcp_connect :: "u32 \<times> u16 \<Rightarrow> 'tcp option"
  client_handshake :: "'tcp \<Rightarrow> 'h2 option"
  h2_ready :: "'h2 \<Rightarrow> 'h2 option"
  build_request :: "http_request \<Rightarrow> http_request option"
  send_request :: "http_request \<Rightarrow> 'h2 \<Rightarrow> 'call option"
  send_body :: "bytes \<Rightarrow> 'call \<Rightarrow> 'call option"
  await_response :: "'call \<Rightarrow> 'resp option"

definition grpc_request ::
    "('tcp, 'h2, 'call, 'resp) h2_client \<Rightarrow> u32 \<times> u16 \<Rightarrow> string \<Rightarrow> string \<Rightarrow> bytes \<Rightarrow> 'resp outcome" where
  "grpc_request C addr service method message =
     bind_outcome (unwrap (tcp_connect C addr)) (\<lambda>tcp.
     bind_outcome (unwrap (client_handshake C tcp)) (\<lambda>h2.
     bind_outcome (unwrap (h2_ready C h2)) (\<lambda>h2.
     bind_outcome (unwrap (build_request C (client_request service method message))) (\<lambda>request.
     bind_outcome (unwrap (send_request C request h2)) (\<lambda>call.
     bind_outcome (unwrap (send_body C (grpc_message message) call)) (\<lambda>call.
       unwrap (await_response C call)))))))"

section \<open>The mock server\<close>

text \<open>The expected calls with their handlers, which may panic, behind a mutex that a panic poisons.\<close>

type_synonym ('p, 'h) HandleFn = "'p \<Rightarrow> bytes \<Rightarrow> (bytes \<times> 'h) outcome"

record ('p, 'h) mock_state =
  got_extra_requests :: bool
  expects :: "(string \<times> string \<times> ('p, 'h) HandleFn) list"
  poisoned :: bool

text \<open>\<open>MockServer::new\<close> with the address the listener is bound to.\<close>

definition MockServer_new :: "(u32 \<times> u16) option \<Rightarrow> ((u32 \<times> u16) \<times> ('p, 'h) mock_state) outcome" where
  "MockServer_new bound =
     bind_outcome (unwrap bound) (\<lambda>addr. Returns (addr, \<lparr>got_extra_requests = False, expects = [], poisoned = False\<rparr>))"

definition MockServer_expect ::
    "string \<Rightarrow> string \<Rightarrow> ('p, 'h) HandleFn \<Rightarrow> ('p, 'h) mock_state \<Rightarrow> ('p, 'h) mock_state outcome" where
  "MockServer_expect service method handle st =
     (if poisoned st then Panic else Returns (st\<lparr>expects := expects st @ [(service, method, handle)]\<rparr>))"

definition MockServer_finish :: "('p, 'h) mock_state \<Rightarrow> unit outcome" where
  "MockServer_finish st = (if poisoned st then Panic else if got_extra_requests st then Panic else Returns ())"

text \<open>Reading the body of a request: chunks, or an error that is unwrapped.\<close>

fun read_full_body :: "bytes option list \<Rightarrow> bytes outcome" where
  "read_full_body [] = Returns []"
| "read_full_body (None # ds) = Panic"
| "read_full_body (Some d # ds) = bind_outcome (read_full_body ds) (\<lambda>rest. Returns (d @ rest))"

text \<open>The sending side of an HTTP/2 stream. Each operation may be refused.\<close>

record ('s, 'h) h2_stream =
  send_reset :: "'s \<Rightarrow> 's"
  send_response :: "'s \<Rightarrow> 's option"
  send_data :: "bytes \<Rightarrow> 's \<Rightarrow> 's option"
  send_trailers :: "'h \<Rightarrow> 's \<Rightarrow> 's option"

definition respond_with :: "('s, 'h) h2_stream \<Rightarrow> bytes \<Rightarrow> 'h \<Rightarrow> 's \<Rightarrow> unit outcome \<times> 's" where
  "respond_with S body trailers s =
     (case send_response S s of
        None \<Rightarrow> (Panic, s)
      | Some s1 \<Rightarrow>
          (case send_data S body s1 of
             None \<Rightarrow> (Panic, s1)
           | Some s2 \<Rightarrow> (case send_trailers S trailers s2 of None \<Rightarrow> (Panic, s2) | Some s3 \<Rightarrow> (Returns (), s3))))"

text \<open>What happens while the mutex is held.\<close>

definition handle_locked ::
    "('s, 'h) h2_stream \<Rightarrow> ('p \<Rightarrow> string) \<Rightarrow> 'p \<Rightarrow> bytes \<Rightarrow> 's \<Rightarrow> ('p, 'h) mock_state \<Rightarrow> unit outcome \<times> 's \<times> ('p, 'h) mock_state" where
  "handle_locked S path parts body s st =
     (case expects st of
        [] \<Rightarrow> (Returns (), send_reset S s, st\<lparr>got_extra_requests := True\<rparr>)
      | (service, method, handler) # rest \<Rightarrow>
          (let st = st\<lparr>expects := rest\<rparr>;
               (r, s) = (if path parts = ''/'' @ service @ ''/'' @ method
                         then (case handler parts body of
                                 Panic \<Rightarrow> (Panic, s)
                               | Returns (resp_body, resp_parts) \<Rightarrow> respond_with S resp_body resp_parts s)
                         else (Panic, s))
           in (r, s, if r = Panic then st\<lparr>poisoned := True\<rparr> else st)))"

definition dummy_handle_request ::
    "('s, 'h) h2_stream \<Rightarrow> ('p \<Rightarrow> string) \<Rightarrow> 'h \<Rightarrow> 'p \<Rightarrow> bytes option list \<Rightarrow> 's \<Rightarrow> ('p, 'h) mock_state
      \<Rightarrow> unit outcome \<times> 's \<times> ('p, 'h) mock_state" where
  "dummy_handle_request S path empty_headers parts body s st =
     (case read_full_body body of
        Panic \<Rightarrow> (Panic, s, st)
      | Returns full_body \<Rightarrow>
          if poisoned st then (Panic, s, st)
          else (case handle_locked S path parts full_body s st of
                  (Panic, s, st) \<Rightarrow> (Panic, s, st)
                | (Returns _, s, st) \<Rightarrow>
                    (case respond_with S (replicate 5 (CHR 0x00)) empty_headers s of (r, s) \<Rightarrow> (r, s, st))))"

section \<open>Lemmas\<close>

text \<open>The documented rule of \<open>send_response\<close>: it may be called once, and not after \<open>send_reset\<close>.\<close>

definition single_response :: "('s, 'h) h2_stream \<Rightarrow> ('s \<Rightarrow> bool) \<Rightarrow> bool" where
  "single_response S answered \<longleftrightarrow>
     (\<forall>s. answered s \<longrightarrow> send_response S s = None) \<and> (\<forall>s s'. send_response S s = Some s' \<longrightarrow> answered s')
     \<and> (\<forall>s. answered (send_reset S s)) \<and> (\<forall>d s s'. send_data S d s = Some s' \<longrightarrow> answered s \<longrightarrow> answered s')
     \<and> (\<forall>t s s'. send_trailers S t s = Some s' \<longrightarrow> answered s \<longrightarrow> answered s')"

lemma respond_with_answered:
  assumes "single_response S answered" and "respond_with S b t s = (Returns (), s')"
  shows "answered s'"
proof -
  obtain s1 s2 where s: "send_response S s = Some s1" "send_data S b s1 = Some s2" "send_trailers S t s2 = Some s'"
    using assms(2) by (auto simp: respond_with_def split: option.splits)
  with assms(1) have "answered s1" "answered s2" unfolding single_response_def by blast+
  with s(3) assms(1) show ?thesis unfolding single_response_def by blast
qed

lemma respond_with_again:
  assumes "single_response S answered" and "answered s"
  shows "respond_with S b t s = (Panic, s)"
  using assms by (simp add: single_response_def respond_with_def)

lemma handle_locked_answered:
  assumes "single_response S answered" and "handle_locked S path parts body s st = (Returns (), s', st')"
  shows "answered s'"
proof (cases "expects st")
  case Nil
  with assms show ?thesis by (auto simp: handle_locked_def single_response_def)
next
  case (Cons e rest)
  obtain service meth handler where e: "e = (service, meth, handler)" by (cases e)
  obtain b t where "respond_with S b t s = (Returns (), s')"
    using assms(2) Cons by (auto simp: handle_locked_def e Let_def split: if_splits outcome.splits prod.splits)
  then show ?thesis by (rule respond_with_answered [OF assms(1)])
qed

text \<open>After the handler's response, and after a reset, the task goes on to a second response, which is refused: every
  task of the mock server ends with a panic. The first response is sent all the same, and the panic comes after
  the mutex was released, so the tests do not notice.\<close>

lemma mock_tasks_panic:
  assumes "single_response S answered"
  shows "fst (dummy_handle_request S path empty_headers parts body s st) = Panic"
proof -
  have "fst (case respond_with S b t s' of (r, s) \<Rightarrow> (r, s, st')) = Panic"
    if "handle_locked S path parts full s st = (Returns u, s', st')" for full u b t s' st'
    using respond_with_again [OF assms handle_locked_answered [OF assms, of path parts full s st s' st'], of b t] that by simp
  then show ?thesis
    unfolding dummy_handle_request_def by (auto split: outcome.split prod.split)
qed

text \<open>The first expected call: it is answered as its handler says, and the server does not report a failure.\<close>

lemma expected_call:
  assumes "single_response S answered" and "expects st = [(service, method, handler)]" and "MockServer_finish st = Returns ()"
    and "path parts = ''/'' @ service @ ''/'' @ method" and "read_full_body body = Returns full"
    and "handler parts full = Returns (b, t)" and "respond_with S b t s = (Returns (), s')"
  shows "dummy_handle_request S path empty_headers parts body s st = (Panic, s', st\<lparr>expects := []\<rparr>)"
    and "MockServer_finish (st\<lparr>expects := []\<rparr>) = Returns ()"
proof -
  have "\<not> poisoned st" "\<not> got_extra_requests st" using assms(3) by (auto simp: MockServer_finish_def split: if_splits)
  then show "dummy_handle_request S path empty_headers parts body s st = (Panic, s', st\<lparr>expects := []\<rparr>)"
    "MockServer_finish (st\<lparr>expects := []\<rparr>) = Returns ()"
    using assms(2,4-7) respond_with_again [OF assms(1) respond_with_answered [OF assms(1,7)]]
    by (simp_all add: dummy_handle_request_def handle_locked_def MockServer_finish_def)
qed

text \<open>A call that is not expected, at the wrong path or after the last one, is reported by \<open>finish\<close>.\<close>

lemma unexpected_call:
  assumes "\<not> poisoned st" and "read_full_body body = Returns full"
    and "\<And>service method handler rest. expects st = (service, method, handler) # rest \<Longrightarrow>
      path parts \<noteq> ''/'' @ service @ ''/'' @ method"
    and "dummy_handle_request S path empty_headers parts body s st = (r, s', st')"
  shows "MockServer_finish st' = Panic"
proof (cases "expects st")
  case Nil
  with assms(1,2,4) show ?thesis
    by (auto simp: dummy_handle_request_def handle_locked_def MockServer_finish_def split: prod.splits)
next
  case (Cons e rest)
  obtain service meth handler where "e = (service, meth, handler)" by (cases e)
  with Cons assms(3) [of service meth handler rest] assms(1,2,4) show ?thesis
    by (auto simp: dummy_handle_request_def handle_locked_def MockServer_finish_def)
qed

text \<open>The frame of a call without contents.\<close>

lemma grpc_message_empty: "grpc_message [] = [CHR 0x00, CHR 0x00, CHR 0x00, CHR 0x00, CHR 0x00]"
  by (simp add: grpc_message_def u32_to_be_bytes_def char_of_def)

text \<open>The handler of the test with a passthrough backend, on a stream that records what was sent: the call is answered
  with the handler's frame, and the server reports no failure.\<close>

definition demo_h2_stream :: "(bytes option, unit) h2_stream" where
  "demo_h2_stream = \<lparr>send_reset = (\<lambda>_. Some []), send_response = (\<lambda>s. if s = None then Some (Some []) else None),
     send_data = (\<lambda>d s. map_option (\<lambda>sent. Some (sent @ d)) s), send_trailers = (\<lambda>_ s. Some s)\<rparr>"

abbreviation demo_frame :: bytes where
  "demo_frame \<equiv> [CHR 0x00, CHR 0x00, CHR 0x00, CHR 0x00, CHR 0x00]"

definition demo_handler :: "(string, unit) HandleFn" where
  "demo_handler parts body = (if body = demo_frame then Returns (demo_frame, ()) else Panic)"

lemma demo_mock_call:
  "bind_outcome (MockServer_new (Some (0x7F000001, 50051))) (\<lambda>(_, m).
   bind_outcome (MockServer_expect ''package.Service'' ''Method'' demo_handler m) (\<lambda>m.
     case dummy_handle_request demo_h2_stream (\<lambda>p. p) () ''/package.Service/Method''
         [Some (http_body (client_request ''package.Service'' ''Method'' []))] None m of
       (r, sent, m) \<Rightarrow> bind_outcome (MockServer_finish m) (\<lambda>_. Returns (r, sent)))) = Returns (Panic, Some demo_frame)"
  by (simp add: MockServer_new_def MockServer_expect_def MockServer_finish_def dummy_handle_request_def handle_locked_def
      respond_with_def demo_h2_stream_def demo_handler_def client_request_def grpc_message_empty)

end
