(* ===== verification/Test_Support.thy ===== *)
theory Test_Support
  imports Proxy Cache_Storage Test_Peers
begin

text \<open>
  The fixtures of the proxy's integration tests, \<open>grcache-proxy/src/test_util\<close> and
  \<open>ServiceBackendsHandle::new_test\<close>: a proxy whose routing table the test fills itself, handles whose
  backends it sets, and a cache storage without contents, an instance of \<open>cache_storage\<close>. Sockets and the server
  task are library code; the client and the mock server of the tests are in \<open>Test_Peers\<close>. The property is what the tests
  of passthrough services in \<open>grcache-proxy/tests/proxy.rs\<close> rely on of the proxy, for every service, method, message and
  backend.
\<close>

section \<open>Fixtures\<close>

text \<open>The test proxy: its routing table, the handles the tests made, whether the configuration counts as ready,
  the address it listens on, the option for unencrypted HTTP/2, the addresses given to the server with the file
  descriptors for them, and whether shutdown was requested. A test handle belongs to no host.\<close>

record ('md, 'lb) ProxyTest =
  test_services :: "string \<rightharpoonup> 'md ServiceData"
  test_handles :: "'lb handle list"
  test_ready :: bool
  listener_addr :: "u32 \<times> u16"
  test_h2c :: bool
  test_fds :: "string \<rightharpoonup> nat"
  test_shutdown :: bool

text \<open>\<open>proxy_server\<close>: \<open>bound\<close> is the listener's file descriptor and local address, or that binding it failed.\<close>

definition proxy_server :: "(nat \<times> u32 \<times> u16) option \<Rightarrow> ('md, 'lb) ProxyTest outcome" where
  "proxy_server bound =
     bind_outcome (unwrap bound) (\<lambda>(fd, local_addr).
       Returns \<lparr>test_services = Map.empty, test_handles = [], test_ready = True, listener_addr = local_addr,
         test_h2c = True, test_fds = [''127.0.0.1:12345'' \<mapsto> fd], test_shutdown = False\<rparr>)"

definition ProxyTest_new :: "(nat \<times> u32 \<times> u16) option \<Rightarrow> ('md, 'lb) ProxyTest outcome" where
  "ProxyTest_new bound = bind_outcome (proxy_server bound) (\<lambda>server_test_ctx. Returns server_test_ctx)"

text \<open>\<open>shutdown\<close> fails if the server task is gone already (\<open>running\<close> says that it is not) or if the task panicked
  (\<open>join_result\<close> is the result of joining it).\<close>

definition ProxyTest_shutdown :: "bool \<Rightarrow> unit option \<Rightarrow> ('md, 'lb) ProxyTest \<Rightarrow> ('md, 'lb) ProxyTest outcome" where
  "ProxyTest_shutdown running join_result t =
     (if \<not> running then Panic
      else bind_outcome (unwrap join_result) (\<lambda>_. Returns (t\<lparr>test_shutdown := True\<rparr>)))"

definition new_test :: "'lb load_balancing \<Rightarrow> 'lb handle" where
  "new_test LB = \<lparr>h_host_port = ('''', 0), clients = 1, backends = {}, round_robin = lb_new LB,
     consistent = lb_new LB, h_ready = True\<rparr>"

definition insert_service ::
    "'lb load_balancing \<Rightarrow> string \<Rightarrow> 'md ServiceSpec \<Rightarrow> ('md, 'lb) ProxyTest \<Rightarrow> nat \<times> ('md, 'lb) ProxyTest" where
  "insert_service LB nm sp t =
     (let backends_handle = length (test_handles t)
      in (backends_handle, t\<lparr>test_handles := test_handles t @ [(new_test LB)\<lparr>h_ready := True\<rparr>],
           test_services := (test_services t)(nm \<mapsto> \<lparr>generation = 10, service_spec = Some sp,
             load_balancer = Some backends_handle\<rparr>)\<rparr>))"

definition add_service_passthrough ::
    "'lb load_balancing \<Rightarrow> string \<Rightarrow> ('md, 'lb) ProxyTest \<Rightarrow> (nat \<times> ('md, 'lb) ProxyTest) outcome" where
  "add_service_passthrough LB nm t =
     bind_outcome (unwrap_result (QualifiedService_parse nm)) (\<lambda>q.
       Returns (insert_service LB nm (build_passthrough q) t))"

definition add_service ::
    "('io, 'b64, 'pf, 'f, 'dig, 'fdp list) fetcher \<Rightarrow> ('pe, 'fdp, 'fd, 'sd, 'md) protobuf \<Rightarrow> 'lb load_balancing
      \<Rightarrow> string \<Rightarrow> string \<Rightarrow> ('md, 'lb) ProxyTest \<Rightarrow> (nat \<times> ('md, 'lb) ProxyTest) outcome" where
  "add_service F P LB nm descriptor_set_path t =
     bind_outcome (from_source F (DummyPanicContext :: unit bucket_context) (File descriptor_set_path)) (\<lambda>fetched.
     bind_outcome (unwrap_result fetched) (\<lambda>descriptor_set.
     bind_outcome (unwrap_result (QualifiedService_parse nm)) (\<lambda>q.
     bind_outcome (unwrap_result (ServiceSpec_build P descriptor_set q)) (\<lambda>(sp, _).
       Returns (insert_service LB nm sp t)))))"

definition set_backends ::
    "'lb load_balancing \<Rightarrow> nat \<Rightarrow> Backend set \<Rightarrow> ('md, 'lb) ProxyTest \<Rightarrow> ('md, 'lb) ProxyTest" where
  "set_backends LB i bs t =
     (let h = (test_handles t ! i)\<lparr>backends := bs\<rparr>;
          h = h\<lparr>consistent := lb_update LB (consistent h) (discover h)\<rparr>;
          h = h\<lparr>round_robin := lb_update LB (round_robin h) (discover h)\<rparr>
      in t\<lparr>test_handles := (test_handles t)[i := h]\<rparr>)"

definition set_single_backend_addr ::
    "'lb load_balancing \<Rightarrow> nat \<Rightarrow> u32 \<times> u16 \<Rightarrow> ('md, 'lb) ProxyTest \<Rightarrow> ('md, 'lb) ProxyTest" where
  "set_single_backend_addr LB i inet t = set_backends LB i {Backend (Inet (fst inet) (snd inet)) 1} t"

text \<open>The mock storage: every lookup is a miss, a miss handler takes everything and reports a fixed size;
  purging and updating are not implemented.\<close>

definition mock_lookup :: "'key \<Rightarrow> 'pe + ('meta \<times> 'hit) option" where
  "mock_lookup key = Inr None"

definition mock_get_miss_handler :: "'key \<Rightarrow> 'meta \<Rightarrow> 'pe + unit" where
  "mock_get_miss_handler key meta = Inr ()"

definition mock_write_body :: "bytes \<Rightarrow> bool \<Rightarrow> 'pe + unit" where
  "mock_write_body data eof = Inr ()"

definition mock_finish :: "'pe + usize" where
  "mock_finish = Inr 1000"

definition mock_purge :: "'key \<Rightarrow> ('pe + bool) outcome" where
  "mock_purge key = Panic"

definition mock_update_meta :: "'key \<Rightarrow> 'meta \<Rightarrow> ('pe + bool) outcome" where
  "mock_update_meta key meta = Panic"

text \<open>The mock storage provides the storage interface, as one that holds nothing.\<close>

interpretation mock: cache_storage True "\<lambda>_ k s. (Returns (mock_lookup k), s)"
  "\<lambda>_ k m chunks s. (Returns (case mock_get_miss_handler k m of Inl e \<Rightarrow> Inl e | Inr _ \<Rightarrow> mock_finish), s)" "\<lambda>hit. hit"
  "\<lambda>s h m b. False" hash for hash
  by standard (simp_all add: mock_lookup_def)

section \<open>The tests\<close>

text \<open>Selection by the round robin balancer of a test handle: from its backends, and some one if there are
  any.\<close>

definition test_select ::
    "('lb \<Rightarrow> bytes \<Rightarrow> nat \<Rightarrow> Backend option) \<Rightarrow> ('md, 'lb) ProxyTest \<Rightarrow> nat \<Rightarrow> bytes \<Rightarrow> nat \<Rightarrow> Backend option" where
  "test_select sel t lb key n = sel (round_robin (test_handles t ! lb)) key n"

definition selection_law :: "('lb \<Rightarrow> bytes \<Rightarrow> nat \<Rightarrow> Backend option) \<Rightarrow> ('lb \<Rightarrow> Backend set) \<Rightarrow> bool" where
  "selection_law sel view \<longleftrightarrow>
     (\<forall>lb key n. n > 0 \<longrightarrow> finite (view lb) \<longrightarrow> (view lb = {} \<longrightarrow> sel lb key n = None) \<and> (view lb \<noteq> {} \<longrightarrow> (\<exists>b \<in> view lb. sel lb key n = Some b)))"

lemma passthrough_accepted:
  fixes sv :: "string \<rightharpoonup> 'md ServiceData"
  assumes "parse_grpc_path (rh_raw_path PG (req_header PG s)) = Inr (n, meth)"
    and "sv n = Some \<lparr>generation = g, service_spec = Some (build_passthrough q), load_balancer = Some lb\<rparr>"
  shows "\<exists>ctx m. request_filter PG H sv s (new_ctx :: ('tc, 'md) RequestCtx) = Some (Inr False, s, ctx) \<and> \<not> do_cache ctx
    \<and> grpc_meta ctx = Some m \<and> load_balancer (service_data m) = Some lb"
proof (cases rule: request_filter_cases [of PG s H sv "new_ctx :: ('tc, 'md) RequestCtx"])
  case (found nm m data vs ctx1)
  let ?m = "\<lparr>service_data = data, gm_method_name = m, vary_set = vs\<rparr>"
  have "data = \<lparr>generation = g, service_spec = Some (build_passthrough q), load_balancer = Some lb\<rparr>"
    using found assms by simp
  moreover from this have "cacheable ?m = None"
    by (simp add: cacheable_def method_spec_def build_passthrough_def)
  ultimately show ?thesis using found by (simp add: found_service_def new_ctx_def)
qed (use assms in simp_all)

lemma added_passthrough:
  fixes t0 :: "('md, 'lb) ProxyTest"
  assumes "CHR ''.'' \<in> set n" and t0: "test_handles t0 = []" and "lb_law LB view" and "selection_law sel view"
  obtains q t where "add_service_passthrough LB n t0 = Returns (0, t)"
    and "test_services t n = Some \<lparr>generation = 10, service_spec = Some (build_passthrough q), load_balancer = Some 0\<rparr>"
    and "test_select sel t 0 '''' 256 = None"
    and "test_select sel (set_single_backend_addr LB 0 inet t) 0 '''' 256 = Some (Backend (Inet (fst inet) (snd inet)) 1)"
proof -
  obtain q where q: "QualifiedService_parse n = Inr q" using assms(1) parse_dotted by blast
  define t where "t = snd (insert_service LB n (build_passthrough q) t0)"
  let ?t = "set_single_backend_addr LB 0 inet t" and ?b = "Backend (Inet (fst inet) (snd inet)) 1"
  have "view (round_robin (test_handles ?t ! 0)) = {?b}"
    using assms(3) by (simp add: set_single_backend_addr_def set_backends_def t_def insert_service_def t0
        lb_law_def discover_def Let_def)
  then have "test_select sel ?t 0 '''' 256 = Some ?b"
    using assms(4) [unfolded selection_law_def, rule_format, of 256 "round_robin (test_handles ?t ! 0)" "''''"]
    by (simp add: test_select_def)
  moreover have "test_select sel t 0 '''' 256 = None"
    using assms(3,4) by (simp add: test_select_def t_def insert_service_def t0 new_test_def selection_law_def lb_law_def)
  ultimately show thesis
    by (intro that [of t q]) (simp_all add: add_service_passthrough_def q t_def insert_service_def t0 Let_def)
qed

text \<open>C36. How the test proxy answers the test client, for every service, method, message and backend address: without a
  matching service the filter refuses the client's request with status 404; for a service added as passthrough, it
  accepts the request without caching it, the choice of an upstream ends with status 502 as long as the test has
  set no backend, and gives the address that the test sets, in clear text HTTP/2. These are the statuses that the
  integration tests of passthrough services assert; relaying the upstream's response is pingora's.\<close>

theorem test_proxy_answers:
  assumes "rh_raw_path PG (req_header PG s) = uri (client_request n meth message)" and "is_utf8 (uri (client_request n meth message))"
    and "CHR ''/'' \<notin> set n" and "CHR ''/'' \<notin> set meth" and "CHR ''.'' \<in> set n"
    and "lb_law LB view" and "selection_law sel view" and "ProxyTest_new (Some bound) = Returns (t0 :: ('md, 'lb) ProxyTest)"
  shows "(\<exists>ctx. request_filter PG H (test_services t0) s (new_ctx :: ('tc, 'md) RequestCtx)
      = Some (Inl (HTTPStatus 404), s, ctx))
    \<and> (\<exists>i t ctx. add_service_passthrough LB n t0 = Returns (i, t)
      \<and> request_filter PG H (test_services t) s (new_ctx :: ('tc, 'md) RequestCtx) = Some (Inr False, s, ctx)
      \<and> \<not> do_cache ctx
      \<and> upstream_peer (test_select sel t) ctx = Returns (Inl (HTTPStatus 502) :: 'e proxy_error + _, ctx)
      \<and> (\<exists>ctx'. upstream_peer (test_select sel (set_single_backend_addr LB i inet t)) ctx
          = Returns (Inr (h2c_peer inet) :: 'e proxy_error + _, ctx')))"
proof (intro conjI)
  have p: "parse_grpc_path (rh_raw_path PG (req_header PG s)) = Inr (n, meth)"
    unfolding assms(1) parse_grpc_path_Inr using assms(2-4) by (simp add: client_request_def)
  have t0: "test_services t0 = Map.empty" "test_handles t0 = []"
    using assms(8) by (auto simp: ProxyTest_new_def proxy_server_def split: prod.splits)
  then show "\<exists>ctx. request_filter PG H (test_services t0) s (new_ctx :: ('tc, 'md) RequestCtx)
      = Some (Inl (HTTPStatus 404), s, ctx)"
    using p
    by (cases rule: request_filter_cases [of PG s H "test_services t0" "new_ctx :: ('tc, 'md) RequestCtx"]) auto
  obtain q and t :: "('md, 'lb) ProxyTest" where t: "add_service_passthrough LB n t0 = Returns (0, t)"
    and sv: "test_services t n = Some \<lparr>generation = 10, service_spec = Some (build_passthrough q), load_balancer = Some 0\<rparr>"
    and none: "test_select sel t 0 '''' 256 = None"
    and some: "test_select sel (set_single_backend_addr LB 0 inet t) 0 '''' 256 = Some (Backend (Inet (fst inet) (snd inet)) 1)"
    by (rule added_passthrough [OF assms(5) t0(2) assms(6,7), where inet = inet])
  obtain ctx m where f: "request_filter PG H (test_services t) s (new_ctx :: ('tc, 'md) RequestCtx) = Some (Inr False, s, ctx)"
    "\<not> do_cache ctx" "grpc_meta ctx = Some m" "load_balancer (service_data m) = Some 0"
    using passthrough_accepted [of PG s n meth "test_services t", OF p sv, where H = H] by blast
  have "upstream_peer (test_select sel t) ctx = Returns (Inl (HTTPStatus 502) :: 'e proxy_error + _, ctx)"
    "\<exists>ctx'. upstream_peer (test_select sel (set_single_backend_addr LB 0 inet t)) ctx = Returns (Inr (h2c_peer inet) :: 'e proxy_error + _, ctx')"
    using f(3,4) none some by (simp_all add: upstream_peer_def)
  with t f(1,2) show "\<exists>i t ctx. add_service_passthrough LB n t0 = Returns (i, t)
      \<and> request_filter PG H (test_services t) s (new_ctx :: ('tc, 'md) RequestCtx) = Some (Inr False, s, ctx)
      \<and> \<not> do_cache ctx
      \<and> upstream_peer (test_select sel t) ctx = Returns (Inl (HTTPStatus 502) :: 'e proxy_error + _, ctx)
      \<and> (\<exists>ctx'. upstream_peer (test_select sel (set_single_backend_addr LB i inet t)) ctx
          = Returns (Inr (h2c_peer inet) :: 'e proxy_error + _, ctx'))"
    by blast
qed

definition demo_test :: "(string \<times> i32 option, Backend set) ProxyTest" where
  "demo_test = \<lparr>test_services = Map.empty, test_handles = [], test_ready = True, listener_addr = (0x7F000001, 50053),
     test_h2c = True, test_fds = [''127.0.0.1:12345'' \<mapsto> 3], test_shutdown = False\<rparr>"

lemma demo_test_new: "ProxyTest_new (Some (3, 0x7F000001, 50053)) = Returns demo_test"
  by (simp add: ProxyTest_new_def proxy_server_def demo_test_def)

theorem test_proxy_answers_witness:
  "\<exists>i t (ctx :: (unit, string \<times> i32 option) RequestCtx). add_service_passthrough demo_lb ''example.TestService'' demo_test = Returns (i, t)
     \<and> request_filter demo_pingora demo_headers (test_services t) demo_request new_ctx = Some (Inr False, demo_request, ctx)
     \<and> \<not> do_cache ctx"
proof -
  let ?q = "client_request ''example.TestService'' ''GetData'' []"
  have "parse_grpc_path (rh_raw_path demo_pingora (req_header demo_pingora demo_request))
      = Inr (''example.TestService'', ''GetData'')"
    using demo_path by (simp add: demo_pingora_def demo_request_def)
  then have p: "rh_raw_path demo_pingora (req_header demo_pingora demo_request) = uri ?q" "is_utf8 (uri ?q)"
    unfolding parse_grpc_path_Inr by (auto simp: client_request_def)
  have sel: "selection_law (\<lambda>bs _ _. if bs = {} then None else Some (Min bs)) (\<lambda>b. b)"
    by (simp add: selection_law_def)
  from test_proxy_answers [where H = demo_headers, OF p _ _ _ demo_lb_law sel demo_test_new]
  show ?thesis by (simp, blast)
qed

end
