(* ===== verification/Cli.thy ===== *)
theory Cli
  imports Prelude
begin

text \<open>
  \<open>grcache-cli/src/main.rs\<close>: the commands of the command line tool. Parsing the arguments, the file system and
  the YAML serialiser are library code; the two latter are parameters. Only the generation of the
  schemas is implemented, the other commands are \<open>todo!()\<close>.
\<close>

datatype Commands =
    ValidateCluster
  | Validate "string list" \<comment> \<open>descriptor sets\<close>
  | UploadDescriptors string string string \<comment> \<open>config, bucket id, descriptor set\<close>
  | GenerateSchemas string \<comment> \<open>output directory\<close>

text \<open>\<open>PathBuf::push\<close> on Unix: an absolute path replaces, a relative one is joined by a separator.\<close>

definition path_push :: "string \<Rightarrow> string \<Rightarrow> string" where
  "path_push p q =
     (if q \<noteq> [] \<and> hd q = CHR ''/'' then q
      else if p = [] \<or> last p = CHR ''/'' then p @ q
      else p @ ''/'' @ q)"

text \<open>\<open>File::create\<close> and \<open>serde_yaml::to_writer\<close>.\<close>

record ('fs, 'file, 'io, 'yaml, 'v) yaml_writer =
  file_create :: "string \<Rightarrow> 'fs \<Rightarrow> ('io + 'file) \<times> 'fs"
  to_writer :: "'file \<Rightarrow> 'v \<Rightarrow> 'fs \<Rightarrow> ('yaml + unit) \<times> 'fs"

definition write_yaml ::
    "('fs, 'file, 'io, 'yaml, 'v) yaml_writer \<Rightarrow> string \<Rightarrow> string \<Rightarrow> 'v \<Rightarrow> 'fs \<Rightarrow> 'fs outcome" where
  "write_yaml W out_dir nm v fs =
     (let path = path_push (path_push [] out_dir) nm;
          (created, fs) = file_create W path fs
      in bind_outcome (unwrap_result created) (\<lambda>file.
           let (written, fs) = to_writer W file v fs
           in bind_outcome (unwrap_result written) (\<lambda>_. Returns fs)))"

definition cli_main ::
    "('fs, 'file, 'io, 'yaml, 'v) yaml_writer \<Rightarrow> 'v \<Rightarrow> Commands \<Rightarrow> 'fs \<Rightarrow> 'fs outcome" where
  "cli_main W crd command fs =
     (case command of
        ValidateCluster \<Rightarrow> Panic
      | Validate descriptor_sets \<Rightarrow> Panic
      | UploadDescriptors config bucket_id descriptor_set \<Rightarrow> Panic
      | GenerateSchemas out_dir \<Rightarrow> write_yaml W out_dir ''grcache_service_crd.yaml'' crd fs)"

text \<open>The file system as a map from paths to values, every write succeeding.\<close>

definition map_writer :: "(string \<rightharpoonup> 'v, string, unit, unit, 'v) yaml_writer" where
  "map_writer = \<lparr>file_create = (\<lambda>p fs. (Inr p, fs(p := None))), to_writer = (\<lambda>p v fs. (Inr (), fs(p \<mapsto> v)))\<rparr>"

text \<open>Generating the schemas writes one file below the output directory and leaves the others alone.\<close>

lemma generate_schemas:
  assumes "out_dir \<noteq> []" and "last out_dir \<noteq> CHR ''/''"
  shows "cli_main map_writer crd (GenerateSchemas out_dir) fs
    = Returns (fs(out_dir @ ''/grcache_service_crd.yaml'' \<mapsto> crd))"
  using assms by (simp add: cli_main_def write_yaml_def path_push_def map_writer_def)

end
