(* ===== verification/Spec2Isabelle.thy ===== *)
theory Spec2Isabelle
  imports Names Health Resource_Change Config Service_Spec Descriptor_Set Discovery Service_Store Service_Routes
    Grpc Cache_Storage Redis_Replicas Pool_Service Proxy Tracing Request_Lifecycle Caching Startup
    Test_Peers Test_Support Cli
begin

text \<open>
  grcache: a caching reverse proxy for gRPC, written in Rust on top of pingora. This development models its
  own code, \<open>grcache-proxy\<close>, \<open>grcache-shared\<close> and \<open>grcache-cli\<close>, and proves what makes it correct.

  \<^bold>\<open>The program.\<close> Kubernetes resources of kind \<open>GrcacheService\<close> say which gRPC service is served by which
  upstream, and optionally where its protobuf descriptors are. A watch stream of these resources goes through
  an adapter that reports only real changes (\<open>resource_change.rs\<close>) to the configuration service
  (\<open>service_store.rs\<close>). For every change it takes a discovery handle for the upstream (\<open>discovery\<close>) and publishes
  an entry of the routing table, at once for a service without descriptors, otherwise from a spawned task that
  fetches the descriptor set (\<open>descriptor_set.rs\<close>) and builds the service's specification (\<open>service/mod.rs\<close>).
  The discovery service resolves host names in refresh loops and keeps two load balancers per handle up to
  date. For every request the callbacks of \<open>proxy/mod.rs\<close> parse the path, look the service up in the routing
  table, decide whether the call is cached, and choose the upstream; cached responses go to redis replicas
  (\<open>cache/redis_replicas.rs\<close>) that discovery found. The readiness tracker (\<open>health.rs\<close>) tells when the proxy may
  receive traffic, and \<open>main.rs\<close> wires everything together.

  \<^bold>\<open>The theories\<close>, each a component, in the order in which they build on each other:

  \<^item> \<open>Prelude\<close>: outcomes of code that may panic, results, the routines of Rust's standard library that the code
    uses (splitting, UTF-8, integers), and the locales \<open>invariant_system\<close> and \<open>simulation\<close> through which the
    state machines below get their run-level facts.
  \<^item> \<open>Names\<close>: \<open>field_ref.rs\<close>, \<open>qualified_service.rs\<close> and \<open>parse_grpc_path\<close>; exact characterisations of the parsers.
  \<^item> \<open>Health\<close>: \<open>health.rs\<close>. \<open>State\<close>, \<open>Health_new\<close>, \<open>Health_add\<close>, \<open>HealthEndpoint_ready\<close> and \<open>_drop\<close> as whole
    operations; \<open>health_step\<close> cuts them at their atomic accesses. Readiness is not lost, and not early for endpoints
    that are added before a call has found itself the last one.
  \<^item> \<open>Resource_Change\<close>: the loop of \<open>resource_change.rs\<close> (\<open>changes_step\<close>, \<open>resource_changes\<close>), the watcher's protocol as
    the specification, and the refinement between them. The locale \<open>change_consumer\<close> is the contract of a
    consumer of the changes.
  \<^item> \<open>Config\<close>, \<open>Service_Spec\<close>, \<open>Descriptor_Set\<close>: the data of \<open>config\<close>, the building of specifications and the fetching
    of descriptor sets, with their results and errors on every branch. The unit tests of \<open>descriptor_set.rs\<close> are
    modelled too and shown to pass.
  \<^item> \<open>Discovery\<close>: \<open>discovery/mod.rs\<close> and \<open>dns.rs\<close>. \<open>dns_state\<close> holds the handles, the table of weak references, the
    command queue and the refresh loops; \<open>dns_step\<close> interleaves clients, the service and the loops at their
    suspension points. The invariants: a held handle is in the table and refreshed, its load balancers follow the
    DNS answers, every address is an answer for the handle's port, readiness is latched.
  \<^item> \<open>Service_Store\<close>: \<open>service_store.rs\<close>. \<open>config_state\<close> is \<open>ServiceConfigState\<close> with the routing table, the spawned
    tasks, discovery and readiness; \<open>handle_change\<close> is a turn of the service's loop, \<open>run_task\<close> a loading task,
    \<open>config_step\<close> their interleavings. \<open>held\<close> says which handles the table and the tasks own, and nobody else drops
    those. It is interpreted as a \<open>change_consumer\<close> and as a \<open>simulation\<close> of discovery.
    \<open>Service_Routes\<close> holds the properties of its runs: routes follow resources, generations never go back, the
    order of completions and hash orders do not matter, when it panics, and what a rename does.
  \<^item> \<open>Grpc\<close>: \<open>headers.rs\<close>, \<open>hash.rs\<close>, \<open>status.rs\<close>; header stripping, the bytes that are hashed, the gRPC status.
  \<^item> \<open>Cache_Storage\<close>: the interface of a cache storage as the locale \<open>cache_storage\<close>, whose lemma is that a hit was
    stored before, and \<open>cache/local.rs\<close>. The locale is interpreted on the redis storage, on the mock storage of the
    tests and on \<open>local.rs\<close>.
  \<^item> \<open>Redis_Replicas\<close>: the lookups, the miss handler and the readiness task of \<open>redis_replicas.rs\<close>, and a whole turn of
    its pool service. \<open>Pool_Service\<close>: the same service cut at its suspension points, \<open>pool_step\<close>, where discovery
    may publish at any time; it does not panic if pools can be built, and it catches up.
  \<^item> \<open>Tracing\<close>: the propagators of \<open>tracing.rs\<close>. \<open>Proxy\<close>: all callbacks of \<open>proxy/mod.rs\<close> as functions of session and
    context, and the sketch in \<open>proxy/logic.rs\<close>. \<open>Request_Lifecycle\<close>: the callbacks in the orders in which
    pingora may call them. The step relation \<open>request_step\<close> is their environment and models no code of the
    repository; it allows at least what pingora does, with stale entries, retries and responses that end at any
    frame. Only \<open>cache_key_callback\<close> can panic, for want of a request body; a response that stays cached ended with
    gRPC status zero or with its header; every request has one span.
    \<open>Caching\<close>: any number of concurrent requests that share the storage; a response from the cache is an earlier
    response of an upstream, which was left to the cache, to a request with the same key.
  \<^item> \<open>Startup\<close>: \<open>main.rs\<close> (\<open>read_config\<close>, \<open>main\<close>, \<open>run_forever\<close>) and the running services \<open>app_step\<close>. \<open>main\<close> panics, since
    it creates the cache backend outside of any tokio runtime (\<open>main_panics\<close>); the other properties are about the
    services that it sets up (\<open>main_services\<close>) running inside of one: what readiness means for all of them, that
    the pool service follows discovery, that every handle in use is refreshed, and when a background service panics.
  \<^item> \<open>Test_Peers\<close>: the client and the mock server of the integration tests, with the mutex that a failed assertion
    poisons. \<open>Test_Support\<close>: the fixtures of those tests, and how the test proxy decides on the client's request, for
    every service, method, message and backend address. \<open>Cli\<close>: the command line tool.
  \<^item> this theory: the properties that span components, from the cluster to the routing table and from there to
    the upstream of a request.

  \<^bold>\<open>Conventions.\<close> A panic (\<open>unwrap\<close>, \<open>expect\<close>, indexing, \<open>todo!\<close>) is the value \<open>Panic\<close> of type \<open>outcome\<close>; \<open>Result\<close> is a
  sum with the error on the left. Integers have their width (\<open>u64\<close>, \<open>i32\<close>, \<open>usize\<close> of 64 bits) and wrap. Hash
  containers that are iterated come with an arbitrary enumeration, and the theorems hold for every one. Code
  outside the repository is a parameter (a record of functions) with its documented behaviour as a named
  hypothesis, such as \<open>header_laws\<close>, \<open>session_laws\<close>, \<open>cache_laws\<close>, \<open>redis_laws\<close>, \<open>codec_laws\<close>, \<open>lb_law\<close>; the witnesses instantiate
  every one of them. Log lines are left out except where their arguments can panic.

  \<^bold>\<open>Bounds.\<close> Generations are \<open>usize\<close> values that are counted up: the theorems on them assume fewer than
  \<open>2 ^ 64\<close> steps, after which the code's counter would wrap. The readiness theorems assume fewer than \<open>2 ^ 64\<close>
  endpoints for the same reason, the hashing theorem lengths below \<open>2 ^ 64\<close>, and the age of a cache entry is
  below \<open>2 ^ 63\<close> seconds where the code casts it to a signed number. Reading a request body may not end:
  \<open>drain_body\<close> is a partial function whose \<open>None\<close> is divergence, and the lemma \<open>request_filter_total\<close> shows that a body that
  ends suffices for the filter to return. \<open>read_to_end\<close> has fuel, and its theorem is about every amount of it.

  \<^bold>\<open>Not modelled.\<close> Parsing of arguments and configuration files (clap, serde), the Kubernetes client, the DNS
  resolver's protocol, sockets and the server itself, since these are library code that the sources only call;
  memory ordering weaker than sequential consistency; \<open>cache/redis_cluster.rs\<close>, which is empty; \<open>EvictionEventConfig\<close>, an
  enumeration without values; the loops that accept the connections of the mock server; \<open>test/proxy.rs\<close>, which is not
  compiled; build scripts and generated protobuf code. The operations of
  \<open>cache/local.rs\<close>, and what \<open>proxy/logic.rs\<close> does after parsing the path, are \<open>todo!\<close>; they are modelled as panics.
\<close>

section \<open>From the cluster to the routing table\<close>

text \<open>C3. The configuration service holds exactly the resources of the cluster: for every stream of watch
  events that follows the watcher's protocol, with restarts and relists, whose objects have versions,
  which identify their contents, and dotted service names, the adapter and the service run without a panic, and whenever no list is in
  progress the service's resource table is what the protocol says exists.\<close>

theorem resources_follow_cluster:
  fixes from_obj :: "'m GrcacheService \<Rightarrow> ObjectRef" and LB :: "'lb load_balancing"
  assumes "protocol False (map snd evs)" and "\<forall>r \<in> stream_objects (map snd evs). rv r \<noteq> None"
    and "versions_identify from_obj rv (stream_objects (map snd evs))"
    and "\<forall>(ord, e) \<in> set evs. hash_order ord" and "hash_order ord"
    and "\<forall>r \<in> stream_objects (map snd evs). CHR ''.'' \<in> set (service_name (spec r))"
  shows "\<exists>outs cst (st :: ('m, 'md, 'lb) config_state).
    resource_changes from_obj rv evs changes_init = Returns (outs, cst)
    \<and> fold_outcome (handle_change from_obj LB ord ep) outs (config_init d w) = Returns st
    \<and> (\<not> listing (store_run from_obj (map snd evs) store_init) \<longrightarrow>
         raw_services st = known (store_run from_obj (map snd evs) store_init))"
proof -
  obtain outs cst where c: "resource_changes from_obj rv evs changes_init = Returns (outs, cst)"
    and k: "\<not> listing (store_run from_obj (map snd evs) store_init) \<longrightarrow>
         replay from_obj outs Map.empty = known (store_run from_obj (map snd evs) store_init)"
    using changes_follow_store [OF assms(1-4)] by blast
  have "CHR ''.'' \<in> set (service_name (spec r))" if "Inr (Apply r) \<in> set outs" for r
    using resource_changes_applies [OF c that] assms(6) by blast
  note ok = this
  define st0 :: "('m, 'md, 'lb) config_state" where "st0 = config_init d w"
  have st0: "refs_invar st0" "raw_services st0 = Map.empty"
    by (simp add: st0_def) (simp add: st0_def config_init_def)
  have "\<exists>st. fold_outcome (handle_change from_obj LB ord ep) outs st0 = Returns st
      \<and> (refs_invar st \<and> hash_order ord) \<and> raw_services st = replay from_obj outs (raw_services st0)"
    by (rule k8s.consume_returns) (use ok st0 assms(5) in auto)
  with c k show ?thesis unfolding st0(2) by (auto simp: st0_def)
qed

definition demo_events :: "((ObjectRef set \<Rightarrow> ObjectRef list) \<times> (unit + string GrcacheService Event)) list" where
  "demo_events = map (\<lambda>e. (sorted_list_of_set, Inr e))
     [Init, InitApply (demo_object ''a'' ''example.A'' ''1'' None), InitDone,
      EApply (demo_object ''b'' ''example.B'' ''2'' None), EDelete (demo_object ''a'' ''example.A'' ''1'' None)]"

abbreviation demo_version :: "string GrcacheService \<Rightarrow> string option" where
  "demo_version obj \<equiv> Some (url (upstream (spec obj)))"

theorem resources_follow_cluster_witness:
  "\<exists>outs cst (st :: demo_state). resource_changes demo_from_obj demo_version demo_events changes_init = Returns (outs, cst)
    \<and> fold_outcome (handle_change demo_from_obj demo_lb sorted_list_of_set 1) outs (config_init dns_new world_new) = Returns st
    \<and> raw_services st = [ObjectRef None ''b'' \<mapsto> demo_object ''b'' ''example.B'' ''2'' None]"
proof -
  let ?es = "map snd demo_events"
  have o: "stream_objects ?es = {demo_object ''a'' ''example.A'' ''1'' None, demo_object ''b'' ''example.B'' ''2'' None}"
    by (auto simp: stream_objects_def demo_events_def)
  have "protocol False ?es" by (simp add: demo_events_def)
  moreover have "\<forall>r \<in> stream_objects ?es. demo_version r \<noteq> None" by simp
  moreover have "versions_identify demo_from_obj demo_version (stream_objects ?es)"
    unfolding o by (auto simp: versions_identify_def demo_object_def)
  moreover have "\<forall>(ord, e) \<in> set demo_events. hash_order ord"
    by (auto simp: demo_events_def sorted_hash_order)
  moreover have "\<forall>r \<in> stream_objects ?es. CHR ''.'' \<in> set (service_name (spec r))"
    unfolding o by (simp add: demo_object_def)
  moreover have "\<not> listing (store_run demo_from_obj ?es store_init)"
    and "known (store_run demo_from_obj ?es store_init) = [ObjectRef None ''b'' \<mapsto> demo_object ''b'' ''example.B'' ''2'' None]"
    by (auto simp: demo_events_def store_init_def demo_object_def)
  ultimately show ?thesis
    using resources_follow_cluster [of demo_events demo_version demo_from_obj sorted_list_of_set demo_lb 1 dns_new world_new]
      sorted_hash_order by simp
qed

section \<open>From the cluster to the upstream\<close>

lemma clean_discovery:
  assumes "(dns_step LB)\<^sup>*\<^sup>* dns_new d" and "(clean_step from_obj LB ep P)\<^sup>*\<^sup>* (config_init d w, 0) (st, k)"
  shows "(dns_step LB)\<^sup>*\<^sup>* dns_new (discovery st)"
proof -
  have "config_invar (config_init d w, 0)" using counted_initI [OF assms(1)] by (rule cfg.invar_init)
  from cfg.sim_run [OF clean_counted [OF assms(2)] this]
  have "(dns_step LB)\<^sup>*\<^sup>* d (discovery st)" by (simp add: config_init_def)
  with assms(1) show ?thesis by (rule rtranclp_trans)
qed

lemma clean_held:
  assumes "(dns_step LB)\<^sup>*\<^sup>* dns_new d" and "(clean_step from_obj LB ep P)\<^sup>*\<^sup>* (config_init d w, 0) (st, k)"
    and "services st n = Some data" and "load_balancer data = Some lb"
  shows "live (discovery st) lb"
proof -
  have "held_invar st" using clean.invar_reachable [OF counted_initI [OF assms(1)] assms(2)] by (simp add: clean_invar_def)
  moreover have "held st lb" using assms(3,4) by (auto simp: held_def)
  ultimately show ?thesis by (auto simp: held_invar_def live_def strong_count_def)
qed

text \<open>A request whose service is served by a held handle for an upstream is sent to an address that discovery
  found for it, at the upstream's port, and which is in the latest answer, unless that answer is just being
  passed on.\<close>

lemma served_peer:
  assumes run: "(dns_step LB)\<^sup>*\<^sup>* dns_new d" and law: "lb_law LB view" and lb: "serves d lb up" and live: "live d lb"
    and sel: "\<And>h key n b. h < length (handles d) \<Longrightarrow> select h key n = Some b \<Longrightarrow> b \<in> view (round_robin (handles d ! h))"
    and m: "grpc_meta ctx = Some m" "load_balancer (service_data m) = Some lb"
  shows "service_backends d (url up, port up) = Some lb
    \<and> (upstream_peer select ctx = Returns (Inl (HTTPStatus 502), ctx)
      \<or> (\<exists>ip ctx'. upstream_peer select ctx = Returns (Inr (h2c_peer (ip, port up)), ctx')
          \<and> ((\<forall>l \<in> set (loops d). \<not> updating lb l) \<longrightarrow> Backend (Inet ip (port up)) 1 \<in> backends (handles d ! lb))))"
proof
  show "service_backends d (url up, port up) = Some lb"
    using dns.invar_reachable [OF refl run] live lb unfolding dns_invar_def dns_live_def serves_def by metis
  show "upstream_peer select ctx = Returns (Inl (HTTPStatus 502), ctx)
      \<or> (\<exists>ip ctx'. upstream_peer select ctx = Returns (Inr (h2c_peer (ip, port up)), ctx')
          \<and> ((\<forall>l \<in> set (loops d). \<not> updating lb l) \<longrightarrow> Backend (Inet ip (port up)) 1 \<in> backends (handles d ! lb)))"
  proof (cases "select lb '''' 256")
    case None
    then show ?thesis using m by (simp add: upstream_peer_def)
  next
    case (Some b)
    have v: "b \<in> view (round_robin (handles d ! lb))" "lb < length (handles d)"
      using sel [OF _ Some] lb by (simp_all add: serves_def)
    then obtain ip where "b = Backend (Inet ip (port up)) 1"
      using dns_address [OF run law, of lb b] lb by (auto simp: serves_def)
    with Some m v balancers_in_step [OF run law live] show ?thesis by (auto simp: upstream_peer_def)
  qed
qed

text \<open>C2. From the resources to the wire: in every clean run with no loading task pending, a well-formed
  request for a service that no resource declares gets status 404. A request for a declared service is
  accepted, or refused only because its body cannot be read or buffered; it is cached only if the least
  resource of the service names a descriptor set; and discovery has a handle for the upstream of that resource,
  such that the request is sent to an address that discovery found for it, at the resource's port, and which is
  in the latest answer unless that is just being passed on, or there is none and it gets status 502.\<close>

theorem requests_reach_upstream:
  fixes st :: "('m, 'md, 'lb) config_state"
  assumes "(dns_step LB)\<^sup>*\<^sup>* dns_new d"
    and "(clean_step from_obj LB ep P)\<^sup>*\<^sup>* (config_init d w, 0) (st, k)" and "k < 2 ^ 64" and "tasks st = []"
    and "lb_law LB view"
    and "\<And>h key n b. h < length (handles (discovery st)) \<Longrightarrow> select h key n = Some b \<Longrightarrow>
      b \<in> view (round_robin (handles (discovery st) ! h))"
    and "body_ends PG rem" and "parse_grpc_path (rh_raw_path PG (req_header PG s)) = Inr (n, meth)"
  shows "if refs_of n (raw_services st) = {}
    then \<exists>ctx. request_filter PG H (services st) s (new_ctx :: ('tc, 'md) RequestCtx) = Some (Inl (HTTPStatus 404), s, ctx)
    else \<exists>obj up r s' ctx. raw_services st (Min (refs_of n (raw_services st))) = Some obj \<and> up = upstream (spec obj)
      \<and> request_filter PG H (services st) s (new_ctx :: ('tc, 'md) RequestCtx) = Some (r, s', ctx)
      \<and> (r = Inr False \<or> r = Inl (HTTPStatus 413) \<or> (\<exists>e. r = Inl (SessionError e)))
      \<and> (do_cache ctx \<longrightarrow> descriptor_set_source (spec obj) \<noteq> None)
      \<and> (r = Inr False \<longrightarrow> (\<exists>h. service_backends (discovery st) (url up, port up) = Some h
          \<and> (upstream_peer select ctx = Returns (Inl (HTTPStatus 502), ctx)
            \<or> (\<exists>ip ctx'. upstream_peer select ctx = Returns (Inr (h2c_peer (ip, port up)), ctx')
                \<and> ((\<forall>l \<in> set (loops (discovery st)). \<not> updating h l) \<longrightarrow>
                     Backend (Inet ip (port up)) 1 \<in> backends (handles (discovery st) ! h))))))"
proof (cases "refs_of n (raw_services st) = {}")
  case True
  then have "services st n = None \<or> (\<exists>data. services st n = Some data \<and> load_balancer data = None)"
    using quiet_routes [OF assms(1-4), of n] by (cases "services st n") auto
  with True assms(8) show ?thesis
    by (cases rule: request_filter_cases [of PG s H "services st" "new_ctx :: ('tc, 'md) RequestCtx"]) auto
next
  case False
  from quiet_routes [OF assms(1-4), THEN conjunct2, rule_format, OF this]
  obtain obj data sp lb where o: "raw_services st (Min (refs_of n (raw_services st))) = Some obj"
      "services st n = Some data" "service_spec data = Some sp" "load_balancer data = Some lb"
      "serves (discovery st) lb (upstream (spec obj))" "passthrough sp \<longleftrightarrow> descriptor_set_source (spec obj) = None"
      "passthrough sp \<longrightarrow> methods sp = Map.empty"
    by (elim exE conjE) (rule that; assumption)
  obtain r s' ctx where f: "request_filter PG H (services st) s (new_ctx :: ('tc, 'md) RequestCtx) = Some (r, s', ctx)"
    using request_filter_total [OF assms(7)] by blast
  have c: "cacheable m \<noteq> None \<longrightarrow> descriptor_set_source (spec obj) \<noteq> None" if "service_data m = data" for m
    using that o(3,6,7) by (auto simp: cacheable_Some)
  let ?up = "upstream (spec obj)"
  have peer: "service_backends (discovery st) (url ?up, port ?up) = Some lb
      \<and> (upstream_peer select ctx = Returns (Inl (HTTPStatus 502), ctx)
        \<or> (\<exists>ip ctx'. upstream_peer select ctx = Returns (Inr (h2c_peer (ip, port ?up)), ctx')
            \<and> ((\<forall>l \<in> set (loops (discovery st)). \<not> updating lb l) \<longrightarrow>
                 Backend (Inet ip (port ?up)) 1 \<in> backends (handles (discovery st) ! lb))))"
    if "grpc_meta ctx = Some m" "service_data m = data" for m
    using that o(4)
    by (intro served_peer [OF clean_discovery [OF assms(1,2)] assms(5) o(5) clean_held [OF assms(1,2) o(2,4)]])
      (auto intro: assms(6))
  show ?thesis
  proof (cases rule: request_filter_cases [of PG s H "services st" "new_ctx :: ('tc, 'md) RequestCtx"])
    case (found nm m data' vs ctx1)
    then have d: "data' = data" "do_cache ctx1 = False" using assms(8) o(2) by (simp_all add: new_ctx_def)
    let ?m = "\<lparr>service_data = data', gm_method_name = m, vary_set = vs\<rparr>"
    from found_service_results [OF found(5) [symmetric, unfolded f]]
    have r: "r = Inr False \<or> r = Inl (HTTPStatus 413) \<or> (\<exists>e. r = Inl (SessionError e))"
      "grpc_meta ctx = grpc_meta ctx1" "do_cache ctx \<longrightarrow> do_cache ctx1 \<or> cacheable ?m \<noteq> None" by blast+
    show ?thesis
      using False o(1) f r c [of ?m] peer [of ?m] d found(7) by auto
  qed (use o assms(8) in auto)
qed

theorem requests_reach_upstream_witness:
  "\<exists>r s' ctx. request_filter demo_pingora demo_headers (services demo_routed) demo_request
      (new_ctx :: (unit, string \<times> i32 option) RequestCtx) = Some (r, s', ctx)
    \<and> \<not> do_cache ctx"
proof -
  let ?obj = "demo_object ''a'' ''example.TestService'' ''up'' None"
  have raw: "raw_services demo_routed = [ObjectRef None ''a'' \<mapsto> ?obj]" and t: "tasks demo_routed = []"
    by (simp_all add: demo_routed_def route_tasks demo_config_def config_init_def) (simp add: demo_object_def)
  have refs: "refs_of ''example.TestService'' (raw_services demo_routed) = {ObjectRef None ''a''}"
    unfolding raw by (auto simp: refs_of_def demo_object_def)
  have p: "parse_grpc_path (rh_raw_path demo_pingora (req_header demo_pingora demo_request))
      = Inr (''example.TestService'', ''GetData'')"
    using demo_path by (simp add: demo_pingora_def demo_request_def)
  have "\<exists>obj r s' ctx. raw_services demo_routed (ObjectRef None ''a'') = Some obj
      \<and> request_filter demo_pingora demo_headers (services demo_routed) demo_request
          (new_ctx :: (unit, string \<times> i32 option) RequestCtx) = Some (r, s', ctx)
      \<and> (do_cache ctx \<longrightarrow> descriptor_set_source (spec obj) \<noteq> None)"
    using requests_reach_upstream [OF rtranclp.rtrancl_refl demo_clean_run [unfolded demo_config_def] _ t demo_lb_law _
        demo_body_ends p, of "\<lambda>_ _ _. None" demo_headers] refs by auto
  then show ?thesis unfolding raw by (auto simp: demo_object_def)
qed

section \<open>Requests and discovery\<close>


text \<open>The load balancer of a discovered handle, and a request without a body for a method that is to be cached.\<close>

definition demo_selection :: "nat \<Rightarrow> bytes \<Rightarrow> nat \<Rightarrow> Backend option" where
  "demo_selection h key n = (if h = 0 then Some (Backend (Inet 42 6379) 1) else None)"

abbreviation "demo_selecting \<equiv> demo_env\<lparr>selects := {demo_selection}\<rparr>"




section \<open>From discovery to the cache\<close>

text \<open>C32. The cache works end to end: in every run of the services that \<open>main\<close> sets up, inside of a runtime, at a
  moment when the pool service has caught up with a non-empty set of discovered replicas and no refresh loop is
  between publishing that set and passing it on to the load balancers, while redis answers its commands, a response
  that serialises and is stored for any key at the end of a request is what a lookup of that key returns, with its
  metadata and its whole body, however it was cut into chunks.\<close>

theorem stored_responses_are_found:
  assumes "main_services LB True backend = Returns srv" and "run_forever client srv = Returns a0"
    and "(app_step from_obj LB P build info)\<^sup>*\<^sup>* a0 a" and "lb_law LB view" and "select_some_law sel view"
    and "ps_pc (cache_pools a) = Waiting" and "\<not> unseen (cache_pools a)"
    and "\<And>l. l \<in> set (loops (discovery (config a))) \<Longrightarrow> l_chan l = redis a \<Longrightarrow> \<not> updating (redis a) l"
    and "replicas a \<noteq> {}"
    and "codec_laws K" and "redis_laws IO pool_of stored" and "redis_up IO" and "get_miss_handler K key meta = Inr m"
    and "bincode_serialize K \<lparr>cache_meta = miss_meta m, cd_data = concat (map fst chunks)\<rparr> = Inr bs"
  shows "\<exists>w1 w2. store_entry sel K IO (redis_view a) key meta chunks w = (Returns (Inr (of_nat (Suc (length bs)))), w1)
    \<and> lookup sel K IO (redis_view a) key w1 = (Returns (Inr (Some (meta, \<lparr>hit_data = concat (map fst chunks)\<rparr>))), w2)"
proof -
  obtain p where "pool_for_hash sel (redis_view a) (primary_bin K key) = Some p"
    using every_key_has_a_pool [OF assms(1-9), of "primary_bin K key"] by blast
  with assms(10-14) show ?thesis by (intro stored_entry_found)
qed

theorem stored_responses_are_found_witness:
  "\<exists>a w1 w2. demo_app_step\<^sup>*\<^sup>* demo_app a
     \<and> lookup demo_first demo_codec demo_io (redis_view a) ''key'' w1 = (Returns (Inr (Some ((), \<lparr>hit_data = ''abc''\<rparr>))), w2)"
proof -
  obtain a where a: "demo_app_step\<^sup>*\<^sup>* demo_app a" "ps_pc (cache_pools a) = Waiting" "\<not> unseen (cache_pools a)"
    "replicas a \<noteq> {}" "\<forall>l \<in> set (loops (discovery (config a))). \<not> updating (redis a) l"
    using demo_caught_up by blast
  have l: "\<And>l. l \<in> set (loops (discovery (config a))) \<Longrightarrow> l_chan l = redis a \<Longrightarrow> \<not> updating (redis a) l" using a(5) by blast
  have m: "get_miss_handler demo_codec ''key'' () = Inr \<lparr>miss_meta = ([], []), miss_hash = ''key'', miss_value = []\<rparr>"
    and b: "bincode_serialize demo_codec \<lparr>cache_meta = miss_meta \<lparr>miss_meta = ([], []), miss_hash = ''key'', miss_value = []\<rparr>,
        cd_data = concat (map fst [(''ab'', False), (''c'', True)])\<rparr> = Inr ''abc''"
    by (simp_all add: get_miss_handler_def demo_codec_def)
  from stored_responses_are_found [where chunks = "[(''ab'', False), (''c'', True)]" and w = "\<lambda>_. Map.empty",
      OF demo_main demo_run_forever a(1) demo_lb_law demo_first_law a(2,3) l a(4) demo_redis_laws(1,2) demo_redis_up m b]
  show ?thesis using a(1) by (simp, blast)
qed

end
